(* ===== verification/Crouton_Prelude.thy ===== *)
theory Crouton_Prelude
  imports Main "HOL-Library.Word"
begin

text \<open>
  Shared vocabulary of the development: the machine types the C++ code uses, the outcome of an
  operation that can throw or terminate, and generic lemmas about words, lists and outcomes that
  the component theories build on.
\<close>

unbundle bit_operations_syntax

named_theorems word_bits \<open>bit-level characterisation of the word operations the code uses\<close>
named_theorems outcome_simps \<open>rewriting of sequenced outcomes\<close>
named_theorems inv_defs \<open>unfolding of the component invariants\<close>

type_synonym byte = "8 word"
type_synonym u16 = "16 word"
type_synonym u32 = "32 word"
type_synonym u64 = "64 word"

subsection \<open>Outcomes\<close>

text \<open>
  The error domains whose enums the modelled code constructs an \<^verbatim>\<open>Error\<close> from. A thrown
  \<^verbatim>\<open>crouton::Exception\<close> carries the domain and the numeric code. \<open>Terminated\<close> is a failed
  \<^verbatim>\<open>precondition()\<close> or \<^verbatim>\<open>assert()\<close> (\<^verbatim>\<open>include/crouton/util/betterassert.hh\<close>, as compiled without
  \<^verbatim>\<open>NDEBUG\<close>), \<open>UndefinedBehavior\<close> is a use of the standard library outside its contract, and \<open>Diverges\<close> is a loop that does
  not end.
\<close>

datatype domain = DCrouton | DCpp | DWebSocket | DHTTPStatus | DBlipProtocol | DBlipApp

text \<open>
  Outside theory \<open>Errors\<close>, which models the stored representation, an \<^verbatim>\<open>Error\<close> value is its domain
  and code. Code 0 is \<^verbatim>\<open>noerror\<close>, whatever the domain.
\<close>

type_synonym err = "domain \<times> int"

definition no_err :: err where "no_err = (DCrouton, 0)"

abbreviation err_true :: "err \<Rightarrow> bool" where "err_true e \<equiv> snd e \<noteq> 0"

datatype exn = Raise domain int | Terminated | UndefinedBehavior | Diverges

type_synonym 'a outcome = "exn + 'a"

abbreviation Ok :: "'a \<Rightarrow> 'a outcome" where "Ok \<equiv> Inr"
abbreviation Throw :: "exn \<Rightarrow> 'a outcome" where "Throw \<equiv> Inl"

definition obind :: "'a outcome \<Rightarrow> ('a \<Rightarrow> 'b outcome) \<Rightarrow> 'b outcome" where
  "obind r f = (case r of Inl e \<Rightarrow> Inl e | Inr a \<Rightarrow> f a)"

definition assert_that :: "bool \<Rightarrow> 'a outcome \<Rightarrow> 'a outcome" where
  "assert_that b r = (if b then r else Inl Terminated)"

text \<open>The outcome of a loop that was defined as a partial function.\<close>

definition returns :: "'a outcome option \<Rightarrow> 'a outcome" where
  "returns r = (case r of None \<Rightarrow> Inl Diverges | Some x \<Rightarrow> x)"

fun is_ok :: "'a outcome \<Rightarrow> bool" where
  "is_ok (Inr _) = True"
| "is_ok (Inl _) = False"

lemma obind_Ok [simp, outcome_simps]: "obind (Ok a) f = f a"
  by (simp add: obind_def)

lemma obind_Throw [simp, outcome_simps]: "obind (Throw e) f = Throw e"
  by (simp add: obind_def)

lemma obind_eq_Ok: "obind r f = Ok b \<longleftrightarrow> (\<exists>a. r = Ok a \<and> f a = Ok b)"
  by (cases r) auto

lemma obind_eq_Throw: "obind r f = Throw e \<longleftrightarrow> r = Throw e \<or> (\<exists>a. r = Ok a \<and> f a = Throw e)"
  by (cases r) auto

lemma obind_assoc: "obind (obind r f) g = obind r (\<lambda>a. obind (f a) g)"
  by (cases r) auto

lemma assert_that_eq_Ok: "assert_that b r = Ok x \<longleftrightarrow> b \<and> r = Ok x"
  by (simp add: assert_that_def)

lemma assert_that_simps [simp, outcome_simps]:
  "assert_that True r = r" "assert_that False r = Throw Terminated"
  by (simp_all add: assert_that_def)

lemma is_ok_iff: "is_ok r \<longleftrightarrow> (\<exists>a. r = Ok a)"
  by (cases r) auto

text \<open>An operation done for each element of a list.\<close>

fun foldo :: "('b \<Rightarrow> 's \<Rightarrow> 's outcome) \<Rightarrow> 'b list \<Rightarrow> 's \<Rightarrow> 's outcome" where
  "foldo f [] s = Ok s"
| "foldo f (b # bs) s = obind (f b s) (foldo f bs)"

lemma foldo_append: "foldo f (xs @ ys) s = obind (foldo f xs s) (foldo f ys)"
proof (induction xs arbitrary: s)
  case (Cons a xs)
  then show ?case by (cases "f a s") simp_all
qed simp

lemma obind_foldo_Nil [simp]: "obind r (foldo f []) = r"
  by (cases r) simp_all

subsection \<open>Words\<close>

lemma bit_0x80 [word_bits]: "bit (0x80 :: 'a::len word) i \<longleftrightarrow> i = 7 \<and> 7 < LENGTH('a)"
proof -
  have "bit (2 ^ 7 :: 'a word) i \<longleftrightarrow> i = 7 \<and> 7 < LENGTH('a)"
    by (simp only: bit_exp_iff) (auto simp: possible_bit_def)
  then show ?thesis by simp
qed

lemma and_mask7_bit [word_bits]:
  "bit (b AND 0x7F :: 'a::len word) i \<longleftrightarrow> bit b i \<and> i < 7"
proof -
  have "bit (b AND mask 7) i \<longleftrightarrow> bit b i \<and> i < 7"
    by (simp only: bit_and_iff bit_mask_iff) (auto simp: possible_bit_def dest: bit_imp_le_length)
  then show ?thesis by (simp add: mask_eq_exp_minus_1)
qed

lemma and_0xFF_bit [word_bits]:
  "bit (b AND 0xFF :: 'a::len word) i \<longleftrightarrow> bit b i \<and> i < 8"
proof -
  have "bit (b AND mask 8) i \<longleftrightarrow> bit b i \<and> i < 8"
    by (simp only: bit_and_iff bit_mask_iff) (auto simp: possible_bit_def dest: bit_imp_le_length)
  then show ?thesis by (simp add: mask_eq_exp_minus_1)
qed

lemma and_0x80_iff: "(b :: 'a::len word) AND 0x80 \<noteq> 0 \<longleftrightarrow> bit b 7"
proof
  assume "bit b 7"
  then have "bit (b AND 0x80) 7"
    by (auto simp: bit_and_iff bit_0x80 simp del: bit_numeral_word_iff dest: bit_imp_le_length)
  then show "b AND 0x80 \<noteq> 0" by auto
next
  have "b AND 0x80 = 0" if "\<not> bit b 7"
    by (rule bit_word_eqI) (use that in \<open>auto simp: bit_and_iff bit_0x80 simp del: bit_numeral_word_iff\<close>)
  then show "b AND 0x80 \<noteq> 0 \<Longrightarrow> bit b 7" by blast
qed

lemma drop_bit_7_less: "0x80 \<le> (n :: u64) \<Longrightarrow> unat (drop_bit 7 n) < unat n"
  by (simp add: drop_bit_eq_div unat_div word_le_nat_alt)

subsection \<open>Lists\<close>

lemma nth_append_right: "i < length ys \<Longrightarrow> (xs @ ys) ! (length xs + i) = ys ! i"
  by simp

end
