(* ===== verification/Errors.thy ===== *)
theory Errors
  imports Crouton_Prelude
begin

text \<open>
  Errors and results: \<^verbatim>\<open>include/crouton/Error.hh\<close>, \<^verbatim>\<open>src/Error.cc\<close>, \<^verbatim>\<open>include/crouton/Result.hh\<close>.
  The type-erased \<^verbatim>\<open>Error\<close> is modelled as the code stores it, an 18-bit signed code and a 6-bit index
  into the table \<^verbatim>\<open>sDomains\<close>, with the registration of domains in that table. The lemmas show that
  registration keeps the table well formed and that an error converts back to exactly the enum it
  was made from. \<^verbatim>\<open>Result<T>\<close> is a value or an error.
\<close>

subsection \<open>Error codes\<close>

datatype crouton_error =
    CE_none | Cancelled | EmptyResult | InvalidArgument | InvalidState | InvalidURL | LogicError
  | ParseError | Timeout | UnexpectedEOF | Unimplemented | Disconnected | NotFound

primrec crouton_code :: "crouton_error \<Rightarrow> int" where
  "crouton_code CE_none = 0"
| "crouton_code Cancelled = 1"
| "crouton_code EmptyResult = 2"
| "crouton_code InvalidArgument = 3"
| "crouton_code InvalidState = 4"
| "crouton_code InvalidURL = 5"
| "crouton_code LogicError = 6"
| "crouton_code ParseError = 7"
| "crouton_code Timeout = 8"
| "crouton_code UnexpectedEOF = 9"
| "crouton_code Unimplemented = 10"
| "crouton_code Disconnected = 11"
| "crouton_code NotFound = 12"

abbreviation raise_crouton :: "crouton_error \<Rightarrow> 'a outcome" where
  "raise_crouton e \<equiv> Throw (Raise DCrouton (crouton_code e))"

text \<open>\<^verbatim>\<open>CppError\<close> numbers the standard exception classes from 1 in the order of this table.\<close>

definition kExceptionNames :: "(int \<times> string) list" where
  "kExceptionNames =
    [(1, ''std::exception''), (2, ''std::logic_error''), (3, ''std::invalid_argument''),
     (4, ''std::domain_error''), (5, ''std::length_error''), (6, ''std::out_of_range''),
     (7, ''std::runtime_error''), (8, ''std::range_error''), (9, ''std::overflow_error''),
     (10, ''std::underflow_error''), (11, ''std::regex_error''), (12, ''std::system_error''),
     (13, ''std::format_error''), (14, ''std::bad_typeid''), (15, ''std::bad_cast''),
     (16, ''std::bad_any_cast''), (17, ''std::bad_optional_access''), (18, ''std::bad_weak_ptr''),
     (19, ''std::bad_function_call''), (20, ''std::bad_alloc''),
     (21, ''std::bad_array_new_length''), (22, ''std::bad_exception''),
     (23, ''std::bad_variant_access'')]"

fun NameEntry_lookup :: "int \<Rightarrow> (int \<times> string) list \<Rightarrow> string" where
  "NameEntry_lookup code [] = ''''"
| "NameEntry_lookup code ((c, name) # table) =
     (if c = code then name else NameEntry_lookup code table)"

definition CroutonError_description :: "int \<Rightarrow> string" where
  "CroutonError_description code = NameEntry_lookup code
    [(crouton_code Cancelled, ''operation was cancelled''),
     (crouton_code EmptyResult, ''internal error (accessed empty Result)''),
     (crouton_code InvalidArgument, ''internal error (invalid argument)''),
     (crouton_code InvalidState, ''internal error (invalid state)''),
     (crouton_code InvalidURL, ''invalid URL''),
     (crouton_code LogicError, ''internal error (logic error)''),
     (crouton_code ParseError, ''unreadable data''),
     (crouton_code Timeout, ''operation timed out''),
     (crouton_code UnexpectedEOF, ''unexpected end of data''),
     (crouton_code Unimplemented, ''unimplemented operation''),
     (crouton_code Disconnected, ''unexpectedly disconnected''),
     (crouton_code NotFound, ''not found'')]"

definition CppError_description :: "int \<Rightarrow> string" where
  "CppError_description code = NameEntry_lookup code kExceptionNames"

text \<open>\<^verbatim>\<open>exceptionToCppError\<close>, given the demangled class name of the caught exception.\<close>

fun exceptionToCppError_in :: "(int \<times> string) list \<Rightarrow> string \<Rightarrow> int" where
  "exceptionToCppError_in [] name = 1"
| "exceptionToCppError_in ((c, n) # table) name =
     (if n = name then c else exceptionToCppError_in table name)"

definition exceptionToCppError :: "string \<Rightarrow> int" where
  "exceptionToCppError name = exceptionToCppError_in kExceptionNames name"

subsection \<open>The domain table and the type-erased Error\<close>

text \<open>A domain is identified by the address of its \<^verbatim>\<open>type_info\<close>; \<open>None\<close> is a null pointer.\<close>

record DomainMeta =
  dm_type :: "nat option"
  dm_name :: string
  dm_description :: "(int \<Rightarrow> string) option"

definition empty_meta :: DomainMeta where
  "empty_meta = \<lparr>dm_type = None, dm_name = '''', dm_description = None\<rparr>"

definition kNDomains :: nat where "kNDomains = 64"

definition sDomains_init :: "DomainMeta list" where
  "sDomains_init = replicate kNDomains empty_meta"

definition registered_example :: "DomainMeta list" where
  "registered_example =
     \<lparr>dm_type = Some 7, dm_name = ''Crouton'', dm_description = Some CroutonError_description\<rparr>
       # replicate 63 empty_meta"

text \<open>The loop of \<^verbatim>\<open>_registerDomain\<close> from entry \<open>i\<close> on.\<close>

fun registerDomain_from ::
  "nat \<Rightarrow> nat \<Rightarrow> string \<Rightarrow> (int \<Rightarrow> string) \<Rightarrow> DomainMeta list \<Rightarrow> (nat \<times> DomainMeta list) outcome"
where
  "registerDomain_from i t name desc [] = Throw (Raise DCpp (exceptionToCppError ''std::runtime_error''))"
| "registerDomain_from i t name desc (d # ds) =
     (if dm_type d = Some t then Ok (i, d # ds)
      else if dm_type d = None then
        Ok (i, \<lparr>dm_type = Some t, dm_name = name, dm_description = Some desc\<rparr> # ds)
      else case registerDomain_from (Suc i) t name desc ds of
             Inl e \<Rightarrow> Inl e
           | Inr (j, ds') \<Rightarrow> Ok (j, d # ds'))"

definition registerDomain ::
  "nat \<Rightarrow> string \<Rightarrow> (int \<Rightarrow> string) \<Rightarrow> DomainMeta list \<Rightarrow> (nat \<times> DomainMeta list) outcome"
where
  "registerDomain t name desc tbl = registerDomain_from 0 t name desc tbl"

record Error =
  e_code :: int
  e_domain :: nat

definition noerror :: Error where
  "noerror = \<lparr>e_code = 0, e_domain = 0\<rparr>"

text \<open>Storing into the 18-bit signed bit-field \<^verbatim>\<open>_code\<close> keeps the low 18 bits.\<close>

definition bitfield18 :: "int \<Rightarrow> int" where
  "bitfield18 c = (c + 2 ^ 17) mod 2 ^ 18 - 2 ^ 17"

text \<open>The constructor checks with \<^verbatim>\<open>assert(_code == code)\<close> that the code fitted.\<close>

definition mk_Error :: "int \<Rightarrow> nat \<Rightarrow> Error outcome" where
  "mk_Error c d = assert_that (bitfield18 c = c) (Ok \<lparr>e_code = bitfield18 c, e_domain = d mod 64\<rparr>)"

definition err_bool :: "Error \<Rightarrow> bool" where
  "err_bool e \<longleftrightarrow> e_code e \<noteq> 0"

definition err_domain :: "DomainMeta list \<Rightarrow> Error \<Rightarrow> string" where
  "err_domain tbl e = (if e_code e \<noteq> 0 then dm_name (tbl ! e_domain e) else '''')"

definition typeInfo :: "DomainMeta list \<Rightarrow> Error \<Rightarrow> nat option" where
  "typeInfo tbl e = (if e_code e \<noteq> 0 then dm_type (tbl ! e_domain e) else None)"

definition err_is :: "DomainMeta list \<Rightarrow> nat \<Rightarrow> Error \<Rightarrow> bool" where
  "err_is tbl t e \<longleftrightarrow> typeInfo tbl e = Some t"

definition err_as :: "DomainMeta list \<Rightarrow> nat \<Rightarrow> Error \<Rightarrow> int" where
  "err_as tbl t e = (if err_is tbl t e then e_code e else 0)"

text \<open>\<^verbatim>\<open>operator==(Error, ErrorDomain auto)\<close>.\<close>

definition err_eq_enum :: "DomainMeta list \<Rightarrow> Error \<Rightarrow> nat \<Rightarrow> int \<Rightarrow> bool" where
  "err_eq_enum tbl e t d \<longleftrightarrow> typeInfo tbl e = Some t \<and> e_code e = d"

fun to_decimal :: "nat \<Rightarrow> string" where
  "to_decimal n =
     (if n < 10 then [char_of (48 + n)] else to_decimal (n div 10) @ [char_of (48 + n mod 10)])"

declare to_decimal.simps [simp del]

definition to_string_int :: "int \<Rightarrow> string" where
  "to_string_int i = (if i < 0 then CHR ''-'' # to_decimal (nat (- i)) else to_decimal (nat i))"

definition brief :: "DomainMeta list \<Rightarrow> Error \<Rightarrow> string" where
  "brief tbl e =
     (if e_code e = 0 then ''(no error)''
      else err_domain tbl e @ '' error '' @ to_string_int (e_code e))"

definition err_description :: "DomainMeta list \<Rightarrow> Error \<Rightarrow> string" where
  "err_description tbl e =
     (if e_code e \<noteq> 0 then
        (case dm_description (tbl ! e_domain e) of
           None \<Rightarrow> brief tbl e
         | Some desc \<Rightarrow> (let d = desc (e_code e) in if d \<noteq> '''' then d else brief tbl e))
      else brief tbl e)"

subsection \<open>Well-formed tables\<close>

text \<open>The filled entries come first and have distinct types, as \<^verbatim>\<open>_registerDomain\<close> keeps them.\<close>

fun wf_domains :: "DomainMeta list \<Rightarrow> bool" where
  "wf_domains [] = True"
| "wf_domains (d # ds) =
     ((case dm_type d of
         None \<Rightarrow> (\<forall>x \<in> set ds. dm_type x = None)
       | Some t \<Rightarrow> (\<forall>x \<in> set ds. dm_type x \<noteq> Some t)) \<and> wf_domains ds)"

lemma wf_domains_init: "wf_domains sDomains_init"
proof -
  have "wf_domains (replicate n empty_meta)" for n
    by (induction n) (auto simp: empty_meta_def)
  then show ?thesis by (simp add: sDomains_init_def)
qed

lemma registerDomain_from_spec:
  assumes "registerDomain_from i t name desc tbl = Ok (j, tbl')"
  shows "\<exists>k d. j = i + k \<and> k < length tbl \<and> tbl' = tbl[k := d] \<and> dm_type d = Some t
           \<and> (d = tbl ! k \<or> dm_type (tbl ! k) = None)
           \<and> (\<forall>x \<in> set (take k tbl). dm_type x \<noteq> None \<and> dm_type x \<noteq> Some t)"
  using assms
proof (induction tbl arbitrary: i j tbl')
  case Nil
  then show ?case by simp
next
  case (Cons d ds)
  show ?case
  proof (cases "dm_type d = Some t \<or> dm_type d = None")
    case True
    with Cons.prems show ?thesis
      by (intro exI [of _ 0] exI [of _ "hd tbl'"]) (auto split: if_splits)
  next
    case False
    with Cons.prems obtain ds' where *: "registerDomain_from (Suc i) t name desc ds = Ok (j, ds')"
      and t': "tbl' = d # ds'"
      by (auto split: sum.splits prod.splits)
    from Cons.IH [OF *] obtain k e where k: "j = Suc i + k" "k < length ds" "ds' = ds[k := e]"
      "dm_type e = Some t" "e = ds ! k \<or> dm_type (ds ! k) = None"
      "\<forall>x \<in> set (take k ds). dm_type x \<noteq> None \<and> dm_type x \<noteq> Some t"
      by blast
    with False t' show ?thesis
      by (intro exI [of _ "Suc k"] exI [of _ e]) auto
  qed
qed

lemma registerDomain_from_wf:
  assumes "wf_domains tbl" "registerDomain_from i t name desc tbl = Ok (j, tbl')"
  shows "wf_domains tbl' \<and> (\<forall>x \<in> set tbl'. x \<in> set tbl \<or> dm_type x = Some t)"
  using assms
proof (induction tbl arbitrary: i j tbl')
  case Nil
  then show ?case by simp
next
  case (Cons d ds)
  show ?case
  proof (cases "dm_type d = Some t \<or> dm_type d = None")
    case True
    with Cons.prems show ?thesis by (auto split: if_splits)
  next
    case False
    with Cons.prems obtain ds' where *: "registerDomain_from (Suc i) t name desc ds = Ok (j, ds')"
      and t': "tbl' = d # ds'"
      by (auto split: sum.splits prod.splits)
    from False Cons.prems(1) obtain u where u: "dm_type d = Some u" "u \<noteq> t" "wf_domains ds"
      "\<forall>x \<in> set ds. dm_type x \<noteq> Some u"
      by auto
    from Cons.IH [OF u(3) *] u t' show ?thesis by auto
  qed
qed

lemma registerDomain_from_total:
  assumes "\<exists>x \<in> set tbl. dm_type x = None \<or> dm_type x = Some t"
  shows "\<exists>r. registerDomain_from i t name desc tbl = Ok r"
  using assms
proof (induction tbl arbitrary: i)
  case Nil
  then show ?case by simp
next
  case (Cons d ds)
  show ?case
  proof (cases "dm_type d = Some t \<or> dm_type d = None")
    case True
    then show ?thesis by auto
  next
    case False
    with Cons.prems have "\<exists>x \<in> set ds. dm_type x = None \<or> dm_type x = Some t" by auto
    from Cons.IH [OF this, of "Suc i"] False show ?thesis by (auto split: prod.splits)
  qed
qed

lemma registerDomain_from_again:
  "registerDomain_from i t name desc tbl = Ok (j, tbl')
     \<Longrightarrow> registerDomain_from i t name2 desc2 tbl' = Ok (j, tbl')"
  by (induction tbl arbitrary: i j tbl') (auto split: if_splits sum.splits prod.splits)

lemma registerDomain_effect:
  assumes "wf_domains tbl" and "registerDomain t name desc tbl = Ok (j, tbl')"
  shows "wf_domains tbl'" "length tbl' = length tbl" "j < length tbl'" "dm_type (tbl' ! j) = Some t"
    "\<forall>k < length tbl. dm_type (tbl ! k) \<noteq> None \<longrightarrow> tbl' ! k = tbl ! k"
proof -
  have r: "registerDomain_from 0 t name desc tbl = Ok (j, tbl')"
    using assms(2) by (simp add: registerDomain_def)
  from registerDomain_from_spec [OF this] obtain d where "j < length tbl" "tbl' = tbl[j := d]"
    "dm_type d = Some t" "d = tbl ! j \<or> dm_type (tbl ! j) = None"
    by auto
  then show "wf_domains tbl'" "length tbl' = length tbl" "j < length tbl'" "dm_type (tbl' ! j) = Some t"
    "\<forall>k < length tbl. dm_type (tbl ! k) \<noteq> None \<longrightarrow> tbl' ! k = tbl ! k"
    using registerDomain_from_wf [OF assms(1) r] by (auto simp: nth_list_update)
qed

lemma bitfield18_id: "- (2 ^ 17) \<le> c \<Longrightarrow> c < 2 ^ 17 \<Longrightarrow> bitfield18 c = c"
  by (simp add: bitfield18_def)

lemma wf_domains_unique:
  assumes "wf_domains tbl" "i < length tbl" "j < length tbl"
    "dm_type (tbl ! i) = Some t" "dm_type (tbl ! j) = Some t"
  shows "i = j"
  using assms
proof (induction tbl arbitrary: i j)
  case Nil
  then show ?case by simp
next
  case (Cons d ds)
  then show ?case
    by (cases i; cases j) (auto split: option.splits)
qed

subsection \<open>Result\<close>

datatype 'a Result = RValue 'a | RError err

definition Result_empty_value :: "'a Result" where "Result_empty_value = RError no_err"

fun Result_ok :: "'a Result \<Rightarrow> bool" where
  "Result_ok (RValue _) = True"
| "Result_ok (RError _) = False"

fun Result_empty :: "'a Result \<Rightarrow> bool" where
  "Result_empty (RValue _) = False"
| "Result_empty (RError e) = (\<not> err_true e)"

fun Result_isError :: "'a Result \<Rightarrow> bool" where
  "Result_isError (RValue _) = False"
| "Result_isError (RError e) = err_true e"

fun Result_bool :: "'a Result \<Rightarrow> bool outcome" where
  "Result_bool (RValue _) = Ok True"
| "Result_bool (RError e) = (if err_true e then Throw (Raise (fst e) (snd e)) else Ok False)"

fun Result_error :: "'a Result \<Rightarrow> err" where
  "Result_error (RValue _) = no_err"
| "Result_error (RError e) = e"

definition Result_raise_if :: "'a Result \<Rightarrow> unit outcome" where
  "Result_raise_if r =
     (case r of
        RError e \<Rightarrow>
          (let err = (if err_true e then e else (DCrouton, crouton_code EmptyResult))
           in Throw (Raise (fst err) (snd err)))
      | RValue _ \<Rightarrow> Ok ())"

definition Result_value :: "'a Result \<Rightarrow> 'a outcome" where
  "Result_value r = obind (Result_raise_if r)
     (\<lambda>_. case r of RValue v \<Rightarrow> Ok v | RError _ \<Rightarrow> Throw UndefinedBehavior)"

lemma Result_value_simps [simp]:
  "Result_value (RValue v) = Ok v"
  "err_true e \<Longrightarrow> Result_value (RError e) = Throw (Raise (fst e) (snd e))"
  "\<not> err_true e \<Longrightarrow> Result_value (RError e) = raise_crouton EmptyResult"
  by (simp_all add: Result_value_def Result_raise_if_def)

subsection \<open>Properties\<close>

text \<open>
  Registering an error domain in a well-formed table of \<^verbatim>\<open>sDomains\<close> keeps it well formed, moves no
  entry that was filled before, and returns the index of an entry with the domain's type;
  registering again returns the same index and changes nothing.
\<close>

theorem registerDomain_correct:
  assumes "wf_domains tbl" and "registerDomain t name desc tbl = Ok (j, tbl')"
  shows "wf_domains tbl' \<and> length tbl' = length tbl \<and> j < length tbl'
         \<and> dm_type (tbl' ! j) = Some t
         \<and> (\<forall>k < length tbl. dm_type (tbl ! k) \<noteq> None \<longrightarrow> tbl' ! k = tbl ! k)
         \<and> registerDomain t name2 desc2 tbl' = Ok (j, tbl')"
  using registerDomain_effect [OF assms] registerDomain_from_again [of 0 t name desc tbl j tbl']
    assms(2)
  by (auto simp: registerDomain_def)

theorem registerDomain_correct_witness:
  "wf_domains sDomains_init
   \<and> registerDomain 7 ''Crouton'' CroutonError_description sDomains_init
       = Ok (0, registered_example)
   \<and> registerDomain 7 ''Again'' CppError_description registered_example = Ok (0, registered_example)"
proof -
  have r: "registerDomain 7 ''Crouton'' CroutonError_description sDomains_init
       = Ok (0, registered_example)"
    by (simp add: registerDomain_def sDomains_init_def registered_example_def kNDomains_def
        empty_meta_def numeral_eq_Suc)
  from registerDomain_correct [OF wf_domains_init r] r wf_domains_init show ?thesis by blast
qed

text \<open>
  C36. An \<^verbatim>\<open>Error\<close> made from a nonzero enum value of a registered domain converts back to exactly that
  value, is an error of no other domain and equals no other enum value; this still holds after any
  further domain is registered. The code must lie in the 18-bit range.
\<close>

theorem error_roundtrip:
  assumes "wf_domains tbl" and "length tbl = kNDomains"
    and "registerDomain t name desc tbl = Ok (j, tbl1)"
    and "- (2 ^ 17) \<le> c" and "c < 2 ^ 17" and "c \<noteq> 0"
    and "registerDomain t2 name2 desc2 tbl1 = Ok (j2, tbl2)"
  shows "\<exists>e. mk_Error c j = Ok e \<and> err_bool e \<and> err_as tbl2 t e = c
           \<and> (\<forall>u d. err_eq_enum tbl2 e u d \<longleftrightarrow> u = t \<and> d = c)
           \<and> (\<forall>u. u \<noteq> t \<longrightarrow> err_as tbl2 u e = 0)
           \<and> err_domain tbl2 e = dm_name (tbl1 ! j)"
proof -
  have r1: "wf_domains tbl1" "length tbl1 = 64" "j < 64" "dm_type (tbl1 ! j) = Some t"
    using registerDomain_effect [OF assms(1,3)] assms(2) by (simp_all add: kNDomains_def)
  have "tbl2 ! j = tbl1 ! j"
    using registerDomain_effect(5) [OF r1(1) assms(7)] r1 by simp
  then show ?thesis
    using r1 assms(4-6) bitfield18_id [of c]
    by (simp add: mk_Error_def err_bool_def err_as_def err_is_def err_eq_enum_def typeInfo_def
        err_domain_def) auto
qed

theorem error_roundtrip_witness:
  "\<exists>e. mk_Error 7 0 = Ok e \<and> err_bool e \<and> err_as registered_example 7 e = 7
     \<and> err_as registered_example 8 e = 0"
proof -
  have r: "registerDomain 7 ''Crouton'' CroutonError_description sDomains_init
       = Ok (0, registered_example)"
    by (simp add: registerDomain_def sDomains_init_def registered_example_def kNDomains_def
        empty_meta_def numeral_eq_Suc)
  have r2: "registerDomain 7 ''Crouton'' CroutonError_description registered_example
       = Ok (0, registered_example)"
    by (simp add: registerDomain_def registered_example_def)
  have l: "length sDomains_init = kNDomains" by (simp add: sDomains_init_def)
  from error_roundtrip [OF wf_domains_init l r _ _ _ r2, of 7] show ?thesis by auto
qed

end
