(* ===== verification/Bytes.thy ===== *)
theory Bytes
  imports Errors
begin

text \<open>
  Byte ranges and buffers (\<^verbatim>\<open>include/crouton/util/Bytes.hh\<close>) and byte order
  (\<^verbatim>\<open>src/support/Endian.hh\<close>). A \<^verbatim>\<open>ConstBytes\<close> is the list of bytes it spans; a \<^verbatim>\<open>MutableBytes\<close> that is
  being filled is what has been written through it and the room that is left. Calls of \<^verbatim>\<open>std::span\<close>
  outside its bounds are \<open>UndefinedBehavior\<close>.
\<close>

subsection \<open>ConstBytes\<close>

definition Bytes_first :: "nat \<Rightarrow> byte list \<Rightarrow> byte list outcome" where
  "Bytes_first n bs = (if n \<le> length bs then Ok (take n bs) else Throw UndefinedBehavior)"

definition Bytes_last :: "nat \<Rightarrow> byte list \<Rightarrow> byte list outcome" where
  "Bytes_last n bs =
     (if n \<le> length bs then Ok (drop (length bs - n) bs) else Throw UndefinedBehavior)"

text \<open>\<^verbatim>\<open>size() - n\<close> wraps around when \<open>n\<close> is too big, and \<^verbatim>\<open>last\<close> is then called out of bounds.\<close>

definition Bytes_without_first :: "nat \<Rightarrow> byte list \<Rightarrow> byte list outcome" where
  "Bytes_without_first n bs =
     (if n \<le> length bs then Bytes_last (length bs - n) bs else Throw UndefinedBehavior)"

definition Bytes_without_last :: "nat \<Rightarrow> byte list \<Rightarrow> byte list outcome" where
  "Bytes_without_last n bs =
     (if n \<le> length bs then Bytes_first (length bs - n) bs else Throw UndefinedBehavior)"

text \<open>The \<^verbatim>\<open>read\<close> methods return the bytes taken and leave the rest.\<close>

definition ConstBytes_read :: "nat \<Rightarrow> byte list \<Rightarrow> byte list \<times> byte list" where
  "ConstBytes_read dstSize bs =
     (let n = min dstSize (length bs) in (take n bs, drop n bs))"

definition ConstBytes_readAll :: "nat \<Rightarrow> byte list \<Rightarrow> nat \<times> byte list \<times> byte list" where
  "ConstBytes_readAll dstSize bs =
     (if dstSize \<le> length bs
      then (let (out, rest) = ConstBytes_read dstSize bs in (length out, out, rest))
      else (0, [], bs))"

lemma Bytes_first_Ok [simp]: "n \<le> length bs \<Longrightarrow> Bytes_first n bs = Ok (take n bs)"
  by (simp add: Bytes_first_def)

lemma Bytes_last_Ok [simp]: "n \<le> length bs \<Longrightarrow> Bytes_last n bs = Ok (drop (length bs - n) bs)"
  by (simp add: Bytes_last_def)

lemma Bytes_without_first_Ok [simp]: "n \<le> length bs \<Longrightarrow> Bytes_without_first n bs = Ok (drop n bs)"
  by (simp add: Bytes_without_first_def)

lemma Bytes_without_last_Ok [simp]:
  "n \<le> length bs \<Longrightarrow> Bytes_without_last n bs = Ok (take (length bs - n) bs)"
  by (simp add: Bytes_without_last_def)

lemma ConstBytes_read_eq [simp]: "ConstBytes_read n bs = (take n bs, drop n bs)"
  by (simp add: ConstBytes_read_def Let_def min_def)

subsection \<open>MutableBytes\<close>

record MutableBytes =
  mb_written :: "byte list"
  mb_room :: nat

definition MutableBytes_write :: "byte list \<Rightarrow> MutableBytes \<Rightarrow> nat \<times> MutableBytes" where
  "MutableBytes_write src out =
     (let n = min (length src) (mb_room out)
      in (n, out\<lparr>mb_written := mb_written out @ take n src, mb_room := mb_room out - n\<rparr>))"

lemma MutableBytes_write_fits:
  "length src \<le> mb_room out \<Longrightarrow>
     MutableBytes_write src out =
       (length src, out\<lparr>mb_written := mb_written out @ src, mb_room := mb_room out - length src\<rparr>)"
  by (simp add: MutableBytes_write_def Let_def)

lemma MutableBytes_write_total:
  "MutableBytes_write src out = (n, out') \<Longrightarrow>
     length (mb_written out') + mb_room out' = length (mb_written out) + mb_room out"
  by (auto simp: MutableBytes_write_def Let_def)

subsection \<open>Buffer\<close>

definition kCapacity :: nat where "kCapacity = 65536 - 2 * 4"

record Buffer =
  b_size :: nat
  b_used :: nat
  b_data :: "byte list"

definition Buffer_available :: "Buffer \<Rightarrow> nat" where
  "Buffer_available b = b_size b - b_used b"

definition Buffer_empty :: "Buffer \<Rightarrow> bool" where
  "Buffer_empty b \<longleftrightarrow> b_size b = b_used b"

definition Buffer_bytes :: "Buffer \<Rightarrow> byte list" where
  "Buffer_bytes b = take (b_size b - b_used b) (drop (b_used b) (b_data b))"

definition Buffer_read :: "nat \<Rightarrow> Buffer \<Rightarrow> byte list \<times> Buffer" where
  "Buffer_read maxLen b =
     (let n = min maxLen (Buffer_available b)
      in (take n (drop (b_used b) (b_data b)), b\<lparr>b_used := b_used b + n\<rparr>))"

definition Buffer_unRead :: "nat \<Rightarrow> Buffer \<Rightarrow> Buffer outcome" where
  "Buffer_unRead len b = assert_that (len \<le> b_used b) (Ok (b\<lparr>b_used := b_used b - len\<rparr>))"

definition Buffer_inv :: "Buffer \<Rightarrow> bool" where
  "Buffer_inv b \<longleftrightarrow> b_used b \<le> b_size b \<and> b_size b \<le> kCapacity \<and> length (b_data b) = kCapacity"

lemma length_Buffer_bytes [simp]: "Buffer_inv b \<Longrightarrow> length (Buffer_bytes b) = Buffer_available b"
  by (auto simp: Buffer_inv_def Buffer_bytes_def Buffer_available_def min_def)

lemma Buffer_empty_iff: "Buffer_inv b \<Longrightarrow> Buffer_empty b \<longleftrightarrow> Buffer_bytes b = []"
  by (auto simp: Buffer_inv_def Buffer_bytes_def Buffer_empty_def)

lemma Buffer_read_spec:
  assumes "Buffer_inv b"
  shows "fst (Buffer_read n b) = take n (Buffer_bytes b)"
    and "Buffer_bytes (snd (Buffer_read n b)) = drop n (Buffer_bytes b)"
    and "Buffer_inv (snd (Buffer_read n b))"
  using assms
  by (auto simp: Buffer_read_def Buffer_inv_def Buffer_bytes_def Buffer_available_def Let_def
      min_def drop_take add.commute)

lemma Buffer_unRead_spec:
  assumes "Buffer_inv b"
  shows "\<exists>b'. Buffer_unRead (length (fst (Buffer_read n b))) (snd (Buffer_read n b)) = Ok b' \<and> b' = b"
  using assms
  by (auto simp: Buffer_unRead_def Buffer_read_def Buffer_inv_def Buffer_available_def Let_def
      min_def)

subsection \<open>Byte order\<close>

definition bswap16 :: "u16 \<Rightarrow> u16" where
  "bswap16 x = (drop_bit 8 x AND 0xff) OR push_bit 8 (x AND 0xff)"

definition bswap32 :: "u32 \<Rightarrow> u32" where
  "bswap32 x =
     drop_bit 24 (x AND 0xff000000) OR drop_bit 8 (x AND 0x00ff0000) OR
     push_bit 8 (x AND 0x0000ff00) OR push_bit 24 (x AND 0x000000ff)"

definition bswap64 :: "u64 \<Rightarrow> u64" where
  "bswap64 x =
     drop_bit 56 (x AND 0xff00000000000000) OR drop_bit 40 (x AND 0x00ff000000000000) OR
     drop_bit 24 (x AND 0x0000ff0000000000) OR drop_bit 8 (x AND 0x000000ff00000000) OR
     push_bit 8 (x AND 0x00000000ff000000) OR push_bit 24 (x AND 0x0000000000ff0000) OR
     push_bit 40 (x AND 0x000000000000ff00) OR push_bit 56 (x AND 0x00000000000000ff)"

text \<open>\<^verbatim>\<open>encodeBig\<close> on a machine whose native order is big-endian (\<open>IsBig\<close>) or little-endian.\<close>

definition encodeBig16 :: "bool \<Rightarrow> u16 \<Rightarrow> u16" where
  "encodeBig16 IsBig i = (if IsBig then i else bswap16 i)"

definition encodeBig32 :: "bool \<Rightarrow> u32 \<Rightarrow> u32" where
  "encodeBig32 IsBig i = (if IsBig then i else bswap32 i)"

definition encodeBig64 :: "bool \<Rightarrow> u64 \<Rightarrow> u64" where
  "encodeBig64 IsBig i = (if IsBig then i else bswap64 i)"

definition decodeBig32 :: "bool \<Rightarrow> u32 \<Rightarrow> u32" where
  "decodeBig32 IsBig i = encodeBig32 IsBig i"

text \<open>The bytes of an integer in memory, lowest address first.\<close>

definition le_bytes :: "nat \<Rightarrow> 'a::len word \<Rightarrow> byte list" where
  "le_bytes n x = map (\<lambda>i. ucast (drop_bit (8 * i) x)) [0..<n]"

definition be_bytes :: "nat \<Rightarrow> 'a::len word \<Rightarrow> byte list" where
  "be_bytes n x = rev (le_bytes n x)"

definition store_native :: "bool \<Rightarrow> nat \<Rightarrow> 'a::len word \<Rightarrow> byte list" where
  "store_native IsBig n x = (if IsBig then be_bytes n x else le_bytes n x)"

fun of_le_bytes :: "byte list \<Rightarrow> 'a::len word" where
  "of_le_bytes [] = 0"
| "of_le_bytes (b # bs) = ucast b OR push_bit 8 (of_le_bytes bs)"

definition of_be_bytes :: "byte list \<Rightarrow> 'a::len word" where
  "of_be_bytes bs = of_le_bytes (rev bs)"

definition load_native :: "bool \<Rightarrow> byte list \<Rightarrow> 'a::len word" where
  "load_native IsBig bs = (if IsBig then of_be_bytes bs else of_le_bytes bs)"

lemma length_le_bytes [simp]: "length (le_bytes n x) = n"
  by (simp add: le_bytes_def)

lemma length_be_bytes [simp]: "length (be_bytes n x) = n"
  by (simp add: be_bytes_def)

lemma bit_of_le_bytes:
  "bit (of_le_bytes bs :: 'a::len word) i
     \<longleftrightarrow> i < LENGTH('a) \<and> i div 8 < length bs \<and> bit (bs ! (i div 8)) (i mod 8)"
proof (induction bs arbitrary: i)
  case Nil
  then show ?case by simp
next
  case (Cons b bs)
  show ?case
  proof (cases "i < 8")
    case True
    then show ?thesis by (auto simp: bit_simps dest: bit_imp_le_length)
  next
    case False
    then have "i div 8 = Suc ((i - 8) div 8)" "(i - 8) mod 8 = i mod 8"
      by (simp_all add: div_if mod_if)
    with False show ?thesis
      by (auto simp: bit_simps Cons.IH dest: bit_imp_le_length)
  qed
qed

lemma of_le_bytes_le_bytes:
  assumes "LENGTH('a) \<le> 8 * n"
  shows "of_le_bytes (le_bytes n (x :: 'a::len word)) = x"
proof (rule bit_word_eqI)
  fix i assume "i < LENGTH('a)"
  then show "bit (of_le_bytes (le_bytes n x) :: 'a word) i = bit x i"
    using assms by (simp add: bit_of_le_bytes le_bytes_def bit_simps less_mult_imp_div_less
        mult.commute)
qed

lemma of_be_bytes_be_bytes:
  "LENGTH('a) \<le> 8 * n \<Longrightarrow> of_be_bytes (be_bytes n (x :: 'a::len word)) = x"
  by (simp add: of_be_bytes_def be_bytes_def of_le_bytes_le_bytes)

lemma le_bytes_of_le_bytes:
  assumes "8 * length bs \<le> LENGTH('a)"
  shows "le_bytes (length bs) (of_le_bytes bs :: 'a::len word) = bs"
proof (rule nth_equalityI)
  fix i assume "i < length (le_bytes (length bs) (of_le_bytes bs :: 'a word))"
  then have i: "i < length bs" by simp
  show "le_bytes (length bs) (of_le_bytes bs :: 'a word) ! i = bs ! i"
  proof (rule bit_word_eqI)
    fix j assume "j < LENGTH(8)"
    then have "8 * i + j < 8 * length bs" "(8 * i + j) div 8 = i" "(8 * i + j) mod 8 = j" using i by auto
    then show "bit (le_bytes (length bs) (of_le_bytes bs :: 'a word) ! i) j = bit (bs ! i) j"
      using i assms by (auto simp: le_bytes_def bit_simps bit_of_le_bytes)
  qed
qed simp

lemma less_8_cases: "(n::nat) < 8 \<Longrightarrow> n = 0 \<or> n = 1 \<or> n = 2 \<or> n = 3 \<or> n = 4 \<or> n = 5 \<or> n = 6 \<or> n = 7"
  by arith

lemma le_bytes_nth: "i < n \<Longrightarrow> le_bytes n x ! i = ucast (drop_bit (8 * i) x)"
  by (simp add: le_bytes_def)

lemma be_bytes_nth: "i < n \<Longrightarrow> be_bytes n x ! i = ucast (drop_bit (8 * (n - 1 - i)) x)"
  by (simp add: be_bytes_def rev_nth le_bytes_nth)

lemma le_bytes_bswap16: "le_bytes 2 (bswap16 x) = be_bytes 2 x"
proof (rule nth_equalityI)
  fix i assume "i < length (le_bytes 2 (bswap16 x))"
  then have i: "i = 0 \<or> i = 1" by auto
  show "le_bytes 2 (bswap16 x) ! i = be_bytes 2 x ! i"
  proof (rule bit_word_eqI)
    fix n assume "n < LENGTH(8)"
    then have "n < 8" by simp
    from less_8_cases [OF this] i
    show "bit (le_bytes 2 (bswap16 x) ! i) n = bit (be_bytes 2 x ! i) n"
      by (elim disjE) (simp_all add: bswap16_def be_bytes_nth le_bytes_nth bit_simps)
  qed
qed simp

lemma le_bytes_bswap32: "le_bytes 4 (bswap32 x) = be_bytes 4 x"
proof (rule nth_equalityI)
  fix i assume "i < length (le_bytes 4 (bswap32 x))"
  then have i: "i = 0 \<or> i = 1 \<or> i = 2 \<or> i = 3" by auto
  show "le_bytes 4 (bswap32 x) ! i = be_bytes 4 x ! i"
  proof (rule bit_word_eqI)
    fix n assume "n < LENGTH(8)"
    then have "n < 8" by simp
    from less_8_cases [OF this] i
    show "bit (le_bytes 4 (bswap32 x) ! i) n = bit (be_bytes 4 x ! i) n"
      by (elim disjE) (simp_all add: bswap32_def be_bytes_nth le_bytes_nth bit_simps)
  qed
qed simp

lemma le_bytes_bswap64: "le_bytes 8 (bswap64 x) = be_bytes 8 x"
proof (rule nth_equalityI)
  fix i assume "i < length (le_bytes 8 (bswap64 x))"
  then have i: "i = 0 \<or> i = 1 \<or> i = 2 \<or> i = 3 \<or> i = 4 \<or> i = 5 \<or> i = 6 \<or> i = 7" by auto
  show "le_bytes 8 (bswap64 x) ! i = be_bytes 8 x ! i"
  proof (rule bit_word_eqI)
    fix n assume "n < LENGTH(8)"
    then have "n < 8" by simp
    from less_8_cases [OF this] i
    show "bit (le_bytes 8 (bswap64 x) ! i) n = bit (be_bytes 8 x ! i) n"
      by (elim disjE) (simp_all add: bswap64_def be_bytes_nth le_bytes_nth bit_simps)
  qed
qed simp

lemma store_encodeBig:
  "store_native IsBig 2 (encodeBig16 IsBig y) = be_bytes 2 y"
  "store_native IsBig 4 (encodeBig32 IsBig x) = be_bytes 4 x"
  "store_native IsBig 8 (encodeBig64 IsBig z) = be_bytes 8 z"
  by (simp_all add: store_native_def encodeBig16_def encodeBig32_def encodeBig64_def
      le_bytes_bswap16 le_bytes_bswap32 le_bytes_bswap64)

lemma bswap32_involution: "bswap32 (bswap32 x) = x"
proof -
  have "be_bytes 4 (bswap32 x) = le_bytes 4 x"
    by (simp add: be_bytes_def le_bytes_bswap32)
  then have "of_le_bytes (le_bytes 4 (bswap32 (bswap32 x))) = (of_le_bytes (le_bytes 4 x) :: u32)"
    by (simp add: le_bytes_bswap32)
  then show ?thesis by (simp add: of_le_bytes_le_bytes)
qed

lemma load_store_native: "LENGTH('a) \<le> 8 * n \<Longrightarrow> load_native B (store_native B n (x::'a::len word)) = x"
  by (simp add: load_native_def store_native_def of_le_bytes_le_bytes of_be_bytes_be_bytes)

subsection \<open>Properties\<close>

text \<open>
  Byte order does not depend on the machine: storing \<^verbatim>\<open>encodeBig(x)\<close> natively puts the big-endian
  bytes of \<open>x\<close> in memory on both kinds of machine, and \<^verbatim>\<open>decodeBig\<close> of what is loaded back is \<open>x\<close>.
\<close>

theorem encodeBig_portable:
  "store_native IsBig 4 (encodeBig32 IsBig x) = be_bytes 4 x
   \<and> decodeBig32 IsBig (load_native IsBig (store_native IsBig 4 (encodeBig32 IsBig x))) = x
   \<and> store_native IsBig 2 (encodeBig16 IsBig y) = be_bytes 2 y
   \<and> store_native IsBig 8 (encodeBig64 IsBig z) = be_bytes 8 z"
  by (simp only: load_store_native store_encodeBig)
     (simp add: load_store_native decodeBig32_def encodeBig32_def bswap32_involution
       flip: store_encodeBig(2) [of IsBig x])

text \<open>
  Reading from a stream buffer returns a prefix of the unread bytes and leaves the rest, keeps
  the buffer's bounds, and \<^verbatim>\<open>unRead\<close> of what was read restores the buffer exactly.
\<close>

theorem Buffer_read_unRead:
  assumes "Buffer_inv b" and "Buffer_read n b = (bs, b')"
  shows "bs = take n (Buffer_bytes b) \<and> Buffer_bytes b' = drop n (Buffer_bytes b) \<and> Buffer_inv b'
         \<and> Buffer_unRead (length bs) b' = Ok b"
  using Buffer_read_spec [OF assms(1), of n] Buffer_unRead_spec [OF assms(1), of n] assms(2) by simp

theorem Buffer_read_unRead_witness:
  "Buffer_inv \<lparr>b_size = 3, b_used = 1, b_data = replicate kCapacity 5\<rparr>
   \<and> Buffer_unRead 1 \<lparr>b_size = 3, b_used = 2, b_data = replicate kCapacity 5\<rparr>
       = Ok \<lparr>b_size = 3, b_used = 1, b_data = replicate kCapacity 5\<rparr>"
proof -
  let ?b = "\<lparr>b_size = 3, b_used = 1, b_data = replicate kCapacity 5\<rparr>"
  have i: "Buffer_inv ?b" by (simp add: Buffer_inv_def kCapacity_def)
  have r: "Buffer_read 1 ?b = ([5], \<lparr>b_size = 3, b_used = 2, b_data = replicate kCapacity 5\<rparr>)"
    by (simp add: Buffer_read_def Buffer_available_def kCapacity_def)
  show ?thesis using i Buffer_read_unRead [OF i r] by simp
qed

end
