(* ===== verification/Varint.thy ===== *)
theory Varint
  imports Bytes
begin

text \<open>
  Variable-length integers: \<^verbatim>\<open>src/support/Varint.cc\<close>, \<^verbatim>\<open>include/crouton/util/Varint.hh\<close>. The lemmas relate
  the shifting decoder to the arithmetic value of the digits and show that the encoder and the
  decoder are inverse, that encodings are prefix-free, and how many bytes they take.
\<close>

definition kMaxSize :: nat where "kMaxSize = 10"

text \<open>
  The loop of \<^verbatim>\<open>readPartial\<close>: \<open>k\<close> bytes may still be examined, \<open>n\<close> and \<open>shift\<close> are the locals. \<open>None\<close>
  means the loop ran into \<^verbatim>\<open>end\<close>.
\<close>

fun readPartial_loop :: "nat \<Rightarrow> u64 \<Rightarrow> nat \<Rightarrow> byte list \<Rightarrow> (u64 \<times> byte list) option" where
  "readPartial_loop 0 n shift bs = None"
| "readPartial_loop (Suc k) n shift [] = None"
| "readPartial_loop (Suc k) n shift (b # bs) =
     (if b AND 0x80 \<noteq> 0
      then readPartial_loop k (n OR push_bit shift (ucast (b AND 0x7F))) (shift + 7) bs
      else Some (n OR push_bit shift (ucast b), bs))"

text \<open>\<open>Ok None\<close> is the return value \<^verbatim>\<open>false\<close>; \<open>Ok (Some (n, rest))\<close> sets \<^verbatim>\<open>*outN\<close> and moves \<^verbatim>\<open>bytes\<close>.\<close>

definition readPartial :: "byte list \<Rightarrow> (u64 \<times> byte list) option outcome" where
  "readPartial bytes =
     (if bytes = [] then Ok None
      else case readPartial_loop kMaxSize 0 0 bytes of
             Some r \<Rightarrow> Ok (Some r)
           | None \<Rightarrow> if min kMaxSize (length bytes) \<ge> kMaxSize then raise_crouton ParseError
                     else Ok None)"

definition varint_read :: "byte list \<Rightarrow> (u64 \<times> byte list) outcome" where
  "varint_read bytes = obind (readPartial bytes)
     (\<lambda>r. case r of Some nr \<Rightarrow> Ok nr | None \<Rightarrow> raise_crouton ParseError)"

function (sequential) varint_put :: "u64 \<Rightarrow> byte list" where
  "varint_put n =
     (if n \<ge> 0x80 then ucast ((n AND 0xFF) OR 0x80) # varint_put (drop_bit 7 n) else [ucast n])"
  by pat_completeness auto
termination
  by (relation "measure unat") (auto simp: drop_bit_7_less)

declare varint_put.simps [simp del]

text \<open>\<^verbatim>\<open>write\<close> puts the varint at the start of \<^verbatim>\<open>out\<close>; running past the buffer is undefined.\<close>

definition varint_write :: "u64 \<Rightarrow> MutableBytes \<Rightarrow> MutableBytes outcome" where
  "varint_write n out =
     (if length (varint_put n) \<le> mb_room out
      then Ok (snd (MutableBytes_write (varint_put n) out))
      else Throw UndefinedBehavior)"

subsection \<open>Encoding\<close>

lemma small_bits: "(n::u64) < 0x80 \<Longrightarrow> bit n i \<Longrightarrow> i < 7"
proof (rule ccontr)
  assume n: "n < 0x80" and b: "bit n i" and "\<not> i < 7"
  from n have "drop_bit 7 n = 0"
    by (simp add: drop_bit_eq_div word_less_nat_alt word_arith_nat_div unat_div)
  moreover have "bit (drop_bit 7 n) (i - 7)" using b \<open>\<not> i < 7\<close> by (simp add: bit_simps)
  ultimately show False by simp
qed

lemma bit7_of_small: "(n::u64) < 0x80 \<Longrightarrow> \<not> bit (ucast n :: byte) 7"
  using small_bits [of n 7] by (auto simp: bit_simps)

lemma ucast_small: "(n::u64) < 0x80 \<Longrightarrow> ucast (ucast n :: byte) = n"
  by (rule bit_word_eqI) (use small_bits [of n] in \<open>force simp: bit_simps\<close>)

lemma digit_join:
  "(acc OR push_bit s (ucast (ucast ((n AND 0xFF) OR 0x80) AND 0x7F :: byte)))
     OR push_bit (s + 7) (drop_bit 7 n) = (acc OR push_bit s n :: u64)"
proof (rule bit_word_eqI)
  fix i assume "i < LENGTH(64)"
  have *: "7 + (i - (s + 7)) = i - s" if "s + 7 \<le> i" using that by simp
  show "bit ((acc OR push_bit s (ucast (ucast ((n AND 0xFF) OR 0x80) AND 0x7F :: byte)))
      OR push_bit (s + 7) (drop_bit 7 n)) i = bit (acc OR push_bit s n) i"
    by (cases "s + 7 \<le> i")
       (auto simp: * bit_or_iff bit_push_bit_iff bit_drop_bit_eq bit_unsigned_iff and_mask7_bit
        and_0xFF_bit bit_0x80 not_less le_diff_conv2 less_diff_conv2 simp del: bit_numeral_word_iff
        dest: bit_imp_le_length)
qed

lemma continuation_bit: "(ucast ((n AND 0xFF) OR 0x80 :: u64) :: byte) AND 0x80 \<noteq> 0"
  by (simp only: and_0x80_iff) (auto simp: bit_simps bit_0x80 simp del: bit_numeral_word_iff)

lemma unat_drop7: "unat (drop_bit 7 (n::u64)) < 128 ^ k \<longleftrightarrow> unat n < 128 ^ Suc k"
  by (simp add: drop_bit_eq_div unat_div less_mult_imp_div_less div_less_iff_less_mult mult.commute)

lemma readPartial_loop_put:
  assumes "0 < k" and "unat n < 128 ^ k"
  shows "readPartial_loop k acc s (varint_put n @ rest) = Some (acc OR push_bit s n, rest)"
  using assms
proof (induction n arbitrary: k acc s rule: varint_put.induct)
  case (1 n)
  from \<open>0 < k\<close> obtain j where k: "k = Suc j" by (cases k) auto
  show ?case
  proof (cases "n \<ge> 0x80")
    case True
    then have "j \<noteq> 0" using "1.prems" k by (cases j) (auto simp: word_le_nat_alt)
    moreover have "unat (drop_bit 7 n) < 128 ^ j" using "1.prems"(2) k unat_drop7 by blast
    ultimately show ?thesis
      using True continuation_bit [of n] "1.IH" [OF True, of j] digit_join [of acc s n] k
      by (subst varint_put.simps) (simp del: varint_put.simps)
  next
    case False
    then have "ucast (ucast n :: byte) = n" by (simp add: ucast_small)
    with False show ?thesis
      using bit7_of_small [of n] and_0x80_iff [of "ucast n :: byte"] k
      by (subst varint_put.simps) simp
  qed
qed

lemma length_varint_put_le:
  "0 < k \<Longrightarrow> unat n < 128 ^ k \<Longrightarrow> length (varint_put n) \<le> k"
proof (induction n arbitrary: k rule: varint_put.induct)
  case (1 n)
  then obtain j where k: "k = Suc j" by (cases k) auto
  show ?case
  proof (cases "n \<ge> 0x80")
    case True
    then have "0 < j" using "1.prems" k by (cases j) (auto simp: word_le_nat_alt)
    moreover have "unat (drop_bit 7 n) < 128 ^ j" using "1.prems"(2) k unat_drop7 by blast
    ultimately show ?thesis using "1.IH" [OF True, of j] k True by (subst varint_put.simps) simp
  next
    case False
    then show ?thesis using k by (subst varint_put.simps) simp
  qed
qed

lemma unat_u64_less: "unat (n::u64) < 128 ^ kMaxSize"
proof -
  have "unat n < 2 ^ LENGTH(64)" by (rule unsigned_less)
  then show ?thesis by (simp add: kMaxSize_def)
qed

lemma length_varint_put: "length (varint_put n) \<le> kMaxSize"
  by (rule length_varint_put_le) (simp_all add: unat_u64_less, simp add: kMaxSize_def)

lemma varint_put_nonempty [simp]: "varint_put n \<noteq> []"
  by (subst varint_put.simps) simp

lemma readPartial_loop_prefix:
  "m < length (varint_put n) \<Longrightarrow> readPartial_loop k acc s (take m (varint_put n)) = None"
proof (induction n arbitrary: k acc s m rule: varint_put.induct)
  case (1 n)
  show ?case
  proof (cases "n \<ge> 0x80 \<and> k \<noteq> 0 \<and> m \<noteq> 0")
    case True
    then obtain j l where "k = Suc j" "m = Suc l" by (metis not0_implies_Suc)
    moreover have "l < length (varint_put (drop_bit 7 n))"
      using "1.prems" True \<open>m = Suc l\<close> by (subst (asm) varint_put.simps) simp
    ultimately show ?thesis
      using True continuation_bit [of n] "1.IH" by (subst varint_put.simps) simp
  next
    case False
    then show ?thesis using "1.prems" by (cases k; cases m) (auto simp: varint_put.simps [of n])
  qed
qed

lemma readPartial_put [simp]: "readPartial (varint_put n @ rest) = Ok (Some (n, rest))"
  using readPartial_loop_put [of kMaxSize n 0 0 rest] unat_u64_less [of n]
  by (simp add: readPartial_def kMaxSize_def)

lemma readPartial_prefix: "m < length (varint_put n) \<Longrightarrow> readPartial (take m (varint_put n)) = Ok None"
  using length_varint_put [of n] by (simp add: readPartial_def readPartial_loop_prefix)

lemma varint_read_put [simp]: "varint_read (varint_put n @ rest) = Ok (n, rest)"
  by (simp add: varint_read_def)

subsection \<open>Decoding\<close>

text \<open>The arithmetic value of a sequence of base-128 digits, least significant first.\<close>

fun varint_value :: "byte list \<Rightarrow> nat" where
  "varint_value [] = 0"
| "varint_value (b # bs) = unat (b AND 0x7F) + 128 * varint_value bs"

text \<open>A complete varint: every byte but the last has its high bit set.\<close>

fun varint_digits :: "byte list \<Rightarrow> bool" where
  "varint_digits [] = False"
| "varint_digits [b] = (b AND 0x80 = 0)"
| "varint_digits (b # bs) = (b AND 0x80 \<noteq> 0 \<and> varint_digits bs)"

lemma value_step:
  "(of_nat (unat (b AND 0x7F :: byte) + 128 * v) :: u64) = ucast (b AND 0x7F) OR push_bit 7 (of_nat v)"
proof -
  have "(of_nat (unat (b AND 0x7F :: byte) + 128 * v) :: u64) = ucast (b AND 0x7F) + push_bit 7 (of_nat v)"
    by (simp add: push_bit_eq_mult mult.commute)
  also have "\<dots> = ucast (b AND 0x7F) OR push_bit 7 (of_nat v)"
    by (rule disjunctive_add) (auto simp: bit_unsigned_iff bit_push_bit_iff and_mask7_bit)
  finally show ?thesis .
qed

lemma readPartial_loop_value:
  assumes "varint_digits ds" and "length ds \<le> k"
  shows "readPartial_loop k acc s (ds @ rest) = Some (acc OR push_bit s (of_nat (varint_value ds)), rest)"
  using assms
proof (induction ds arbitrary: k acc s rule: varint_digits.induct)
  case 1
  then show ?case by simp
next
  case (2 b)
  then have "b AND 0x7F = b"
    by (intro bit_word_eqI) (use and_0x80_iff [of b] in \<open>auto simp: and_mask7_bit less_Suc_eq numeral_eq_Suc
        simp del: bit_numeral_word_iff dest: bit_imp_le_length\<close>)
  with 2 show ?case by (cases k) auto
next
  case (3 b c ds)
  then obtain j where k: "k = Suc j" by (cases k) auto
  let ?w = "of_nat (varint_value (c # ds)) :: u64"
  have IH: "readPartial_loop j (acc OR push_bit s (ucast (b AND 0x7F))) (s + 7) (c # ds @ rest)
      = Some ((acc OR push_bit s (ucast (b AND 0x7F))) OR push_bit (s + 7) ?w, rest)"
    using 3 k by (simp del: varint_value.simps)
  have v: "of_nat (varint_value (b # c # ds)) = ucast (b AND 0x7F) OR push_bit 7 ?w"
    using value_step [of b "varint_value (c # ds)"] by (simp only: varint_value.simps)
  show ?case using "3.prems" IH k
    by (simp add: v or.assoc del: varint_value.simps)
qed

lemma readPartial_loop_SomeD:
  "readPartial_loop k acc s bs = Some (n, rest) \<Longrightarrow>
     \<exists>ds. bs = ds @ rest \<and> varint_digits ds \<and> length ds \<le> k"
proof (induction k acc s bs rule: readPartial_loop.induct)
  case (3 k acc s b bs)
  show ?case
  proof (cases "b AND 0x80 = 0")
    case True
    then show ?thesis using 3 by (intro exI [of _ "[b]"]) auto
  next
    case False
    with 3 obtain ds where "bs = ds @ rest" "varint_digits ds" "length ds \<le> k" by auto
    with False show ?thesis by (intro exI [of _ "b # ds"]) (cases ds, auto)
  qed
qed auto

lemma readPartial_loop_None:
  "readPartial_loop k acc s bs = None \<longleftrightarrow> (\<forall>b \<in> set (take k bs). b AND 0x80 \<noteq> 0)"
  by (induction k acc s bs rule: readPartial_loop.induct) auto

lemma readPartial_Some_iff: "readPartial bs = Ok (Some r) \<longleftrightarrow> readPartial_loop kMaxSize 0 0 bs = Some r"
  by (cases r) (auto simp: readPartial_def dest: readPartial_loop_SomeD split: option.splits)

lemma readPartial_error_iff:
  "readPartial bs = raise_crouton ParseError
     \<longleftrightarrow> kMaxSize \<le> length bs \<and> readPartial_loop kMaxSize 0 0 bs = None"
  by (auto simp: readPartial_def kMaxSize_def split: option.splits)

lemma varint_digits_put: "varint_digits (varint_put n)"
  using readPartial_loop_SomeD [of kMaxSize 0 0 "varint_put n" n "[]"]
    readPartial_loop_put [of kMaxSize n 0 0 "[]"] unat_u64_less [of n]
  by (simp add: kMaxSize_def)

subsection \<open>Properties\<close>

text \<open>
  C37. Encoding a 64-bit integer as a varint and decoding it gives the integer back and leaves exactly
  the bytes that followed; a varint takes from 1 to \<^verbatim>\<open>kMaxSize\<close> bytes; and any proper prefix of it is
  reported as incomplete, never as an error or as another number.
\<close>

theorem varint_roundtrip:
  "varint_read (varint_put n @ rest) = Ok (n, rest)
   \<and> readPartial (varint_put n @ rest) = Ok (Some (n, rest))
   \<and> 1 \<le> length (varint_put n) \<and> length (varint_put n) \<le> kMaxSize
   \<and> (\<forall>m. m < length (varint_put n) \<longrightarrow> readPartial (take m (varint_put n)) = Ok None)"
  using length_varint_put [of n] by (simp add: readPartial_prefix Suc_le_eq)

theorem varint_roundtrip_witness:
  "varint_put 300 = [0xAC, 0x02] \<and> varint_read [0xAC, 0x02, 0x55] = Ok (300, [0x55])
   \<and> readPartial [0xAC] = Ok None"
proof -
  have p: "varint_put 300 = [0xAC, 0x02]" by (simp add: varint_put.simps)
  show ?thesis using varint_roundtrip [of 300 "[0x55]"] p by force
qed

text \<open>
  The decoder computes the base-128 value: it succeeds exactly on byte sequences that start with
  at most ten digits of which only the last has its high bit clear, returns their value modulo
  \<open>2 ^ 64\<close> and the bytes after them; it throws \<^verbatim>\<open>ParseError\<close> exactly when the first ten bytes all have
  their high bit set.
\<close>

theorem readPartial_decodes:
  "(readPartial bs = Ok (Some (n, rest)) \<longleftrightarrow>
      (\<exists>ds. bs = ds @ rest \<and> varint_digits ds \<and> length ds \<le> kMaxSize
            \<and> n = of_nat (varint_value ds)))
   \<and> (readPartial bs = raise_crouton ParseError \<longleftrightarrow>
       kMaxSize \<le> length bs \<and> (\<forall>b \<in> set (take kMaxSize bs). b AND 0x80 \<noteq> 0))"
  using readPartial_loop_SomeD [of kMaxSize 0 0 bs n rest] readPartial_loop_value [of _ kMaxSize 0 0 rest]
  by (intro conjI, unfold readPartial_Some_iff readPartial_error_iff readPartial_loop_None) auto

theorem readPartial_decodes_witness:
  "readPartial [0xAC, 0x02, 0x07] = Ok (Some (300, [0x07]))
   \<and> readPartial (replicate 10 0x80) = raise_crouton ParseError"
proof
  have "varint_digits [0xAC, 0x02] \<and> length [0xAC, 0x02 :: byte] \<le> kMaxSize
        \<and> (300 :: u64) = of_nat (varint_value [0xAC, 0x02])"
    by (simp add: kMaxSize_def)
  then show "readPartial [0xAC, 0x02, 0x07] = Ok (Some (300, [0x07]))"
    using readPartial_decodes [of "[0xAC, 0x02, 0x07]" 300 "[0x07]"]
    by (metis append_Cons append_Nil)
  have "kMaxSize \<le> length (replicate 10 (0x80 :: byte))
        \<and> (\<forall>b \<in> set (take kMaxSize (replicate 10 (0x80 :: byte))). b AND 0x80 \<noteq> 0)"
    by (simp add: kMaxSize_def)
  then show "readPartial (replicate 10 0x80) = raise_crouton ParseError"
    using readPartial_decodes [of "replicate 10 0x80" 0 "[]"] by blast
qed

end
