(* ===== verification/Lifecycle.thy ===== *)
theory Lifecycle
  imports Crouton_Prelude
begin

text \<open>
  Coroutine lifecycles, \<^verbatim>\<open>src/CoroLifecycle.cc\<close> with \<^verbatim>\<open>CROUTON_LIFECYCLES\<close> on: the table \<^verbatim>\<open>sCoros\<close> of
  coroutine records, the per-thread stack of running coroutines linked by their \<^verbatim>\<open>caller\<close> fields, and
  the hooks that are called when a coroutine is created, suspends, yields, resumes, finishes and is
  destroyed. The table is a map with the list of its keys in iteration order. A pointer to a \<^verbatim>\<open>coroInfo\<close> is the address it is stored under. The names kept for log
  messages are left out.
\<close>

subsection \<open>State\<close>

type_synonym thread = nat

datatype coro_handle = NullH | NoopH | H (address: nat)

text \<open>\<^verbatim>\<open>isNoop\<close> of \<^verbatim>\<open>src/Coroutine.cc\<close>.\<close>

definition isNoop :: "coro_handle \<Rightarrow> bool" where
  "isNoop h \<longleftrightarrow> h = NullH \<or> h = NoopH"

datatype coroState = Born | Active | Awaiting | Yielding | Ending

record coroInfo =
  handle :: coro_handle
  state :: coroState
  caller :: "nat option"
  awaitingCoro :: coro_handle
  awaiting :: "nat option"
  awaitingType :: "string option"
  sequence :: u32
  ignored :: bool

record lifecycle =
  sLastSequence :: u32
  sCoros :: "nat \<rightharpoonup> coroInfo"
  sKeys :: "nat list"
  tCurrent :: "thread \<Rightarrow> nat option"

definition setState :: "coroState \<Rightarrow> coroInfo \<Rightarrow> coroInfo" where
  "setState st i =
     (let i' = (if state i = Awaiting \<or> state i = Yielding
                then i\<lparr>awaitingCoro := NullH, awaiting := None, awaitingType := None\<rparr> else i)
      in i'\<lparr>state := st\<rparr>)"

text \<open>The record at an address, and its update in place.\<close>

definition info :: "lifecycle \<Rightarrow> nat \<Rightarrow> coroInfo" where
  "info s a = the (sCoros s a)"

definition upd :: "nat \<Rightarrow> (coroInfo \<Rightarrow> coroInfo) \<Rightarrow> lifecycle \<Rightarrow> lifecycle" where
  "upd a f s = s\<lparr>sCoros := (sCoros s)(a := map_option f (sCoros s a))\<rparr>"

definition set_current :: "thread \<Rightarrow> nat option \<Rightarrow> lifecycle \<Rightarrow> lifecycle" where
  "set_current t c s = s\<lparr>tCurrent := (tCurrent s)(t := c)\<rparr>"

text \<open>An unknown or destroyed handle aborts the program.\<close>

definition getInfoIter :: "coro_handle \<Rightarrow> lifecycle \<Rightarrow> nat outcome" where
  "getInfoIter h s =
     (case h of H a \<Rightarrow> if sCoros s a = None then Throw Terminated else Ok a | _ \<Rightarrow> Throw Terminated)"

definition getInfo :: "coro_handle \<Rightarrow> lifecycle \<Rightarrow> nat outcome" where
  "getInfo h s = obind (getInfoIter h s)
     (\<lambda>a. if handle (info s a) = NullH then Throw Terminated else Ok a)"

definition getSequence :: "coro_handle \<Rightarrow> lifecycle \<Rightarrow> u32 outcome" where
  "getSequence h s = (if isNoop h then Ok 0 else obind (getInfo h s) (\<lambda>a. Ok (sequence (info s a))))"

definition ignoreInCount :: "coro_handle \<Rightarrow> lifecycle \<Rightarrow> lifecycle outcome" where
  "ignoreInCount h s = obind (getInfo h s) (\<lambda>a. Ok (upd a (\<lambda>i. i\<lparr>ignored := True\<rparr>) s))"

definition coro_count :: "lifecycle \<Rightarrow> nat" where
  "coro_count s = length (filter (\<lambda>a. handle (info s a) \<noteq> NullH \<and> \<not> ignored (info s a)) (sKeys s))"

subsection \<open>The stack of running coroutines\<close>

definition assertCurrent :: "thread \<Rightarrow> nat \<Rightarrow> lifecycle \<Rightarrow> unit outcome" where
  "assertCurrent t a s =
     (case tCurrent s t of
        None \<Rightarrow> Throw UndefinedBehavior
      | Some c \<Rightarrow> if c = a then Ok () else Throw Terminated)"

definition pushCurrent :: "thread \<Rightarrow> nat \<Rightarrow> lifecycle \<Rightarrow> lifecycle outcome" where
  "pushCurrent t a s = assert_that (caller (info s a) = None)
     (Ok (set_current t (Some a) (upd a (\<lambda>i. i\<lparr>caller := tCurrent s t\<rparr>) s)))"

definition popCurrent :: "thread \<Rightarrow> nat \<Rightarrow> lifecycle \<Rightarrow> lifecycle outcome" where
  "popCurrent t a s = obind (assertCurrent t a s)
     (\<lambda>_. Ok (upd a (\<lambda>i. i\<lparr>caller := None\<rparr>) (set_current t (caller (info s a)) s)))"

definition switchCurrent :: "thread \<Rightarrow> nat \<Rightarrow> coro_handle \<Rightarrow> lifecycle \<Rightarrow> lifecycle outcome" where
  "switchCurrent t a next s =
     assert_that (handle (info s a) \<noteq> next) (obind (assertCurrent t a s) (\<lambda>_.
       let s1 = upd a (\<lambda>i. i\<lparr>caller := None\<rparr>) (set_current t (caller (info s a)) s) in
       if isNoop next then Ok s1
       else obind (getInfo next s1) (\<lambda>n.
         assert_that (caller (info s1 n) = None)
           (Ok (set_current t (Some n) (upd n (\<lambda>i. i\<lparr>caller := tCurrent s1 t\<rparr>) s1))))))"

text \<open>The walk along the callers; not returning is \<open>None\<close>.\<close>

partial_function (option) stack_walk :: "lifecycle \<Rightarrow> nat option \<Rightarrow> nat \<Rightarrow> nat option" where
  "stack_walk s c depth =
     (case c of None \<Rightarrow> Some depth | Some a \<Rightarrow> stack_walk s (caller (info s a)) (depth + 1))"

definition stackDepth :: "thread \<Rightarrow> lifecycle \<Rightarrow> nat option" where
  "stackDepth t s = stack_walk s (tCurrent s t) 0"

subsection \<open>Lifecycle hooks\<close>

definition new_coroInfo :: "coro_handle \<Rightarrow> u32 \<Rightarrow> coroInfo" where
  "new_coroInfo h n = \<lparr>handle = h, state = Born, caller = None, awaitingCoro = NullH, awaiting = None,
     awaitingType = None, sequence = n, ignored = False\<rparr>"

text \<open>A record is made for a new handle, or a tombstone at its address is reused.\<close>

definition lc_created :: "thread \<Rightarrow> coro_handle \<Rightarrow> bool \<Rightarrow> lifecycle \<Rightarrow> lifecycle outcome" where
  "lc_created t h ready s =
     (case h of
        H a \<Rightarrow>
          assert_that (case sCoros s a of None \<Rightarrow> True | Some i \<Rightarrow> handle i = NullH)
            (let n = sLastSequence s + 1;
                 s1 = s\<lparr>sLastSequence := n, sCoros := (sCoros s)(a \<mapsto> new_coroInfo h n),
                        sKeys := (if sCoros s a = None then sKeys s @ [a] else sKeys s)\<rparr>
             in if ready then pushCurrent t a (upd a (setState Active) s1) else Ok s1)
      | _ \<Rightarrow> Throw Terminated)"

definition lc_suspendInitial :: "thread \<Rightarrow> coro_handle \<Rightarrow> lifecycle \<Rightarrow> lifecycle outcome" where
  "lc_suspendInitial t cur s = obind (getInfo cur s) (\<lambda>a.
     if state (info s a) = Active
     then obind (popCurrent t a s) (\<lambda>s1. Ok (upd a (setState Born) s1))
     else Ok s)"

definition lc_switching :: "thread \<Rightarrow> nat \<Rightarrow> coro_handle \<Rightarrow> lifecycle \<Rightarrow> (coro_handle \<times> lifecycle) outcome" where
  "lc_switching t a next s =
     obind (if next \<noteq> NullH \<and> \<not> isNoop next
            then obind (getInfo next s) (\<lambda>n.
                   assert_that (state (info s n) \<noteq> Active)
                     (Ok (upd n (\<lambda>i. (setState Active i)\<lparr>awaiting := None\<rparr>) s)))
            else Ok s)
       (\<lambda>s1. obind (switchCurrent t a next s1) (\<lambda>s2. Ok (if next \<noteq> NullH then next else NoopH, s2)))"

definition lc_suspendingTo ::
  "thread \<Rightarrow> coro_handle \<Rightarrow> string \<Rightarrow> nat option \<Rightarrow> coro_handle \<Rightarrow> lifecycle \<Rightarrow> (coro_handle \<times> lifecycle) outcome"
where
  "lc_suspendingTo t cur toType to next s = obind (getInfo cur s) (\<lambda>a. obind (assertCurrent t a s) (\<lambda>_.
     if cur = next then Ok (next, s)
     else assert_that (state (info s a) = Active)
       (lc_switching t a next
         (upd a (\<lambda>i. (setState Awaiting i)\<lparr>awaiting := to, awaitingType := Some toType\<rparr>) s))))"

definition lc_suspendingToCoro ::
  "thread \<Rightarrow> coro_handle \<Rightarrow> coro_handle \<Rightarrow> coro_handle \<Rightarrow> lifecycle \<Rightarrow> (coro_handle \<times> lifecycle) outcome"
where
  "lc_suspendingToCoro t cur awaited next s = obind (getInfo cur s) (\<lambda>a. obind (assertCurrent t a s) (\<lambda>_.
     if cur = next then Ok (next, s)
     else assert_that (state (info s a) = Active)
       (lc_switching t a next (upd a (\<lambda>i. (setState Awaiting i)\<lparr>awaitingCoro := awaited\<rparr>) s))))"

definition lc_yieldingTo ::
  "thread \<Rightarrow> coro_handle \<Rightarrow> coro_handle \<Rightarrow> bool \<Rightarrow> lifecycle \<Rightarrow> (coro_handle \<times> lifecycle) outcome"
where
  "lc_yieldingTo t cur next isCall s = obind (getInfo cur s) (\<lambda>a. obind (assertCurrent t a s) (\<lambda>_.
     if cur = next then Ok (next, s)
     else assert_that (state (info s a) = Active)
       (lc_switching t a next
         (upd a (\<lambda>i. if isCall \<and> \<not> isNoop next then (setState Yielding i)\<lparr>awaitingCoro := next\<rparr>
                     else setState Yielding i) s))))"

definition lc_finalSuspend ::
  "thread \<Rightarrow> coro_handle \<Rightarrow> coro_handle \<Rightarrow> lifecycle \<Rightarrow> (coro_handle \<times> lifecycle) outcome"
where
  "lc_finalSuspend t cur next s = obind (getInfo cur s) (\<lambda>a. obind (assertCurrent t a s) (\<lambda>_.
     lc_switching t a next
       (if state (info s a) \<noteq> Ending then upd a (setState Ending) s else s)))"

definition lc_mark_ready :: "nat \<Rightarrow> lifecycle \<Rightarrow> lifecycle outcome" where
  "lc_mark_ready a s = assert_that (state (info s a) \<noteq> Ending)
     (Ok (upd a (\<lambda>i. (setState Active i)\<lparr>awaiting := None, awaitingCoro := NullH\<rparr>) s))"

definition lc_ready :: "coro_handle \<Rightarrow> lifecycle \<Rightarrow> lifecycle outcome" where
  "lc_ready h s = obind (getInfo h s) (\<lambda>a.
     if state (info s a) \<noteq> Active then lc_mark_ready a s else Ok s)"

text \<open>\<open>body\<close> is what \<^verbatim>\<open>h.resume()\<close> runs.\<close>

definition lc_resume ::
  "thread \<Rightarrow> coro_handle \<Rightarrow> (lifecycle \<Rightarrow> 'a outcome) \<Rightarrow> lifecycle \<Rightarrow> 'a outcome"
where
  "lc_resume t h body s = obind (getInfo h s) (\<lambda>a.
     obind (pushCurrent t a s) (\<lambda>s1. obind (lc_mark_ready a s1) body))"

definition lc_threw :: "thread \<Rightarrow> coro_handle \<Rightarrow> lifecycle \<Rightarrow> lifecycle outcome" where
  "lc_threw t h s = obind (getInfo h s) (\<lambda>a. obind (assertCurrent t a s) (\<lambda>_.
     Ok (upd a (setState Ending) s)))"

definition lc_returning :: "thread \<Rightarrow> coro_handle \<Rightarrow> lifecycle \<Rightarrow> lifecycle outcome" where
  "lc_returning t h s = obind (getInfo h s) (\<lambda>a. obind (assertCurrent t a s) (\<lambda>_.
     Ok (upd a (setState Ending) s)))"

text \<open>
  \<open>isReady\<close> and \<open>isWaiting\<close> are what the thread's Scheduler answers for \<open>h\<close>.
\<close>

definition lc_ended ::
  "thread \<Rightarrow> bool \<Rightarrow> bool \<Rightarrow> coro_handle \<Rightarrow> lifecycle \<Rightarrow> lifecycle outcome"
where
  "lc_ended t isReady isWaiting h s =
     assert_that (\<not> isReady) (assert_that (\<not> isWaiting) (obind (getInfoIter h s) (\<lambda>a.
       assert_that (tCurrent s t \<noteq> Some a) (assert_that (caller (info s a) = None)
         (assert_that (list_all (\<lambda>b. caller (info s b) \<noteq> Some a) (sKeys s))
           (Ok (upd a (\<lambda>i. i\<lparr>handle := NullH\<rparr>) s)))))))"

subsection \<open>The stacks as lists\<close>

fun is_stack :: "lifecycle \<Rightarrow> nat option \<Rightarrow> nat list \<Rightarrow> bool" where
  "is_stack s c [] \<longleftrightarrow> c = None"
| "is_stack s c (x # xs) \<longleftrightarrow>
     c = Some x \<and> sCoros s x \<noteq> None \<and> handle (info s x) = H x \<and> is_stack s (caller (info s x)) xs"

definition table_ok :: "lifecycle \<Rightarrow> bool" where
  "table_ok s \<longleftrightarrow> distinct (sKeys s) \<and> set (sKeys s) = dom (sCoros s)
     \<and> (\<forall>a \<in> dom (sCoros s). handle (info s a) \<in> {NullH, H a})"

definition lc_inv :: "lifecycle \<Rightarrow> (thread \<Rightarrow> nat list) \<Rightarrow> bool" where
  "lc_inv s stk \<longleftrightarrow> table_ok s
     \<and> (\<forall>t. is_stack s (tCurrent s t) (stk t) \<and> distinct (stk t))
     \<and> (\<forall>t u. t \<noteq> u \<longrightarrow> set (stk t) \<inter> set (stk u) = {})
     \<and> (\<forall>a \<in> dom (sCoros s). caller (info s a) \<noteq> None \<longrightarrow> (\<exists>t. a \<in> set (stk t)))"

text \<open>A coroutine is running when it is current on a thread or the caller of another one.\<close>

definition on_stack :: "lifecycle \<Rightarrow> nat \<Rightarrow> bool" where
  "on_stack s a \<longleftrightarrow> (\<exists>t. tCurrent s t = Some a) \<or> (\<exists>b \<in> dom (sCoros s). caller (info s b) = Some a)"

lemma info_upd: "sCoros s a \<noteq> None \<Longrightarrow> info (upd a f s) b = (if b = a then f (info s a) else info s b)"
  by (auto simp: info_def upd_def)

lemma upd_simps [simp]:
  "tCurrent (upd a f s) = tCurrent s" "sKeys (upd a f s) = sKeys s" "dom (sCoros (upd a f s)) = dom (sCoros s)"
  "sCoros (upd a f s) b = None \<longleftrightarrow> sCoros s b = None"
  "(\<exists>i. sCoros (upd a f s) b = Some i) \<longleftrightarrow> (\<exists>i. sCoros s b = Some i)"
  by (auto simp: upd_def)

lemma set_current_simps [simp]:
  "tCurrent (set_current t c s) = (tCurrent s)(t := c)" "sKeys (set_current t c s) = sKeys s"
  "sCoros (set_current t c s) = sCoros s" "info (set_current t c s) = info s"
  by (auto simp: set_current_def info_def fun_eq_iff)

lemma setState_simps [simp]:
  "state (setState st i) = st" "caller (setState st i) = caller i" "handle (setState st i) = handle i"
  "sequence (setState st i) = sequence i" "ignored (setState st i) = ignored i"
  by (simp_all add: setState_def Let_def)

lemma getInfo_eq_Ok: "getInfo h s = Ok a \<longleftrightarrow> h = H a \<and> sCoros s a \<noteq> None \<and> handle (info s a) \<noteq> NullH"
  by (cases h) (auto simp: getInfo_def getInfoIter_def)

lemma getInfoIter_eq_Ok: "getInfoIter h s = Ok a \<longleftrightarrow> h = H a \<and> sCoros s a \<noteq> None"
  by (cases h) (auto simp: getInfoIter_def)

lemma assertCurrent_eq_Ok: "assertCurrent t a s = Ok u \<longleftrightarrow> tCurrent s t = Some a"
  by (auto simp: assertCurrent_def split: option.splits)

lemmas lc_oks = getInfo_eq_Ok getInfoIter_eq_Ok assertCurrent_eq_Ok assert_that_eq_Ok obind_eq_Ok

lemma is_stack_cong:
  assumes "\<forall>x \<in> set xs. sCoros s x \<noteq> None \<longrightarrow> sCoros s' x \<noteq> None \<and> caller (info s' x) = caller (info s x)
      \<and> handle (info s' x) = handle (info s x)"
  shows "is_stack s c xs \<Longrightarrow> is_stack s' c xs"
  using assms by (induction xs arbitrary: c) auto

lemma is_stack_walk: "is_stack s c xs \<Longrightarrow> stack_walk s c n = Some (n + length xs)"
  by (induction xs arbitrary: c n) (subst stack_walk.simps, simp)+

lemma is_stack_on_stack:
  assumes "is_stack s c xs" "a \<in> set xs"
  shows "c = Some a \<or> (\<exists>b \<in> set xs. sCoros s b \<noteq> None \<and> caller (info s b) = Some a)"
  using assms by (induction xs arbitrary: c) auto

lemma lc_inv_stackDepth: "lc_inv s stk \<Longrightarrow> stackDepth t s = Some (length (stk t))"
  using is_stack_walk [of s "tCurrent s t" "stk t" 0] by (simp add: lc_inv_def stackDepth_def)

lemma lc_inv_on_stack: "lc_inv s stk \<Longrightarrow> a \<in> set (stk t) \<Longrightarrow> on_stack s a"
  using is_stack_on_stack [of s "tCurrent s t" "stk t" a] by (fastforce simp: lc_inv_def on_stack_def)

lemma lc_inv_upd:
  assumes "lc_inv s stk" "sCoros s a \<noteq> None"
    and "caller (f (info s a)) = caller (info s a)" "handle (f (info s a)) = handle (info s a)"
  shows "lc_inv (upd a f s) stk"
proof -
  have "is_stack s c xs \<Longrightarrow> is_stack (upd a f s) c xs" for c xs
    by (erule is_stack_cong [rotated]) (use assms in \<open>auto simp: info_upd\<close>)
  with assms show ?thesis unfolding lc_inv_def table_ok_def by (auto simp: info_upd)
qed

lemma lc_invI:
  assumes "table_ok s" "\<And>t. is_stack s (tCurrent s t) (stk t)" "\<And>t. distinct (stk t)"
    "\<And>t u x. t \<noteq> u \<Longrightarrow> x \<in> set (stk t) \<Longrightarrow> x \<notin> set (stk u)"
    "\<And>a. sCoros s a \<noteq> None \<Longrightarrow> caller (info s a) \<noteq> None \<Longrightarrow> \<exists>t. a \<in> set (stk t)"
  shows "lc_inv s stk"
  using assms unfolding lc_inv_def by blast

lemma lc_invD:
  assumes "lc_inv s stk"
  shows "table_ok s" "is_stack s (tCurrent s t) (stk t)" "distinct (stk t)"
    "t \<noteq> u \<Longrightarrow> x \<in> set (stk t) \<Longrightarrow> x \<notin> set (stk u)"
    "sCoros s a \<noteq> None \<Longrightarrow> caller (info s a) \<noteq> None \<Longrightarrow> \<exists>t. a \<in> set (stk t)"
  using assms unfolding lc_inv_def by blast+

lemma table_ok_upd:
  "table_ok s \<Longrightarrow> sCoros s a \<noteq> None \<Longrightarrow> handle (f (info s a)) \<in> {NullH, H a} \<Longrightarrow> table_ok (upd a f s)"
  by (auto simp: table_ok_def info_upd)

lemma table_ok_set_current [simp]: "table_ok (set_current t c s) = table_ok s"
  by (simp add: table_ok_def)

lemma lc_inv_push:
  assumes "lc_inv s stk" "pushCurrent t a s = Ok s'" "sCoros s a \<noteq> None" "handle (info s a) \<noteq> NullH"
    "\<not> on_stack s a"
  shows "lc_inv s' (stk(t := a # stk t))"
proof (rule lc_invI)
  have s': "s' = set_current t (Some a) (upd a (\<lambda>i. i\<lparr>caller := tCurrent s t\<rparr>) s)" "caller (info s a) = None"
    using assms(2) by (auto simp: pushCurrent_def assert_that_eq_Ok)
  note inv = lc_invD [OF assms(1)]
  have a: "a \<notin> set (stk u)" for u using lc_inv_on_stack assms(1,5) by blast
  have h: "handle (info s a) = H a" using inv(1) assms by (auto simp: table_ok_def)
  have st: "is_stack s' c xs" if "is_stack s c xs" "a \<notin> set xs" for c xs
    using that(1) by (rule is_stack_cong [rotated]) (use that(2) assms(3) s' in \<open>auto simp: info_upd\<close>)
  show "table_ok s'" using inv(1) h assms(3) by (simp add: s' table_ok_upd)
  show "is_stack s' (tCurrent s' u) ((stk(t := a # stk t)) u)" for u
    using st [OF inv(2) a] h assms(3) by (auto simp: s' info_upd)
  show "distinct ((stk(t := a # stk t)) u)" for u using inv(3) a by simp
  show "x \<notin> set ((stk(t := a # stk t)) v)" if "u \<noteq> v" "x \<in> set ((stk(t := a # stk t)) u)" for u v x
    using that inv(4) a by (auto split: if_splits)
  show "\<exists>u. b \<in> set ((stk(t := a # stk t)) u)" if b: "sCoros s' b \<noteq> None" "caller (info s' b) \<noteq> None" for b
  proof (cases "b = a")
    case False
    then obtain u where "b \<in> set (stk u)" using inv(5) [of b] b assms(3) by (auto simp: s' info_upd)
    then show ?thesis by (intro exI [of _ u]) auto
  qed (auto intro: exI [of _ t])
qed

lemma lc_inv_pop:
  assumes "lc_inv s stk" "tCurrent s t = Some a"
  shows "lc_inv (upd a (\<lambda>i. i\<lparr>caller := None\<rparr>) (set_current t (caller (info s a)) s)) (stk(t := tl (stk t)))"
    (is "lc_inv ?s ?stk")
proof (rule lc_invI)
  note inv = lc_invD [OF assms(1)]
  obtain xs where xs: "stk t = a # xs" "is_stack s (caller (info s a)) xs" "sCoros s a \<noteq> None" "a \<notin> set xs"
      "handle (info s a) = H a"
    using inv(2) [of t] inv(3) [of t] assms(2) by (cases "stk t") auto
  have a: "a \<notin> set (stk u)" if "u \<noteq> t" for u using inv(4) [of t u a] that xs(1) by simp
  have st: "is_stack ?s c ys" if "is_stack s c ys" "a \<notin> set ys" for c ys
    using that(1) by (rule is_stack_cong [rotated]) (use that(2) xs(3) in \<open>auto simp: info_upd\<close>)
  show "table_ok ?s" using inv(1) xs by (simp add: table_ok_upd)
  show "is_stack ?s (tCurrent ?s u) (?stk u)" for u
    using st [OF inv(2) a] st [OF xs(2)] xs by auto
  show "distinct (?stk u)" for u using inv(3) by (auto simp: distinct_tl)
  show "x \<notin> set (?stk v)" if "u \<noteq> v" "x \<in> set (?stk u)" for u v x
    using that inv(4) [of u v x] xs(1) by (auto split: if_splits)
  show "\<exists>u. b \<in> set (?stk u)" if b: "sCoros ?s b \<noteq> None" "caller (info ?s b) \<noteq> None" for b
  proof -
    have "b \<noteq> a" using b(2) xs(3) by (auto simp: info_upd)
    then obtain u where "b \<in> set (stk u)" using inv(5) [of b] b xs(3) by (auto simp: info_upd)
    then show ?thesis using xs(1) \<open>b \<noteq> a\<close> by (intro exI [of _ u]) auto
  qed
qed

lemma on_stack_upd [simp]:
  assumes "sCoros s a \<noteq> None" "caller (f (info s a)) = caller (info s a)"
  shows "on_stack (upd a f s) b = on_stack s b"
  using assms by (fastforce simp: on_stack_def info_upd split: if_splits)

lemma on_stack_pop:
  assumes "lc_inv s stk" "tCurrent s t = Some a" "\<not> on_stack s n"
  shows "\<not> on_stack (upd a (\<lambda>i. i\<lparr>caller := None\<rparr>) (set_current t (caller (info s a)) s)) n"
proof -
  have "sCoros s a \<noteq> None" using lc_invD(2) [OF assms(1), of t] assms(2) by (cases "stk t") auto
  with assms(3) show ?thesis by (fastforce simp: on_stack_def info_upd split: if_splits)
qed

lemma lc_inv_switching:
  assumes "lc_inv s stk" "lc_switching t a next s = Ok (r, s')" "sCoros s a \<noteq> None"
    and fresh: "\<And>n. next = H n \<Longrightarrow> \<not> on_stack s n"
  shows "lc_inv s' (stk(t := (if isNoop next then [] else [address next]) @ tl (stk t)))"
    "r = (if next = NullH then NoopH else next)"
proof -
  obtain s1 where s1: "switchCurrent t a next s1 = Ok s'" "lc_inv s1 stk" "tCurrent s1 = tCurrent s"
      "\<And>n. next = H n \<Longrightarrow> \<not> on_stack s1 n"
    using assms by (fastforce simp: lc_switching_def lc_oks lc_inv_upd split: if_splits)
  let ?s2 = "upd a (\<lambda>i. i\<lparr>caller := None\<rparr>) (set_current t (caller (info s1 a)) s1)"
  have cur: "tCurrent s1 t = Some a" using s1(1) by (auto simp: switchCurrent_def lc_oks)
  note inv2 = lc_inv_pop [OF s1(2) cur]
  show "lc_inv s' (stk(t := (if isNoop next then [] else [address next]) @ tl (stk t)))"
  proof (cases "next")
    case (H n)
    then have "pushCurrent t n ?s2 = Ok s'" "sCoros ?s2 n \<noteq> None" "handle (info ?s2 n) \<noteq> NullH"
      using s1(1) by (auto simp: switchCurrent_def lc_oks isNoop_def Let_def pushCurrent_def)
    from lc_inv_push [OF inv2 this on_stack_pop [OF s1(2) cur s1(4) [OF H]]] H show ?thesis
      by (simp add: isNoop_def)
  qed (use inv2 s1(1) cur in \<open>auto simp: switchCurrent_def lc_oks isNoop_def Let_def\<close>)
  show "r = (if next = NullH then NoopH else next)"
    using assms(2) by (auto simp: lc_switching_def lc_oks)
qed

lemma lc_inv_live_on_stack:
  assumes "lc_inv s stk" "on_stack s a"
  shows "\<exists>t. a \<in> set (stk t)" "sCoros s a \<noteq> None" "handle (info s a) = H a"
proof -
  note inv = lc_invD [OF assms(1)]
  have succ: "is_stack s c xs \<Longrightarrow> b \<in> set xs \<Longrightarrow> caller (info s b) = Some a \<Longrightarrow> a \<in> set xs" for b c xs
    by (induction xs arbitrary: c) (auto, case_tac xs, auto)
  have live: "is_stack s c xs \<Longrightarrow> a \<in> set xs \<Longrightarrow> sCoros s a \<noteq> None \<and> handle (info s a) = H a" for c xs
    by (induction xs arbitrary: c) auto
  show "\<exists>t. a \<in> set (stk t)"
    using assms(2) unfolding on_stack_def
  proof (elim disjE exE bexE)
    fix t assume "tCurrent s t = Some a"
    then show ?thesis using inv(2) [of t] by (cases "stk t") (auto intro: exI [of _ t])
  next
    fix b assume b: "b \<in> dom (sCoros s)" "caller (info s b) = Some a"
    then obtain t where "b \<in> set (stk t)" using inv(5) [of b] by auto
    then show ?thesis using succ [OF inv(2) _ b(2)] by blast
  qed
  then show "sCoros s a \<noteq> None" "handle (info s a) = H a" using live [OF inv(2)] by blast+
qed

lemma lc_inv_created:
  assumes "lc_inv s stk" "lc_created t h ready s = Ok s'"
  shows "lc_inv s' (if ready then stk(t := address h # stk t) else stk)"
proof -
  obtain a where a: "h = H a" "sCoros s a = None \<or> handle (info s a) = NullH"
    using assms(2) by (cases h) (auto simp: lc_created_def lc_oks info_def split: option.splits)
  define s1 where "s1 = s\<lparr>sLastSequence := sLastSequence s + 1,
     sCoros := (sCoros s)(a \<mapsto> new_coroInfo h (sLastSequence s + 1)),
     sKeys := (if sCoros s a = None then sKeys s @ [a] else sKeys s)\<rparr>"
  note inv = lc_invD [OF assms(1)]
  have fresh: "\<not> on_stack s a" using lc_inv_live_on_stack [OF assms(1)] a(2) by force
  then have nostk: "a \<notin> set (stk u)" for u using lc_inv_on_stack [OF assms(1)] by blast
  have i1: "info s1 b = (if b = a then new_coroInfo h (sLastSequence s + 1) else info s b)" for b
    by (simp add: s1_def info_def)
  have d1: "sCoros s1 b = None \<longleftrightarrow> b \<noteq> a \<and> sCoros s b = None" for b by (simp add: s1_def)
  have "lc_inv s1 stk"
  proof (rule lc_invI)
    show "table_ok s1" using inv(1) a(1) unfolding table_ok_def i1
      by (auto simp: s1_def new_coroInfo_def)
    show "is_stack s1 (tCurrent s1 u) (stk u)" for u
      using is_stack_cong [OF _ inv(2), of u s1] nostk [of u] i1 by (auto simp: s1_def)
    show "\<exists>u. b \<in> set (stk u)" if "sCoros s1 b \<noteq> None" "caller (info s1 b) \<noteq> None" for b
      using that inv(5) [of b] by (cases "b = a") (simp_all add: i1 new_coroInfo_def d1)
  qed (use inv in auto)
  moreover have "\<not> on_stack s1 a"
    using fresh by (auto simp: on_stack_def i1) (auto simp: s1_def new_coroInfo_def split: if_splits)
  moreover have "(if ready then pushCurrent t a (upd a (setState Active) s1) else Ok s1) = Ok s'"
    using assms(2) unfolding s1_def a(1) by (simp add: lc_created_def assert_that_eq_Ok Let_def split del: if_split)
  moreover have "sCoros s1 a \<noteq> None" "handle (info s1 a) \<noteq> NullH" using a(1) by (simp_all add: s1_def i1 info_def new_coroInfo_def)
  ultimately show ?thesis using lc_inv_push [of "upd a (setState Active) s1" stk t a s'] a(1)
    by (auto simp: lc_inv_upd info_upd split: if_splits)
qed

lemma lc_inv_ended:
  assumes "lc_inv s stk" "lc_ended t rdy wtg h s = Ok s'" "\<And>a. h = H a \<Longrightarrow> \<not> on_stack s a"
  shows "lc_inv s' stk"
proof -
  obtain a where a: "h = H a" "sCoros s a \<noteq> None" "s' = upd a (\<lambda>i. i\<lparr>handle := NullH\<rparr>) s"
    using assms(2) by (auto simp: lc_ended_def lc_oks)
  note inv = lc_invD [OF assms(1)]
  have nostk: "a \<notin> set (stk u)" for u using lc_inv_on_stack [OF assms(1)] assms(3) a(1) by blast
  show ?thesis
  proof (rule lc_invI)
    show "table_ok s'" using inv(1) a by (simp add: table_ok_upd)
    show "is_stack s' (tCurrent s' u) (stk u)" for u
      using is_stack_cong [OF _ inv(2), of u s'] nostk [of u] a by (auto simp: info_upd)
    show "\<exists>u. b \<in> set (stk u)" if "sCoros s' b \<noteq> None" "caller (info s' b) \<noteq> None" for b
      using that inv(5) [of b] a by (auto simp: info_upd split: if_splits)
  qed (use inv in auto)
qed

subsection \<open>Reachable states\<close>

text \<open>The hooks as data, for runs on any number of threads.\<close>

datatype hook =
    Created coro_handle bool
  | SuspendInitial coro_handle
  | SuspendingTo coro_handle string "nat option" coro_handle
  | SuspendingToCoro coro_handle coro_handle coro_handle
  | YieldingTo coro_handle coro_handle bool
  | FinalSuspend coro_handle coro_handle
  | Ready coro_handle
  | Resume coro_handle
  | Threw coro_handle
  | Returning coro_handle
  | Ended bool bool coro_handle
  | IgnoreInCount coro_handle

fun run_hook :: "thread \<Rightarrow> hook \<Rightarrow> lifecycle \<Rightarrow> lifecycle outcome" where
  "run_hook t (Created h ready) s = lc_created t h ready s"
| "run_hook t (SuspendInitial h) s = lc_suspendInitial t h s"
| "run_hook t (SuspendingTo cur ty to next) s = obind (lc_suspendingTo t cur ty to next s) (\<lambda>(_, s'). Ok s')"
| "run_hook t (SuspendingToCoro cur w next) s = obind (lc_suspendingToCoro t cur w next s) (\<lambda>(_, s'). Ok s')"
| "run_hook t (YieldingTo cur next call) s = obind (lc_yieldingTo t cur next call s) (\<lambda>(_, s'). Ok s')"
| "run_hook t (FinalSuspend cur next) s = obind (lc_finalSuspend t cur next s) (\<lambda>(_, s'). Ok s')"
| "run_hook t (Ready h) s = lc_ready h s"
| "run_hook t (Resume h) s = lc_resume t h Ok s"
| "run_hook t (Threw h) s = lc_threw t h s"
| "run_hook t (Returning h) s = lc_returning t h s"
| "run_hook t (Ended rdy wtg h) s = lc_ended t rdy wtg h s"
| "run_hook t (IgnoreInCount h) s = ignoreInCount h s"

text \<open>
  The coroutine a hook starts running or ends. The language allows neither for a coroutine that is
  running.
\<close>

fun hook_target :: "hook \<Rightarrow> coro_handle" where
  "hook_target (SuspendingTo cur _ _ next) = (if cur = next then NullH else next)"
| "hook_target (SuspendingToCoro cur _ next) = (if cur = next then NullH else next)"
| "hook_target (YieldingTo cur next _) = (if cur = next then NullH else next)"
| "hook_target (FinalSuspend _ next) = next"
| "hook_target (Resume h) = h"
| "hook_target (Ended _ _ h) = h"
| "hook_target _ = NullH"

definition hook_allowed :: "hook \<Rightarrow> lifecycle \<Rightarrow> bool" where
  "hook_allowed k s \<longleftrightarrow> (case hook_target k of H a \<Rightarrow> \<not> on_stack s a | _ \<Rightarrow> True)"

text \<open>The specification: what each hook does to the stack of its thread, as a list.\<close>

definition top_to :: "coro_handle \<Rightarrow> nat list \<Rightarrow> nat list" where
  "top_to next xs = (if isNoop next then [] else [address next]) @ tl xs"

fun stack_spec :: "hook \<Rightarrow> lifecycle \<Rightarrow> nat list \<Rightarrow> nat list" where
  "stack_spec (Created h ready) s xs = (if ready then address h # xs else xs)"
| "stack_spec (SuspendInitial h) s xs = (if state (info s (address h)) = Active then tl xs else xs)"
| "stack_spec (SuspendingTo cur _ _ next) s xs = (if cur = next then xs else top_to next xs)"
| "stack_spec (SuspendingToCoro cur _ next) s xs = (if cur = next then xs else top_to next xs)"
| "stack_spec (YieldingTo cur next _) s xs = (if cur = next then xs else top_to next xs)"
| "stack_spec (FinalSuspend cur next) s xs = top_to next xs"
| "stack_spec (Resume h) s xs = address h # xs"
| "stack_spec _ s xs = xs"

inductive lc_reachable :: "lifecycle \<Rightarrow> bool" where
  init: "lc_reachable \<lparr>sLastSequence = 0, sCoros = \<lambda>_. None, sKeys = [], tCurrent = \<lambda>_. None\<rparr>"
| step: "lc_reachable s \<Longrightarrow> hook_allowed k s \<Longrightarrow> run_hook t k s = Ok s' \<Longrightarrow> lc_reachable s'"

lemma lc_inv_init: "lc_inv \<lparr>sLastSequence = 0, sCoros = \<lambda>_. None, sKeys = [], tCurrent = \<lambda>_. None\<rparr> (\<lambda>_. [])"
  by (simp add: lc_inv_def table_ok_def)

lemma lc_inv_switch_upd:
  assumes "lc_inv s stk" "lc_switching t a next (upd a f s) = Ok (r, s')" "sCoros s a \<noteq> None"
    and "caller (f (info s a)) = caller (info s a)" "handle (f (info s a)) = handle (info s a)"
    and "\<And>n. next = H n \<Longrightarrow> \<not> on_stack s n"
  shows "lc_inv s' (stk(t := top_to next (stk t)))"
  unfolding top_to_def
  by (rule lc_inv_switching(1) [OF lc_inv_upd [where f = f, OF assms(1,3-5)] assms(2)]) (use assms(3,4,6) in auto)

lemma run_hook_refines:
  assumes "lc_inv s stk" "hook_allowed k s" "run_hook t k s = Ok s'"
  shows "lc_inv s' (stk(t := stack_spec k s (stk t)))"
proof (cases k)
  case (Created h ready)
  then show ?thesis using lc_inv_created [OF assms(1), of t h ready s'] assms(3) by (simp split: if_splits)
next
  case (SuspendInitial h)
  then show ?thesis using assms
    by (cases "state (info s (address h)) = Active")
       (auto simp: lc_suspendInitial_def popCurrent_def lc_oks intro!: lc_inv_upd lc_inv_pop)
next
  case (SuspendingTo cur ty to n)
  then show ?thesis using assms
    by (auto simp: lc_suspendingTo_def lc_oks hook_allowed_def split: if_splits elim!: lc_inv_switch_upd)
next
  case (SuspendingToCoro cur w n)
  then show ?thesis using assms
    by (auto simp: lc_suspendingToCoro_def lc_oks hook_allowed_def split: if_splits elim!: lc_inv_switch_upd)
next
  case (YieldingTo cur n c)
  then show ?thesis using assms
    by (auto simp: lc_yieldingTo_def lc_oks hook_allowed_def split: if_splits elim!: lc_inv_switch_upd)
next
  case (FinalSuspend cur n)
  then show ?thesis using assms
    by (auto simp: lc_finalSuspend_def lc_oks hook_allowed_def top_to_def split: if_splits
        elim!: lc_inv_switch_upd [unfolded top_to_def] dest!: lc_inv_switching(1) [rotated]
        intro: lc_inv_upd)
next
  case (Resume h)
  then show ?thesis using assms
    by (auto simp: lc_resume_def lc_mark_ready_def lc_oks hook_allowed_def
        intro!: lc_inv_upd lc_inv_push simp: pushCurrent_def)
next
  case (Ended r w h)
  then show ?thesis using assms lc_inv_ended [OF assms(1), of t r w h s'] by (cases h) (auto simp: hook_allowed_def)
qed (use assms in \<open>auto simp: lc_ready_def lc_mark_ready_def lc_threw_def lc_returning_def ignoreInCount_def
    lc_oks split: if_splits intro!: lc_inv_upd\<close>)

lemma not_on_stack_caller: "lc_inv s stk \<Longrightarrow> \<not> on_stack s a \<Longrightarrow> sCoros s a \<noteq> None \<Longrightarrow> caller (info s a) = None"
  using lc_invD(5) lc_inv_on_stack by blast

lemma lc_switching_Ok:
  assumes "lc_inv s stk" "tCurrent s t = Some a" "sCoros s a \<noteq> None" "handle (info s a) = H a"
    "sCoros s n \<noteq> None" "handle (info s n) = H n" "n \<noteq> a" "\<not> on_stack s n" "state (info s n) \<noteq> Active"
  shows "\<exists>s'. lc_switching t a (H n) s = Ok (H n, s') \<and> state (info s' n) = Active
     \<and> state (info s' a) = state (info s a) \<and> awaiting (info s' a) = awaiting (info s a)"
  using assms not_on_stack_caller [OF assms(1,8,5)]
  by (simp add: lc_switching_def switchCurrent_def isNoop_def getInfo_def getInfoIter_def assertCurrent_def
      Let_def info_upd assert_that_def)

text \<open>
  C17. Every hook that succeeds changes the stack of its own thread as specified, and no other: a new
  eager coroutine and a resumed one are pushed, a suspending, yielding or finishing one is replaced by
  the coroutine it switches to or popped, and everything else leaves the stack alone. The stacks of all
  threads stay disjoint chains of live coroutines.
\<close>

theorem hooks_refine_stacks:
  assumes "lc_inv s stk" "hook_allowed k s" "run_hook t k s = Ok s'"
  shows "lc_inv s' (stk(t := stack_spec k s (stk t)))"
  by (rule run_hook_refines [OF assms])

definition two_coros :: lifecycle where
  "two_coros = \<lparr>sLastSequence = 2, sCoros = [10 \<mapsto> (new_coroInfo (H 10) 1)\<lparr>state := Active\<rparr>,
       20 \<mapsto> new_coroInfo (H 20) 2], sKeys = [10, 20], tCurrent = (\<lambda>_. None)(0 := Some 10)\<rparr>"

lemma two_coros_inv:
  "lc_inv two_coros ((\<lambda>_. [])(0 := [10]))" "\<not> on_stack two_coros 20"
  by (auto simp: two_coros_def lc_inv_def table_ok_def new_coroInfo_def info_def on_stack_def)

theorem hooks_refine_stacks_witness:
  "\<exists>s'. run_hook 0 (SuspendingTo (H 10) ''Future'' (Some 5) (H 20)) two_coros = Ok s'
    \<and> lc_inv s' (((\<lambda>_. [])(0 := [10]))(0 := [20]))"
proof -
  obtain s' where s': "lc_suspendingTo 0 (H 10) ''Future'' (Some 5) (H 20) two_coros = Ok (H 20, s')"
    by (simp add: two_coros_def lc_suspendingTo_def lc_switching_def switchCurrent_def isNoop_def getInfo_def
        getInfoIter_def assertCurrent_def Let_def upd_def info_def new_coroInfo_def set_current_def setState_def
        assert_that_def)
  with two_coros_inv hooks_refine_stacks [of two_coros "(\<lambda>_. [])(0 := [10])"
      "SuspendingTo (H 10) ''Future'' (Some 5) (H 20)" 0 s']
  show ?thesis by (simp add: hook_allowed_def top_to_def isNoop_def)
qed

text \<open>
  In every state the hooks can reach, walking a thread's stack ends: \<^verbatim>\<open>stackDepth\<close> returns the
  number of coroutines on it, and the key list of the table has no more entries than the table.
\<close>

theorem stackDepth_terminates:
  assumes "lc_reachable s"
  shows "\<exists>stk. lc_inv s stk \<and> stackDepth t s = Some (length (stk t)) \<and> length (stk t) \<le> length (sKeys s)"
proof -
  have "\<exists>stk. lc_inv s stk"
    using assms by induction (auto intro: lc_inv_init dest: run_hook_refines)
  then obtain stk where inv: "lc_inv s stk" ..
  have "is_stack s c xs \<Longrightarrow> set xs \<subseteq> dom (sCoros s)" for c xs by (induction xs arbitrary: c) auto
  then have "set (stk t) \<subseteq> set (sKeys s)" using lc_invD(1,2) [OF inv] by (auto simp: table_ok_def)
  then have "length (stk t) \<le> length (sKeys s)"
    by (metis card_length card_mono distinct_card finite_set inv lc_invD(3) le_trans)
  then show ?thesis using inv lc_inv_stackDepth by blast
qed

theorem stackDepth_terminates_witness:
  "\<exists>s. lc_reachable s \<and> stackDepth 0 s = Some 1"
proof -
  let ?s0 = "\<lparr>sLastSequence = 0, sCoros = \<lambda>_. None, sKeys = [], tCurrent = \<lambda>_. None\<rparr>"
  obtain s where s: "run_hook 0 (Created (H 7) True) ?s0 = Ok s" "sKeys s = [7]" "tCurrent s 0 = Some 7"
    by (simp add: lc_created_def Let_def new_coroInfo_def pushCurrent_def upd_def info_def set_current_def
        setState_def assert_that_def)
  then have r: "lc_reachable s" using lc_reachable.step [OF lc_reachable.init _ s(1)] by (simp add: hook_allowed_def)
  then obtain stk where "lc_inv s stk" "stackDepth 0 s = Some (length (stk 0))" "length (stk 0) \<le> 1"
    using stackDepth_terminates [OF r, of 0] s(2) by auto
  moreover from this s(3) have "stk 0 \<noteq> []" using lc_invD(2) [of s stk 0] by auto
  ultimately show ?thesis using r by (cases "stk 0") auto
qed

text \<open>
  A running coroutine can always suspend in favour of a suspended live one: no assertion
  fails, the target becomes the active top of the thread's stack, and the suspended coroutine leaves
  the stack in state \<^verbatim>\<open>awaiting\<close>, recording what it awaits.
\<close>

theorem suspendingTo_succeeds:
  assumes "lc_inv s stk" "stk t = a # xs" "state (info s a) = Active"
    and "sCoros s n \<noteq> None" "handle (info s n) = H n" "n \<noteq> a" "\<not> on_stack s n" "state (info s n) \<noteq> Active"
  shows "\<exists>s'. lc_suspendingTo t (H a) ty to (H n) s = Ok (H n, s') \<and> lc_inv s' (stk(t := n # xs))
     \<and> state (info s' n) = Active \<and> state (info s' a) = Awaiting \<and> awaiting (info s' a) = to"
proof -
  let ?f = "\<lambda>i. (setState Awaiting i)\<lparr>awaiting := to, awaitingType := Some ty\<rparr>"
  have a: "tCurrent s t = Some a" "sCoros s a \<noteq> None" "handle (info s a) = H a"
    using lc_invD(2) [OF assms(1), of t] assms(2) by simp_all
  have inv: "lc_inv (upd a ?f s) stk" using a by (intro lc_inv_upd [OF assms(1)]) simp_all
  obtain s' where s': "lc_switching t a (H n) (upd a ?f s) = Ok (H n, s')" "state (info s' n) = Active"
      "state (info s' a) = Awaiting" "awaiting (info s' a) = to"
    using lc_switching_Ok [OF inv, of t a n] a assms by (auto simp: info_upd)
  then have "lc_suspendingTo t (H a) ty to (H n) s = Ok (H n, s')"
    using a assms by (simp add: lc_suspendingTo_def getInfo_def getInfoIter_def assertCurrent_def assert_that_def)
  moreover have "lc_inv s' (stk(t := n # xs))"
    using lc_inv_switch_upd [OF assms(1) s'(1)] a assms by (simp add: top_to_def isNoop_def)
  ultimately show ?thesis using s' by blast
qed

theorem suspendingTo_succeeds_witness:
  "\<exists>s'. lc_suspendingTo 0 (H 10) ''Future'' None (H 20) two_coros = Ok (H 20, s') \<and> state (info s' 20) = Active"
proof -
  have "state (info two_coros 10) = Active" "sCoros two_coros 20 \<noteq> None" "handle (info two_coros 20) = H 20"
    "state (info two_coros 20) \<noteq> Active"
    by (simp_all add: two_coros_def info_def new_coroInfo_def)
  with suspendingTo_succeeds [OF two_coros_inv(1), of 0 10 "[]" 20] two_coros_inv(2) show ?thesis by fastforce
qed

end
