(* ===== verification/Fifo.thy ===== *)
theory Fifo
  imports Crouton_Prelude
begin

text \<open>
  The contract of a first-in first-out container, as the clients of the intrusive list and of
  \<^verbatim>\<open>std::deque\<close> rely on it: a representation relation to HOL lists, the elements that may be pushed
  (an intrusive link must not be in a list already), and the laws of \<^verbatim>\<open>empty\<close>, \<^verbatim>\<open>push_back\<close> and \<^verbatim>\<open>pop_front\<close>.
  The lemmas say that a batch comes out in the order it went in.
\<close>

fun push_all :: "('a \<Rightarrow> 's \<Rightarrow> 's outcome) \<Rightarrow> 'a list \<Rightarrow> 's \<Rightarrow> 's outcome" where
  "push_all push [] s = Ok s"
| "push_all push (x # xs) s = obind (push x s) (push_all push xs)"

fun pop_n :: "('s \<Rightarrow> ('a \<times> 's) outcome) \<Rightarrow> nat \<Rightarrow> 's \<Rightarrow> ('a list \<times> 's) outcome" where
  "pop_n pop 0 s = Ok ([], s)"
| "pop_n pop (Suc n) s =
     obind (pop s) (\<lambda>(x, s'). obind (pop_n pop n s') (\<lambda>(xs, s''). Ok (x # xs, s'')))"

locale fifo =
  fixes rep :: "'s \<Rightarrow> 'a list \<Rightarrow> bool"
    and fresh :: "'s \<Rightarrow> 'a \<Rightarrow> bool"
    and is_empty :: "'s \<Rightarrow> bool"
    and push :: "'a \<Rightarrow> 's \<Rightarrow> 's outcome"
    and pop :: "'s \<Rightarrow> ('a \<times> 's) outcome"
  assumes empty_law: "rep s xs \<Longrightarrow> is_empty s \<longleftrightarrow> xs = []"
    and push_law: "rep s xs \<Longrightarrow> fresh s x \<Longrightarrow>
      \<exists>s'. push x s = Ok s' \<and> rep s' (xs @ [x]) \<and> (\<forall>y. fresh s y \<and> y \<noteq> x \<longrightarrow> fresh s' y)"
    and pop_law: "rep s (x # xs) \<Longrightarrow> \<exists>s'. pop s = Ok (x, s') \<and> rep s' xs \<and> fresh s' x"
begin

lemma push_all_rep:
  "rep s xs \<Longrightarrow> distinct ys \<Longrightarrow> list_all (fresh s) ys \<Longrightarrow>
    \<exists>s'. push_all push ys s = Ok s' \<and> rep s' (xs @ ys)"
proof (induction ys arbitrary: s xs)
  case (Cons y ys)
  then obtain s1 where s1: "push y s = Ok s1" "rep s1 (xs @ [y])" "\<forall>z. fresh s z \<and> z \<noteq> y \<longrightarrow> fresh s1 z"
    using push_law [of s xs y] by auto
  with Cons.prems have "list_all (fresh s1) ys" by (auto simp: list_all_iff)
  with Cons.IH [OF s1(2)] Cons.prems s1 show ?case by auto
qed simp

lemma pop_n_rep:
  "rep s (xs @ ys) \<Longrightarrow> \<exists>s'. pop_n pop (length xs) s = Ok (xs, s') \<and> rep s' ys"
proof (induction xs arbitrary: s)
  case (Cons x xs)
  then obtain s1 where "pop s = Ok (x, s1)" "rep s1 (xs @ ys)"
    using pop_law [of s x "xs @ ys"] by auto
  with Cons.IH [of s1] show ?case by auto
qed simp

lemma first_in_first_out:
  assumes "rep s xs" "distinct ys" "list_all (fresh s) ys"
  shows "\<exists>s1 s2. push_all push ys s = Ok s1 \<and> pop_n pop (length xs + length ys) s1 = Ok (xs @ ys, s2)
     \<and> is_empty s2"
  using push_all_rep [OF assms] pop_n_rep [of _ "xs @ ys" "[]"] empty_law by fastforce

end

subsection \<open>std::deque\<close>

text \<open>The standard container is a list; \<^verbatim>\<open>pop_front\<close> on an empty one is undefined.\<close>

definition deque_push_back :: "'a \<Rightarrow> 'a list \<Rightarrow> 'a list outcome" where
  "deque_push_back x q = Ok (q @ [x])"

definition deque_pop_front :: "'a list \<Rightarrow> ('a \<times> 'a list) outcome" where
  "deque_pop_front q = (case q of [] \<Rightarrow> Throw UndefinedBehavior | x # xs \<Rightarrow> Ok (x, xs))"

interpretation deque: fifo "(=)" "\<lambda>_ _. True" "\<lambda>q. q = []" deque_push_back deque_pop_front
  by unfold_locales (auto simp: deque_push_back_def deque_pop_front_def)

end
