(* ===== verification/Scheduler.thy ===== *)
theory Scheduler
  imports Lifecycle Fifo
begin

text \<open>
  The per-thread coroutine scheduler: \<^verbatim>\<open>src/Scheduler.cc\<close> and \<^verbatim>\<open>include/crouton/Scheduler.hh\<close>. The state
  is the ready queue, the table of suspended coroutines, the event loop and the \<^verbatim>\<open>_woke\<close> flag. Every
  operation takes \<open>cur\<close>, the answer of \<^verbatim>\<open>isCurrent()\<close> on the calling thread. The suspension table is an
  association list in iteration order, keyed by handle as \<^verbatim>\<open>h.address()\<close> is injective; a new entry may
  come anywhere in an \<^verbatim>\<open>unordered_map\<close>, here it comes first, and no lemma depends on it. A pointer to a
  \<^verbatim>\<open>SuspensionImpl\<close> is the key of its entry. The event loop is an interface: the model records the calls
  of \<^verbatim>\<open>stop\<close> and the functions handed to \<^verbatim>\<open>perform\<close>.
\<close>

subsection \<open>State\<close>

record SuspensionImpl =
  si_handle :: coro_handle
  si_scheduler :: bool
  si_wakeMe :: bool
  si_visible :: bool

datatype loop_fn = FnSchedule coro_handle | FnUser nat

record EventLoop =
  el_running :: bool
  el_stops :: "bool list"
  el_performs :: "(loop_fn \<times> bool) list"

record Scheduler =
  sc_ready :: "coro_handle list"
  sc_suspended :: "(coro_handle \<times> SuspensionImpl) list"
  sc_eventLoop :: "EventLoop option"
  sc_woke :: bool
  sc_ownsEventLoop :: bool

definition new_Scheduler :: Scheduler where
  "new_Scheduler = \<lparr>sc_ready = [], sc_suspended = [], sc_eventLoop = None, sc_woke = False, sc_ownsEventLoop = False\<rparr>"

definition newEventLoop :: EventLoop where
  "newEventLoop = \<lparr>el_running = False, el_stops = [], el_performs = []\<rparr>"

definition sus_set :: "coro_handle \<Rightarrow> SuspensionImpl \<Rightarrow> Scheduler \<Rightarrow> Scheduler" where
  "sus_set k i s = s\<lparr>sc_suspended := map (\<lambda>(k', i'). if k' = k then (k, i) else (k', i')) (sc_suspended s)\<rparr>"

definition sus_erase :: "coro_handle \<Rightarrow> Scheduler \<Rightarrow> Scheduler" where
  "sus_erase k s = s\<lparr>sc_suspended := filter (\<lambda>(k', _). k' \<noteq> k) (sc_suspended s)\<rparr>"

subsection \<open>Scheduler\<close>

definition isReady :: "coro_handle \<Rightarrow> Scheduler \<Rightarrow> bool" where
  "isReady h s = list_ex (\<lambda>x. x = h) (sc_ready s)"

definition isWaiting :: "coro_handle \<Rightarrow> Scheduler \<Rightarrow> bool" where
  "isWaiting h s \<longleftrightarrow> map_of (sc_suspended s) h \<noteq> None"

definition hasWakers :: "Scheduler \<Rightarrow> bool" where
  "hasWakers s \<longleftrightarrow> sc_woke s \<and> list_ex (\<lambda>(_, i). si_wakeMe i \<and> si_handle i \<noteq> NullH) (sc_suspended s)"

definition isIdle :: "Scheduler \<Rightarrow> bool" where
  "isIdle s \<longleftrightarrow> \<not> hasWakers s \<and> sc_ready s = []"

definition isEmpty :: "Scheduler \<Rightarrow> bool" where
  "isEmpty s \<longleftrightarrow> isIdle s \<and> sc_suspended s = []"

definition eventLoop :: "bool \<Rightarrow> Scheduler \<Rightarrow> (EventLoop \<times> Scheduler) outcome" where
  "eventLoop cur s =
     (case sc_eventLoop s of
        Some el \<Rightarrow> Ok (el, s)
      | None \<Rightarrow> assert_that cur
          (Ok (newEventLoop, s\<lparr>sc_eventLoop := Some newEventLoop, sc_ownsEventLoop := True\<rparr>)))"

definition useEventLoop :: "bool \<Rightarrow> EventLoop \<Rightarrow> Scheduler \<Rightarrow> Scheduler outcome" where
  "useEventLoop cur el s = assert_that cur (assert_that (sc_eventLoop s = None)
     (Ok (s\<lparr>sc_eventLoop := Some el, sc_ownsEventLoop := False\<rparr>)))"

definition onEventLoop :: "bool \<Rightarrow> loop_fn \<Rightarrow> Scheduler \<Rightarrow> Scheduler outcome" where
  "onEventLoop cur fn s = obind (eventLoop cur s) (\<lambda>(el, s1).
     Ok (s1\<lparr>sc_eventLoop := Some (el\<lparr>el_performs := el_performs el @ [(fn, False)]\<rparr>)\<rparr>))"

definition onEventLoopSync :: "bool \<Rightarrow> loop_fn \<Rightarrow> Scheduler \<Rightarrow> Scheduler outcome" where
  "onEventLoopSync cur fn s = assert_that (\<not> cur) (obind (eventLoop cur s) (\<lambda>(el, s1).
     Ok (s1\<lparr>sc_eventLoop := Some (el\<lparr>el_performs := el_performs el @ [(fn, True)]\<rparr>)\<rparr>)))"

text \<open>\<open>run\<close> is what calling the function does to the scheduler.\<close>

definition asap :: "bool \<Rightarrow> (loop_fn \<Rightarrow> Scheduler \<Rightarrow> Scheduler outcome) \<Rightarrow> loop_fn \<Rightarrow> Scheduler \<Rightarrow> Scheduler outcome" where
  "asap cur run fn s = (if cur then run fn s else onEventLoop cur fn s)"

definition asapSync :: "bool \<Rightarrow> (loop_fn \<Rightarrow> Scheduler \<Rightarrow> Scheduler outcome) \<Rightarrow> loop_fn \<Rightarrow> Scheduler \<Rightarrow> Scheduler outcome" where
  "asapSync cur run fn s = (if cur then run fn s else onEventLoopSync cur fn s)"

text \<open>\<^verbatim>\<open>_wakeUp\<close> stops the event loop, in the thread-safe way from another thread.\<close>

definition wakeUp_loop :: "bool \<Rightarrow> Scheduler \<Rightarrow> Scheduler outcome" where
  "wakeUp_loop cur s =
     (if cur then
        (case sc_eventLoop s of
           Some el \<Rightarrow> if el_running el
                      then Ok (s\<lparr>sc_eventLoop := Some (el\<lparr>el_stops := el_stops el @ [False]\<rparr>)\<rparr>) else Ok s
         | None \<Rightarrow> Ok s)
      else
        (case sc_eventLoop s of
           Some el \<Rightarrow> Ok (s\<lparr>sc_eventLoop := Some (el\<lparr>el_stops := el_stops el @ [True]\<rparr>)\<rparr>)
         | None \<Rightarrow> Throw Terminated))"

definition wakeUp :: "bool \<Rightarrow> Scheduler \<Rightarrow> Scheduler outcome" where
  "wakeUp cur s = (if \<not> sc_woke s then wakeUp_loop cur (s\<lparr>sc_woke := True\<rparr>) else Ok s)"

definition schedule :: "bool \<Rightarrow> coro_handle \<Rightarrow> Scheduler \<Rightarrow> Scheduler outcome" where
  "schedule cur h s = assert_that cur (assert_that (\<not> isWaiting h s)
     (if \<not> isReady h s then Ok (s\<lparr>sc_ready := sc_ready s @ [h]\<rparr>) else Ok s))"

definition adopt :: "bool \<Rightarrow> coro_handle \<Rightarrow> Scheduler \<Rightarrow> Scheduler outcome" where
  "adopt cur h s = onEventLoop cur (FnSchedule h) s"

definition sched_yield :: "bool \<Rightarrow> coro_handle \<Rightarrow> Scheduler \<Rightarrow> (coro_handle \<times> Scheduler) outcome" where
  "sched_yield cur h s =
     (if isIdle s then Ok (h, s) else obind (schedule cur h s) (\<lambda>s'. Ok (NullH, s')))"

definition resumed :: "bool \<Rightarrow> coro_handle \<Rightarrow> Scheduler \<Rightarrow> Scheduler outcome" where
  "resumed cur h s = assert_that cur (Ok (s\<lparr>sc_ready := remove1 h (sc_ready s)\<rparr>))"

text \<open>One pass over the suspended coroutines: the handles to make ready, and the entries that stay.\<close>

fun scan_wakers ::
  "(coro_handle \<times> SuspensionImpl) list \<Rightarrow> coro_handle list \<times> (coro_handle \<times> SuspensionImpl) list"
where
  "scan_wakers [] = ([], [])"
| "scan_wakers ((k, i) # es) =
     (let (hs, rest) = scan_wakers es
      in if si_wakeMe i then (if si_handle i \<noteq> NullH then si_handle i # hs else hs, rest)
         else (hs, (k, i) # rest))"

function scheduleWakers :: "Scheduler \<Rightarrow> Scheduler" where
  "scheduleWakers s =
     (if sc_woke s
      then scheduleWakers (s\<lparr>sc_woke := False,
             sc_ready := sc_ready s @ fst (scan_wakers (sc_suspended s)),
             sc_suspended := snd (scan_wakers (sc_suspended s))\<rparr>)
      else s)"
  by pat_completeness auto
termination by (relation "measure (\<lambda>s. if sc_woke s then 1 else 0)") auto

declare scheduleWakers.simps [simp del]

definition nextOr :: "bool \<Rightarrow> coro_handle \<Rightarrow> Scheduler \<Rightarrow> (coro_handle \<times> Scheduler) outcome" where
  "nextOr cur dflt s = assert_that cur
     (let s1 = scheduleWakers s
      in case sc_ready s1 of [] \<Rightarrow> Ok (dflt, s1) | h # hs \<Rightarrow> Ok (h, s1\<lparr>sc_ready := hs\<rparr>))"

text \<open>The returned \<^verbatim>\<open>Suspension\<close> is a pointer to the entry of \<open>h\<close>.\<close>

definition suspend :: "bool \<Rightarrow> coro_handle \<Rightarrow> Scheduler \<Rightarrow> (coro_handle option \<times> Scheduler) outcome" where
  "suspend cur h s = assert_that cur (assert_that (\<not> isReady h s) (obind (eventLoop cur s) (\<lambda>(_, s1).
     case map_of (sc_suspended s1) h of
       Some i \<Rightarrow> Ok (Some h, sus_set h (i\<lparr>si_visible := True\<rparr>) s1)
     | None \<Rightarrow> Ok (Some h, s1\<lparr>sc_suspended :=
           (h, \<lparr>si_handle = h, si_scheduler = True, si_wakeMe = False, si_visible = True\<rparr>) # sc_suspended s1\<rparr>))))"

definition destroying :: "bool \<Rightarrow> coro_handle \<Rightarrow> Scheduler \<Rightarrow> Scheduler outcome" where
  "destroying cur h s = assert_that cur
     (obind (case map_of (sc_suspended s) h of
               None \<Rightarrow> Ok s
             | Some i \<Rightarrow> if si_wakeMe i then Ok (sus_erase h s)
                         else assert_that (\<not> si_visible i)
                           (Ok (sus_set h (i\<lparr>si_wakeMe := True, si_handle := NullH\<rparr>) s)))
       (\<lambda>s1. Ok (s1\<lparr>sc_ready := remove1 h (sc_ready s1)\<rparr>)))"

text \<open>\<open>is_done\<close> is \<^verbatim>\<open>h.done()\<close>.\<close>

definition finished :: "bool \<Rightarrow> bool \<Rightarrow> coro_handle \<Rightarrow> Scheduler \<Rightarrow> unit outcome" where
  "finished cur is_done h s = assert_that cur (assert_that is_done (assert_that (\<not> isReady h s)
     (assert_that (\<not> isWaiting h s) (Ok ()))))"

text \<open>\<open>body\<close> is what the resumed coroutine does until it suspends or ends.\<close>

definition resume ::
  "bool \<Rightarrow> thread \<Rightarrow> (coro_handle \<Rightarrow> lifecycle \<Rightarrow> Scheduler \<Rightarrow> (lifecycle \<times> Scheduler) outcome) \<Rightarrow>
    lifecycle \<Rightarrow> Scheduler \<Rightarrow> (bool \<times> lifecycle \<times> Scheduler) outcome"
where
  "resume cur t body lc s = obind (nextOr cur NullH s) (\<lambda>(h, s1).
     if h \<noteq> NullH then obind (lc_resume t h (\<lambda>lc1. body h lc1 s1) lc) (\<lambda>(lc2, s2). Ok (True, lc2, s2))
     else Ok (False, lc, s1))"

text \<open>
  \<^verbatim>\<open>runUntil\<close>, over a state \<open>w\<close> that holds the program: \<open>fn\<close> is the predicate, \<open>res\<close> the call of \<^verbatim>\<open>resume()\<close>
  and \<open>runOnce\<close> that of the event loop. Not returning is \<open>None\<close>.
\<close>

partial_function (option) runUntil ::
  "('w \<Rightarrow> bool \<times> 'w) \<Rightarrow> ('w \<Rightarrow> bool \<times> 'w) \<Rightarrow> (bool \<Rightarrow> 'w \<Rightarrow> 'w) \<Rightarrow> 'w \<Rightarrow> 'w option"
where
  "runUntil fn res runOnce w =
     (case fn w of (stop, w1) \<Rightarrow>
        if stop then Some w1
        else case res w1 of (didRun, w2) \<Rightarrow>
          let idle = \<not> didRun in
          if \<not> idle then
            (case fn w2 of (stop2, w3) \<Rightarrow>
               if stop2 then Some w3 else runUntil fn res runOnce (runOnce idle w3))
          else runUntil fn res runOnce (runOnce idle w2))"

subsection \<open>Suspension\<close>

definition SuspensionImpl_wakeUp ::
  "bool \<Rightarrow> coro_handle \<Rightarrow> lifecycle \<Rightarrow> Scheduler \<Rightarrow> (lifecycle \<times> Scheduler) outcome"
where
  "SuspensionImpl_wakeUp cur k lc s =
     (case map_of (sc_suspended s) k of
        None \<Rightarrow> Throw UndefinedBehavior
      | Some i \<Rightarrow> assert_that (si_visible i)
          (if \<not> si_wakeMe i then
             obind (lc_ready (si_handle i) lc) (\<lambda>lc'.
               assert_that (si_scheduler i)
                 (obind (wakeUp cur (sus_set k (i\<lparr>si_wakeMe := True, si_visible := False, si_scheduler := False\<rparr>) s))
                   (\<lambda>s'. Ok (lc', s'))))
           else Ok (lc, s)))"

definition SuspensionImpl_cancel :: "bool \<Rightarrow> coro_handle \<Rightarrow> Scheduler \<Rightarrow> Scheduler outcome" where
  "SuspensionImpl_cancel cur k s =
     (case map_of (sc_suspended s) k of
        None \<Rightarrow> Throw UndefinedBehavior
      | Some i \<Rightarrow> assert_that (si_visible i)
          (if \<not> si_wakeMe i then
             assert_that (si_scheduler i)
               (wakeUp cur (sus_set k (i\<lparr>si_handle := NullH, si_wakeMe := True, si_visible := False,
                  si_scheduler := False\<rparr>) s))
           else Ok (sus_set k (i\<lparr>si_handle := NullH\<rparr>) s)))"

text \<open>A \<^verbatim>\<open>Suspension\<close> is its pointer \<^verbatim>\<open>_impl\<close>; the operations also return its new value.\<close>

type_synonym Suspension = "coro_handle option"

definition Suspension_handle :: "Suspension \<Rightarrow> Scheduler \<Rightarrow> coro_handle outcome" where
  "Suspension_handle sus s =
     (case sus of
        None \<Rightarrow> Ok NullH
      | Some k \<Rightarrow> (case map_of (sc_suspended s) k of None \<Rightarrow> Throw UndefinedBehavior | Some i \<Rightarrow> Ok (si_handle i)))"

definition Suspension_wakeUp ::
  "bool \<Rightarrow> Suspension \<Rightarrow> lifecycle \<Rightarrow> Scheduler \<Rightarrow> (Suspension \<times> lifecycle \<times> Scheduler) outcome"
where
  "Suspension_wakeUp cur sus lc s =
     (case sus of
        None \<Rightarrow> Ok (None, lc, s)
      | Some k \<Rightarrow> obind (SuspensionImpl_wakeUp cur k lc s) (\<lambda>(lc', s'). Ok (None, lc', s')))"

definition Suspension_cancel :: "bool \<Rightarrow> Suspension \<Rightarrow> Scheduler \<Rightarrow> (Suspension \<times> Scheduler) outcome" where
  "Suspension_cancel cur sus s =
     (case sus of
        None \<Rightarrow> Ok (None, s)
      | Some k \<Rightarrow> obind (SuspensionImpl_cancel cur k s) (\<lambda>s'. Ok (None, s')))"

definition Suspension_move :: "Suspension \<Rightarrow> Suspension \<times> Suspension" where
  "Suspension_move s = (s, None)"

definition Suspension_assign :: "Suspension \<Rightarrow> Suspension \<Rightarrow> Suspension \<times> Suspension" where
  "Suspension_assign this s = (s, this)"

definition Suspension_destruct :: "bool \<Rightarrow> Suspension \<Rightarrow> Scheduler \<Rightarrow> Scheduler outcome" where
  "Suspension_destruct cur sus s =
     (if sus \<noteq> None then obind (Suspension_cancel cur sus s) (\<lambda>(_, s'). Ok s') else Ok s)"

subsection \<open>Awaiters of the scheduler\<close>

text \<open>\<^verbatim>\<open>SchedAwaiter\<close>: awaiting a scheduler moves the coroutine to its thread.\<close>

definition SchedAwaiter_await_ready :: "bool \<Rightarrow> bool" where
  "SchedAwaiter_await_ready cur = cur"

definition SchedAwaiter_await_suspend ::
  "bool \<Rightarrow> thread \<Rightarrow> nat \<Rightarrow> coro_handle \<Rightarrow> lifecycle \<Rightarrow> Scheduler \<Rightarrow> (coro_handle \<times> lifecycle \<times> Scheduler) outcome"
where
  "SchedAwaiter_await_suspend cur t self h lc s =
     obind (lc_suspendingTo t h ''Scheduler'' (Some self) NullH lc) (\<lambda>(next, lc').
       obind (adopt cur h s) (\<lambda>s'. Ok (next, lc', s')))"

definition SchedAwaiter_await_resume :: "bool \<Rightarrow> unit outcome" where
  "SchedAwaiter_await_resume cur = assert_that cur (Ok ())"

text \<open>\<^verbatim>\<open>Yielder\<close>, on the current scheduler; its state is the handle it stores.\<close>

definition Yielder_await_suspend ::
  "thread \<Rightarrow> coro_handle \<Rightarrow> lifecycle \<Rightarrow> Scheduler \<Rightarrow> (coro_handle \<times> coro_handle \<times> lifecycle \<times> Scheduler) outcome"
where
  "Yielder_await_suspend t h lc s =
     obind (sched_yield True h s) (\<lambda>(n, s').
       obind (lc_yieldingTo t h n False lc) (\<lambda>(next, lc'). Ok (next, h, lc', s')))"

definition Yielder_await_resume :: "coro_handle \<Rightarrow> Scheduler \<Rightarrow> (coro_handle \<times> Scheduler) outcome" where
  "Yielder_await_resume hnd s = obind (resumed True hnd s) (\<lambda>s'. Ok (NullH, s'))"

definition Yielder_destruct :: "coro_handle \<Rightarrow> Scheduler \<Rightarrow> Scheduler outcome" where
  "Yielder_destruct hnd s = (if hnd \<noteq> NullH then destroying True hnd s else Ok s)"

text \<open>The destructor of every coroutine's promise, \<^verbatim>\<open>~CoroutineImplBase\<close>.\<close>

definition CoroutineImplBase_destruct ::
  "thread \<Rightarrow> coro_handle \<Rightarrow> lifecycle \<Rightarrow> Scheduler \<Rightarrow> (lifecycle \<times> Scheduler) outcome"
where
  "CoroutineImplBase_destruct t h lc s = obind (destroying True h s) (\<lambda>s'.
     obind (lc_ended t (isReady h s') (isWaiting h s') h lc) (\<lambda>lc'. Ok (lc', s')))"

subsection \<open>Invariant\<close>

definition entry_ok :: "coro_handle \<times> SuspensionImpl \<Rightarrow> bool" where
  "entry_ok e \<longleftrightarrow> (case e of (k, i) \<Rightarrow> k \<noteq> NullH \<and> si_handle i \<in> {k, NullH}
     \<and> (si_handle i = NullH \<longrightarrow> si_wakeMe i)
     \<and> si_visible i = (\<not> si_wakeMe i) \<and> si_scheduler i = (\<not> si_wakeMe i))"

text \<open>
  Nothing is both ready and suspended or twice in either; a suspension that has not been woken is
  visible and knows its scheduler; if one has been woken then the scheduler has been told; a scheduler
  with suspended coroutines has an event loop to wake.
\<close>

definition sched_inv :: "Scheduler \<Rightarrow> bool" where
  "sched_inv s \<longleftrightarrow> distinct (sc_ready s) \<and> NullH \<notin> set (sc_ready s) \<and> distinct (map fst (sc_suspended s))
     \<and> list_all entry_ok (sc_suspended s)
     \<and> (\<forall>k \<in> set (sc_ready s). \<forall>i. (k, i) \<notin> set (sc_suspended s))
     \<and> (list_ex (\<lambda>(_, i). si_wakeMe i) (sc_suspended s) \<longrightarrow> sc_woke s)
     \<and> (sc_suspended s \<noteq> [] \<longrightarrow> sc_eventLoop s \<noteq> None)"

lemma isReady_iff [simp]: "isReady h s \<longleftrightarrow> h \<in> set (sc_ready s)"
  by (auto simp: isReady_def list_ex_iff)

lemma isWaiting_iff [simp]: "isWaiting h s \<longleftrightarrow> (\<exists>i. (h, i) \<in> set (sc_suspended s))"
  by (force simp: isWaiting_def map_of_eq_None_iff simp flip: not_None_eq)

lemma scan_wakers_eq:
  "scan_wakers es = (map (\<lambda>e. si_handle (snd e)) (filter (\<lambda>e. si_wakeMe (snd e) \<and> si_handle (snd e) \<noteq> NullH) es),
     filter (\<lambda>e. \<not> si_wakeMe (snd e)) es)"
  by (induction es rule: scan_wakers.induct) (auto simp: Let_def split: prod.splits)

definition wakers :: "Scheduler \<Rightarrow> coro_handle list" where
  "wakers s = map fst (filter (\<lambda>e. si_wakeMe (snd e) \<and> si_handle (snd e) \<noteq> NullH) (sc_suspended s))"

lemma scheduleWakers_woke [simp]: "\<not> sc_woke (scheduleWakers s)"
  by (induction s rule: scheduleWakers.induct) (subst scheduleWakers.simps, simp)

lemma scheduleWakers_eq:
  assumes "sched_inv s"
  shows "scheduleWakers s = s\<lparr>sc_woke := False, sc_ready := sc_ready s @ wakers s,
     sc_suspended := filter (\<lambda>e. \<not> si_wakeMe (snd e)) (sc_suspended s)\<rparr>"
proof (cases "sc_woke s")
  case True
  have "map (\<lambda>e. si_handle (snd e)) (filter (\<lambda>e. si_wakeMe (snd e) \<and> si_handle (snd e) \<noteq> NullH) (sc_suspended s)) = wakers s"
    using assms unfolding wakers_def sched_inv_def
    by (intro map_cong refl) (auto simp: list_all_iff entry_ok_def)
  with True show ?thesis
    by (subst scheduleWakers.simps, simp, subst scheduleWakers.simps) (simp add: scan_wakers_eq)
next
  case False
  then have w: "\<forall>e \<in> set (sc_suspended s). \<not> si_wakeMe (snd e)"
    using assms by (fastforce simp: sched_inv_def list_ex_iff)
  then have "wakers s = []" by (auto simp: wakers_def filter_empty_conv)
  moreover have "filter (\<lambda>e. \<not> si_wakeMe (snd e)) (sc_suspended s) = sc_suspended s"
    using w by (simp add: filter_id_conv)
  ultimately show ?thesis using False by (subst scheduleWakers.simps) simp
qed

lemma wakers_suspended: "set (wakers s) \<subseteq> fst ` set (sc_suspended s)"
  by (auto simp: wakers_def)

lemma scheduleWakers_inv:
  assumes "sched_inv s"
  shows "sched_inv (scheduleWakers s)"
proof -
  have d: "distinct (map fst (filter P (sc_suspended s)))" for P
    using assms by (simp add: sched_inv_def distinct_map_filter)
  have disj: "fst e \<notin> set (wakers s)" if "e \<in> set (sc_suspended s)" "\<not> si_wakeMe (snd e)" for e
  proof
    assume "fst e \<in> set (wakers s)"
    then obtain e' where e': "e' \<in> set (sc_suspended s)" "si_wakeMe (snd e')" "fst e' = fst e"
      by (auto simp: wakers_def)
    then have "e = e'" using assms that(1) unfolding sched_inv_def distinct_map by (metis inj_onD)
    with e' that show False by simp
  qed
  have r: "distinct (sc_ready s @ wakers s)" "NullH \<notin> set (sc_ready s @ wakers s)"
    using assms d wakers_suspended [of s] unfolding sched_inv_def
    by (auto simp: wakers_def list_all_iff entry_ok_def)
  show ?thesis using assms d r disj unfolding scheduleWakers_eq [OF assms]
    by (fastforce simp: sched_inv_def list_all_iff list_ex_iff)
qed

lemma sched_inv_sus_set:
  assumes "sched_inv s" "entry_ok (k, i)" "si_wakeMe i \<longrightarrow> woke" "sc_woke s \<longrightarrow> woke"
  shows "sched_inv ((sus_set k i s)\<lparr>sc_woke := woke\<rparr>)"
proof -
  let ?f = "\<lambda>(k', i'). if k' = k then (k, i) else (k', i')"
  have f: "distinct (map fst (map ?f (sc_suspended s)))"
  proof -
    have "map fst (map ?f es) = map fst es" for es by (induction es) auto
    then show ?thesis using assms(1) by (simp only: sched_inv_def)
  qed
  have r: "\<forall>k' \<in> set (sc_ready s). \<forall>i'. (k', i') \<notin> set (map ?f (sc_suspended s))"
    using assms(1) by (fastforce simp: sched_inv_def split: if_splits)
  have "list_all entry_ok (map ?f (sc_suspended s))"
    using assms(1,2) by (auto simp: sched_inv_def list_all_iff)
  moreover have "list_ex (\<lambda>(_, i). si_wakeMe i) (map ?f (sc_suspended s)) \<longrightarrow> woke"
    using assms by (fastforce simp: sched_inv_def list_ex_iff split: if_splits)
  ultimately show ?thesis using assms(1) f r unfolding sched_inv_def sus_set_def by (simp del: map_map)
qed

lemma sched_inv_loop: "sched_inv s \<Longrightarrow> el \<noteq> None \<Longrightarrow> sched_inv (s\<lparr>sc_eventLoop := el\<rparr>)"
  by (simp add: sched_inv_def)

lemma wakeUp_Ok:
  assumes "wakeUp cur s = Ok s'"
  shows "\<exists>el. s' = s\<lparr>sc_woke := True, sc_eventLoop := el\<rparr> \<and> (sc_eventLoop s \<noteq> None \<longrightarrow> el \<noteq> None)"
proof (cases "sc_woke s")
  case True
  with assms show ?thesis by (intro exI [of _ "sc_eventLoop s"]) (simp add: wakeUp_def)
next
  case False
  with assms show ?thesis
    by (auto simp: wakeUp_def wakeUp_loop_def split: if_splits option.splits
        intro: exI [of _ "sc_eventLoop s"])
qed

lemma wakeUp_succeeds: "sc_eventLoop s \<noteq> None \<Longrightarrow> \<exists>s'. wakeUp cur s = Ok s'"
  by (auto simp: wakeUp_def wakeUp_loop_def)

lemma sched_inv_entry:
  assumes "sched_inv s" "map_of (sc_suspended s) k = Some i"
  shows "entry_ok (k, i)" "si_wakeMe i \<Longrightarrow> sc_woke s"
proof -
  have "(k, i) \<in> set (sc_suspended s)" using assms(2) by (rule map_of_SomeD)
  then show "entry_ok (k, i)" "si_wakeMe i \<Longrightarrow> sc_woke s" using assms(1)
    by (auto simp: sched_inv_def list_all_iff list_ex_iff)
qed

lemma sched_inv_wake_set:
  assumes "sched_inv s" "wakeUp cur (sus_set k i s) = Ok s'" "entry_ok (k, i)" "sc_suspended s \<noteq> []"
  shows "sched_inv s'"
proof -
  obtain el where el: "s' = (sus_set k i s)\<lparr>sc_woke := True, sc_eventLoop := el\<rparr>"
      "sc_eventLoop (sus_set k i s) \<noteq> None \<longrightarrow> el \<noteq> None"
    using wakeUp_Ok [OF assms(2)] by blast
  have "sc_eventLoop s \<noteq> None" using assms(1,4) by (simp add: sched_inv_def)
  then have "el \<noteq> None" using el(2) by (simp add: sus_set_def)
  then have "sched_inv (((sus_set k i s)\<lparr>sc_woke := True\<rparr>)\<lparr>sc_eventLoop := el\<rparr>)"
    using sched_inv_sus_set [OF assms(1,3)] by (intro sched_inv_loop) simp_all
  with el(1) show ?thesis by simp
qed

lemma SuspensionImpl_wakeUp_inv:
  assumes "sched_inv s" "SuspensionImpl_wakeUp cur k lc s = Ok (lc', s')"
  shows "sched_inv s'"
proof -
  obtain i where i: "map_of (sc_suspended s) k = Some i" "si_visible i"
    using assms(2) by (auto simp: SuspensionImpl_wakeUp_def assert_that_eq_Ok split: option.splits)
  then have ne: "sc_suspended s \<noteq> []" by auto
  from sched_inv_entry(1) [OF assms(1) i(1)] i assms show ?thesis
    by (auto simp: SuspensionImpl_wakeUp_def assert_that_eq_Ok obind_eq_Ok split: if_splits
        elim!: sched_inv_wake_set [OF _ _ _ ne]) (auto simp: entry_ok_def)
qed

lemma SuspensionImpl_cancel_inv:
  assumes "sched_inv s" "SuspensionImpl_cancel cur k s = Ok s'"
  shows "sched_inv s'"
proof -
  obtain i where i: "map_of (sc_suspended s) k = Some i" "si_visible i"
    using assms(2) by (auto simp: SuspensionImpl_cancel_def assert_that_eq_Ok split: option.splits)
  then have ne: "sc_suspended s \<noteq> []" by auto
  have "\<not> si_wakeMe i" using sched_inv_entry(1) [OF assms(1) i(1)] i(2) by (simp add: entry_ok_def)
  with sched_inv_entry(1) [OF assms(1) i(1)] i assms show ?thesis
    by (auto simp: SuspensionImpl_cancel_def assert_that_eq_Ok obind_eq_Ok
        elim!: sched_inv_wake_set [OF _ _ _ ne]) (auto simp: entry_ok_def)
qed

lemma sched_inv_ready_remove: "sched_inv s \<Longrightarrow> sched_inv (s\<lparr>sc_ready := remove1 h (sc_ready s)\<rparr>)"
  using set_remove1_subset [of h "sc_ready s"] by (auto simp: sched_inv_def)

lemma destroying_inv:
  assumes "sched_inv s" "destroying cur h s = Ok s'"
  shows "sched_inv s'"
proof -
  have "sched_inv (sus_erase h s)" using assms(1)
    by (auto simp: sched_inv_def sus_erase_def list_all_iff list_ex_iff distinct_map_filter)
  moreover have "si_visible i" if "map_of (sc_suspended s) h = Some i" "\<not> si_wakeMe i" for i
    using sched_inv_entry(1) [OF assms(1) that(1)] that(2) by (simp add: entry_ok_def)
  ultimately show ?thesis using assms
    by (auto simp: destroying_def assert_that_eq_Ok obind_eq_Ok split: option.splits if_splits
        intro!: sched_inv_ready_remove)
qed

lemma suspend_inv:
  assumes "sched_inv s" "suspend cur h s = Ok (p, s')" "h \<noteq> NullH" "\<not> isWaiting h s"
  shows "sched_inv s'" "map_of (sc_suspended s') h = Some \<lparr>si_handle = h, si_scheduler = True, si_wakeMe = False, si_visible = True\<rparr>"
    "p = Some h"
proof -
  have n: "map_of (sc_suspended s) h = None" using assms(4) by (force simp: map_of_eq_None_iff)
  from assms n show "sched_inv s'"
    by (auto simp: suspend_def eventLoop_def assert_that_eq_Ok obind_eq_Ok sched_inv_def entry_ok_def
        split: option.splits prod.splits)
  from assms(2) n show "map_of (sc_suspended s') h = Some \<lparr>si_handle = h, si_scheduler = True, si_wakeMe = False, si_visible = True\<rparr>"
    "p = Some h"
    by (auto simp: suspend_def eventLoop_def assert_that_eq_Ok obind_eq_Ok split: option.splits prod.splits)
qed

lemma suspend_others:
  assumes "suspend cur h s = Ok (p, s')" "k \<noteq> h"
  shows "map_of (sc_suspended s') k = map_of (sc_suspended s) k"
proof -
  have m: "map_of (map (\<lambda>(k', i'). if k' = h then (h, i) else (k', i')) es) k = map_of es k" for i es
    using assms(2) by (induction es) auto
  show ?thesis using assms
    by (auto simp: suspend_def eventLoop_def assert_that_eq_Ok obind_eq_Ok sus_set_def m split: option.splits)
qed

lemma schedule_inv: "sched_inv s \<Longrightarrow> schedule cur h s = Ok s' \<Longrightarrow> h \<noteq> NullH \<Longrightarrow> sched_inv s'"
  by (auto simp: schedule_def assert_that_eq_Ok sched_inv_def split: if_splits)

lemma nextOr_inv: "sched_inv s \<Longrightarrow> nextOr cur d s = Ok (h, s') \<Longrightarrow> sched_inv s'"
  using scheduleWakers_inv [of s]
  by (auto simp: nextOr_def assert_that_eq_Ok Let_def sched_inv_def split: list.splits)

subsection \<open>Runs\<close>

text \<open>
  A step of the scheduler: any operation that returns. A coroutine that is scheduled or suspended
  is a real one, and only a running coroutine, which is not in the suspension table, suspends.
\<close>

inductive sched_step :: "Scheduler \<Rightarrow> Scheduler \<Rightarrow> bool" where
  schedule: "schedule cur h s = Ok s' \<Longrightarrow> h \<noteq> NullH \<Longrightarrow> sched_step s s'"
| yield: "sched_yield cur h s = Ok (n, s') \<Longrightarrow> h \<noteq> NullH \<Longrightarrow> sched_step s s'"
| resumed: "resumed cur h s = Ok s' \<Longrightarrow> sched_step s s'"
| nextOr: "nextOr cur d s = Ok (h, s') \<Longrightarrow> sched_step s s'"
| suspend: "suspend cur h s = Ok (p, s') \<Longrightarrow> h \<noteq> NullH \<Longrightarrow> \<not> isWaiting h s \<Longrightarrow> sched_step s s'"
| wakeUp: "Suspension_wakeUp cur sus lc s = Ok (sus', lc', s') \<Longrightarrow> sched_step s s'"
| cancel: "Suspension_destruct cur sus s = Ok s' \<Longrightarrow> sched_step s s'"
| destroying: "destroying cur h s = Ok s' \<Longrightarrow> sched_step s s'"
| adopt: "adopt cur h s = Ok s' \<Longrightarrow> sched_step s s'"
| useEventLoop: "useEventLoop cur el s = Ok s' \<Longrightarrow> sched_step s s'"

lemma sched_step_inv: "sched_step s s' \<Longrightarrow> sched_inv s \<Longrightarrow> sched_inv s'"
proof (induction rule: sched_step.induct)
  case (yield cur h s n s')
  then show ?case by (auto simp: sched_yield_def obind_eq_Ok dest: schedule_inv split: if_splits)
next
  case (wakeUp cur sus lc s sus' lc' s')
  then show ?case by (auto simp: Suspension_wakeUp_def obind_eq_Ok dest: SuspensionImpl_wakeUp_inv split: option.splits)
next
  case (cancel cur sus s s')
  then show ?case
    by (auto simp: Suspension_destruct_def Suspension_cancel_def obind_eq_Ok dest: SuspensionImpl_cancel_inv
        split: option.splits if_splits)
next
  case (adopt cur h s s')
  then show ?case
    by (auto simp: adopt_def onEventLoop_def eventLoop_def obind_eq_Ok assert_that_eq_Ok split: option.splits
        intro: sched_inv_loop) (auto simp: sched_inv_def)
next
  case (useEventLoop cur el s s')
  then show ?case by (auto simp: useEventLoop_def assert_that_eq_Ok sched_inv_def)
qed (auto intro: schedule_inv nextOr_inv suspend_inv(1) destroying_inv sched_inv_ready_remove
     simp: resumed_def assert_that_eq_Ok)

lemma new_Scheduler_inv: "sched_inv new_Scheduler"
  by (simp add: sched_inv_def new_Scheduler_def)

lemma reachable_inv: "sched_step\<^sup>*\<^sup>* new_Scheduler s \<Longrightarrow> sched_inv s"
  by (induction rule: rtranclp_induct) (auto intro: new_Scheduler_inv sched_step_inv)

text \<open>The ready queue, once the woken coroutines are in it, is a FIFO container.\<close>

definition ready_rep :: "Scheduler \<Rightarrow> coro_handle list \<Rightarrow> bool" where
  "ready_rep s hs \<longleftrightarrow> sched_inv s \<and> sc_ready s @ wakers s = hs"

definition schedulable :: "Scheduler \<Rightarrow> coro_handle \<Rightarrow> bool" where
  "schedulable s h \<longleftrightarrow> h \<noteq> NullH \<and> \<not> isWaiting h s \<and> \<not> isReady h s \<and> wakers s = []"

lemma wakers_scheduled [simp]: "sched_inv s \<Longrightarrow> wakers (scheduleWakers s) = []"
  by (auto simp: scheduleWakers_eq wakers_def)

lemma wakers_ready_update [simp]: "wakers (s\<lparr>sc_ready := hs\<rparr>) = wakers s"
  by (simp add: wakers_def)

lemma nextOr_pops:
  assumes "ready_rep s (h # hs)"
  shows "nextOr True d s = Ok (h, (scheduleWakers s)\<lparr>sc_ready := hs\<rparr>)"
    "ready_rep ((scheduleWakers s)\<lparr>sc_ready := hs\<rparr>) hs"
    "schedulable ((scheduleWakers s)\<lparr>sc_ready := hs\<rparr>) h"
proof -
  have inv: "sched_inv s" and r: "sc_ready (scheduleWakers s) = h # hs"
    using assms by (simp_all add: ready_rep_def scheduleWakers_eq)
  then show n: "nextOr True d s = Ok (h, (scheduleWakers s)\<lparr>sc_ready := hs\<rparr>)"
    by (simp add: nextOr_def assert_that_def)
  show "ready_rep ((scheduleWakers s)\<lparr>sc_ready := hs\<rparr>) hs"
    using nextOr_inv [OF inv n] inv by (simp add: ready_rep_def)
  show "schedulable ((scheduleWakers s)\<lparr>sc_ready := hs\<rparr>) h"
    using scheduleWakers_inv [OF inv] r inv by (auto simp: schedulable_def sched_inv_def)
qed

interpretation ready_queue: fifo ready_rep schedulable "\<lambda>s. sc_ready s = [] \<and> wakers s = []" "schedule True" "nextOr True NullH"
proof
  show "(sc_ready s = [] \<and> wakers s = []) = (xs = [])" if "ready_rep s xs" for s xs
    using that by (auto simp: ready_rep_def)
  show "\<exists>s'. schedule True x s = Ok s' \<and> ready_rep s' (xs @ [x]) \<and> (\<forall>y. schedulable s y \<and> y \<noteq> x \<longrightarrow> schedulable s' y)"
    if "ready_rep s xs" "schedulable s x" for s xs x
  proof -
    have "schedule True x s = Ok (s\<lparr>sc_ready := sc_ready s @ [x]\<rparr>)"
      using that(2) by (simp add: schedule_def schedulable_def assert_that_def)
    with that schedule_inv [of s True x] show ?thesis by (auto simp: ready_rep_def schedulable_def)
  qed
  show "\<exists>s'. nextOr True NullH s = Ok (x, s') \<and> ready_rep s' xs \<and> schedulable s' x" if "ready_rep s (x # xs)" for s x xs
    using nextOr_pops [OF that] by blast
qed

lemma wakeUp_makes_waker:
  assumes "sched_inv s" "map_of (sc_suspended s) k = Some i" "si_handle i = k"
    and "SuspensionImpl_wakeUp cur k lc s = Ok (lc', s')"
  shows "k \<in> set (wakers s')" "sc_ready s' = sc_ready s"
proof -
  have k: "(k, i) \<in> set (sc_suspended s)" using assms(2) by (rule map_of_SomeD)
  have vis: "si_visible i" "\<not> si_wakeMe i" "k \<noteq> NullH"
    using assms sched_inv_entry(1) [OF assms(1,2)]
    by (auto simp: SuspensionImpl_wakeUp_def assert_that_eq_Ok entry_ok_def)
  let ?i = "i\<lparr>si_wakeMe := True, si_visible := False, si_scheduler := False\<rparr>"
  obtain el where s': "s' = (sus_set k ?i s)\<lparr>sc_woke := True, sc_eventLoop := el\<rparr>"
    using assms(2,4) vis wakeUp_Ok
    by (fastforce simp: SuspensionImpl_wakeUp_def assert_that_eq_Ok obind_eq_Ok)
  have "(k, ?i) \<in> set (sc_suspended s')" using k by (force simp: s' sus_set_def)
  then show "k \<in> set (wakers s')" using assms(3) vis by (force simp: wakers_def)
  show "sc_ready s' = sc_ready s" by (simp add: s' sus_set_def)
qed

text \<open>A coroutine that is suspended, not woken yet, and alive can be woken.\<close>

definition alive :: "lifecycle \<Rightarrow> coro_handle \<Rightarrow> bool" where
  "alive lc h \<longleftrightarrow> (\<exists>a. h = H a \<and> sCoros lc a \<noteq> None \<and> handle (info lc a) \<noteq> NullH \<and> state (info lc a) \<noteq> Ending)"

definition wakeable :: "lifecycle \<Rightarrow> Scheduler \<Rightarrow> coro_handle \<Rightarrow> bool" where
  "wakeable lc s k \<longleftrightarrow> alive lc k \<and> (\<exists>i. map_of (sc_suspended s) k = Some i \<and> si_handle i = k \<and> \<not> si_wakeMe i)"

lemma lc_ready_alive:
  assumes "alive lc h"
  shows "\<exists>lc'. lc_ready h lc = Ok lc' \<and> (\<forall>h'. alive lc h' \<longrightarrow> alive lc' h')"
proof -
  obtain a where a: "h = H a" "sCoros lc a \<noteq> None" "handle (info lc a) \<noteq> NullH" "state (info lc a) \<noteq> Ending"
    using assms by (auto simp: alive_def)
  then show ?thesis
    by (cases "state (info lc a) = Active")
       (auto simp: lc_ready_def getInfo_def getInfoIter_def lc_mark_ready_def assert_that_def alive_def info_upd)
qed

lemma map_of_sus_set:
  "map_of (sc_suspended (sus_set k i s)) k' =
     (if k' = k \<and> map_of (sc_suspended s) k \<noteq> None then Some i else map_of (sc_suspended s) k')"
proof -
  have "map_of (map (\<lambda>(k', i'). if k' = k then (k, i) else (k', i')) es) k' =
     (if k' = k \<and> map_of es k \<noteq> None then Some i else map_of es k')" for es
    by (induction es) auto
  then show ?thesis by (simp add: sus_set_def)
qed

lemma set_wakers:
  assumes "sched_inv s"
  shows "set (wakers s) = {k. \<exists>i. map_of (sc_suspended s) k = Some i \<and> si_wakeMe i \<and> si_handle i \<noteq> NullH}"
proof -
  have "distinct (map fst (sc_suspended s))" using assms by (simp add: sched_inv_def)
  then show ?thesis by (force simp: wakers_def dest: map_of_SomeD)
qed

lemma wakeUp_wakeable:
  assumes "sched_inv s" "wakeable lc s k"
  shows "\<exists>lc' s'. Suspension_wakeUp cur (Some k) lc s = Ok (None, lc', s') \<and> sched_inv s'
     \<and> set (wakers s') = insert k (set (wakers s)) \<and> sc_ready s' = sc_ready s
     \<and> (\<forall>k'. wakeable lc s k' \<and> k' \<noteq> k \<longrightarrow> wakeable lc' s' k')
     \<and> (\<forall>h. alive lc h \<longrightarrow> alive lc' h)"
proof -
  obtain i where i: "map_of (sc_suspended s) k = Some i" "si_handle i = k" "\<not> si_wakeMe i" "alive lc k"
    using assms(2) by (auto simp: wakeable_def)
  have e: "si_visible i" "si_scheduler i" "k \<noteq> NullH"
    using sched_inv_entry(1) [OF assms(1) i(1)] i(3) by (auto simp: entry_ok_def)
  let ?s = "sus_set k (i\<lparr>si_wakeMe := True, si_visible := False, si_scheduler := False\<rparr>) s"
  obtain lc' where lc': "lc_ready k lc = Ok lc'" "\<forall>h. alive lc h \<longrightarrow> alive lc' h"
    using lc_ready_alive [OF i(4)] by blast
  have "sc_eventLoop s \<noteq> None" using assms(1) i(1) by (auto simp: sched_inv_def)
  then obtain s' where w: "wakeUp cur ?s = Ok s'" using wakeUp_succeeds [of ?s cur] by (auto simp: sus_set_def)
  have ok: "SuspensionImpl_wakeUp cur k lc s = Ok (lc', s')"
    using i e lc'(1) w by (simp add: SuspensionImpl_wakeUp_def assert_that_def)
  have inv: "sched_inv s'" by (rule SuspensionImpl_wakeUp_inv [OF assms(1) ok])
  obtain el where s': "s' = ?s\<lparr>sc_woke := True, sc_eventLoop := el\<rparr>" using wakeUp_Ok [OF w] by blast
  then have m: "map_of (sc_suspended s') k' = (if k' = k then Some (i\<lparr>si_wakeMe := True, si_visible := False, si_scheduler := False\<rparr>)
      else map_of (sc_suspended s) k')" for k'
    using map_of_sus_set [of k _ s k'] i(1) by simp
  have "set (wakers s') = insert k (set (wakers s))"
    using i e by (auto simp: set_wakers [OF inv] set_wakers [OF assms(1)] m)
  moreover have "\<forall>k'. wakeable lc s k' \<and> k' \<noteq> k \<longrightarrow> wakeable lc' s' k'" using lc'(2) by (auto simp: wakeable_def m)
  ultimately show ?thesis using ok inv lc'(2) s' by (simp add: Suspension_wakeUp_def sus_set_def)
qed

text \<open>A coroutine that runs on thread \<open>t\<close> can suspend.\<close>

definition running :: "lifecycle \<Rightarrow> thread \<Rightarrow> coro_handle \<Rightarrow> bool" where
  "running lc t h \<longleftrightarrow> (\<exists>a. h = H a \<and> sCoros lc a \<noteq> None \<and> handle (info lc a) = H a \<and> state (info lc a) = Active
     \<and> tCurrent lc t = Some a)"

lemma running_alive: "running lc t h \<Longrightarrow> alive lc h"
  by (auto simp: running_def alive_def)

lemma running_not_null: "running lc t h \<Longrightarrow> h \<noteq> NullH"
  by (auto simp: running_def)

lemma lc_suspend_null:
  assumes "lc_suspendingTo t h ty to NullH lc = Ok (n, lc')"
  shows "n = NoopH" "\<forall>h'. alive lc h' \<longrightarrow> alive lc' h'" "alive lc' h"
  using assms
  by (auto simp: lc_suspendingTo_def lc_switching_def switchCurrent_def isNoop_def alive_def lc_oks Let_def info_upd
      split: if_splits)

lemma running_suspends: "running lc t h \<Longrightarrow> \<exists>lc'. lc_suspendingTo t h ty to NullH lc = Ok (NoopH, lc')"
  by (auto simp: running_def lc_suspendingTo_def lc_switching_def switchCurrent_def isNoop_def getInfo_def getInfoIter_def
      assertCurrent_def assert_that_def Let_def info_upd)

lemma running_ready: "running lc t h \<Longrightarrow> lc_ready h lc = Ok lc"
  by (auto simp: running_def lc_ready_def getInfo_def getInfoIter_def)

lemma suspend_succeeds:
  assumes "sched_inv s" "h \<noteq> NullH" "\<not> isWaiting h s" "\<not> isReady h s"
  shows "\<exists>s'. suspend True h s = Ok (Some h, s') \<and> sched_inv s' \<and> wakers s' = wakers s \<and> sc_ready s' = sc_ready s
    \<and> (\<forall>lc. alive lc h \<longrightarrow> wakeable lc s' h) \<and> (\<forall>lc k. wakeable lc s k \<longrightarrow> wakeable lc s' k)"
proof -
  have n: "map_of (sc_suspended s) h = None" using assms(3) by (force simp: map_of_eq_None_iff)
  then obtain s' where s': "suspend True h s = Ok (Some h, s')" "wakers s' = wakers s" "sc_ready s' = sc_ready s"
    using assms(4) by (cases "sc_eventLoop s") (auto simp: suspend_def eventLoop_def assert_that_def wakers_def)
  note sus = suspend_inv [OF assms(1) s'(1) assms(2,3)]
  have "wakeable lc s' k" if "wakeable lc s k" for lc k
    using that suspend_others [OF s'(1), of k] n by (cases "k = h") (auto simp: wakeable_def)
  then show ?thesis using s' sus by (auto simp: wakeable_def)
qed

text \<open>
  C18. In every state the scheduler can reach: no coroutine is twice in the ready queue, or ready and
  suspended at once; a suspension that has not been woken is visible and attached to the scheduler;
  when one has been woken, \<^verbatim>\<open>_woke\<close> is set; and there is an event loop if anything is suspended.
\<close>

theorem scheduler_invariant:
  assumes "sched_step\<^sup>*\<^sup>* new_Scheduler s"
  shows "sched_inv s"
  by (rule reachable_inv [OF assms])

theorem scheduler_invariant_witness:
  "\<exists>s. sched_step\<^sup>*\<^sup>* new_Scheduler s \<and> isWaiting (H 1) s \<and> isReady (H 2) s \<and> sched_inv s"
proof -
  obtain p s1 where s1: "suspend True (H 1) new_Scheduler = Ok (p, s1)" "isWaiting (H 1) s1" "\<not> isWaiting (H 2) s1" "sc_ready s1 = []"
    by (auto simp: suspend_def eventLoop_def assert_that_def new_Scheduler_def)
  then have 1: "sched_step new_Scheduler s1" by (auto intro: sched_step.suspend simp: new_Scheduler_def)
  obtain s2 where s2: "schedule True (H 2) s1 = Ok s2" "isWaiting (H 1) s2" "isReady (H 2) s2"
    using s1 by (auto simp: schedule_def assert_that_def)
  then have 2: "sched_step\<^sup>*\<^sup>* new_Scheduler s2"
    using 1 sched_step.schedule [OF s2(1)] by (auto intro: converse_rtranclp_into_rtranclp)
  from scheduler_invariant [OF this] 2 s2 show ?thesis by blast
qed

text \<open>
  C10. Waking a suspended coroutine gets it resumed: after \<^verbatim>\<open>wakeUp\<close>, from any thread, a bounded number of
  calls of \<^verbatim>\<open>nextOr\<close> return the coroutines that were ready before, in their order, and then every woken
  coroutine exactly once, the one just woken among them.
\<close>

theorem wakeUp_gets_resumed:
  assumes "sched_inv s" "map_of (sc_suspended s) k = Some i" "si_handle i = k"
    and "SuspensionImpl_wakeUp cur k lc s = Ok (lc', s')"
  shows "\<exists>hs s''. pop_n (nextOr True NullH) (length (sc_ready s) + length hs) s' = Ok (sc_ready s @ hs, s'')
     \<and> k \<in> set hs \<and> distinct (sc_ready s @ hs) \<and> sc_ready s'' = []"
proof -
  have inv: "sched_inv s'" by (rule SuspensionImpl_wakeUp_inv [OF assms(1,4)])
  note w = wakeUp_makes_waker [OF assms]
  have rep: "ready_rep s' (sc_ready s @ wakers s')" using inv w(2) by (simp add: ready_rep_def)
  obtain s'' where "pop_n (nextOr True NullH) (length (sc_ready s @ wakers s')) s' = Ok (sc_ready s @ wakers s', s'')" "ready_rep s'' []"
    using ready_queue.pop_n_rep [of s' "sc_ready s @ wakers s'" "[]"] rep by auto
  moreover have "distinct (sc_ready s @ wakers s')"
    using scheduleWakers_inv [OF inv] w(2) by (simp add: scheduleWakers_eq [OF inv] sched_inv_def)
  ultimately show ?thesis using w(1) by (intro exI [of _ "wakers s'"]) (auto simp: ready_rep_def)
qed

definition one_suspended :: Scheduler where
  "one_suspended = \<lparr>sc_ready = [H 2], sc_suspended = [(H 1, \<lparr>si_handle = H 1, si_scheduler = True, si_wakeMe = False, si_visible = True\<rparr>)],
     sc_eventLoop = Some newEventLoop, sc_woke = False, sc_ownsEventLoop = True\<rparr>"

definition one_awaiting :: lifecycle where
  "one_awaiting = \<lparr>sLastSequence = 1, sCoros = [1 \<mapsto> (new_coroInfo (H 1) 1)\<lparr>state := Awaiting\<rparr>], sKeys = [1],
     tCurrent = \<lambda>_. None\<rparr>"

lemma one_suspended_wakes: "\<exists>lc s'. SuspensionImpl_wakeUp False (H 1) one_awaiting one_suspended = Ok (lc, s')"
  by (simp add: SuspensionImpl_wakeUp_def lc_ready_def lc_mark_ready_def getInfo_def getInfoIter_def info_def new_coroInfo_def
      wakeUp_def wakeUp_loop_def sus_set_def assert_that_def one_awaiting_def one_suspended_def)

theorem wakeUp_gets_resumed_witness:
  "\<exists>lc lc' s' hs s''. SuspensionImpl_wakeUp False (H 1) lc one_suspended = Ok (lc', s')
     \<and> pop_n (nextOr True NullH) (1 + length hs) s' = Ok (H 2 # hs, s'') \<and> H 1 \<in> set hs"
proof -
  have inv: "sched_inv one_suspended" by (simp add: one_suspended_def sched_inv_def entry_ok_def newEventLoop_def)
  obtain lc lc' s' where w: "SuspensionImpl_wakeUp False (H 1) lc one_suspended = Ok (lc', s')"
    using one_suspended_wakes by blast
  from wakeUp_gets_resumed [OF inv _ _ this] w show ?thesis by (fastforce simp: one_suspended_def)
qed

lemma destroying_correct_parts:
  assumes "sched_inv s"
  shows "destroying True h s =
    (if \<exists>i. map_of (sc_suspended s) h = Some i \<and> \<not> si_wakeMe i then Throw Terminated
     else Ok (s\<lparr>sc_suspended := filter (\<lambda>e. fst e \<noteq> h) (sc_suspended s), sc_ready := remove1 h (sc_ready s)\<rparr>))"
    "\<forall>s'. destroying True h s = Ok s' \<longrightarrow> \<not> isReady h s' \<and> \<not> isWaiting h s' \<and> sched_inv s'"
proof -
  have f: "filter (\<lambda>(k', _). k' \<noteq> h) es = filter (\<lambda>e. fst e \<noteq> h) es" for es :: "(coro_handle \<times> SuspensionImpl) list"
    by (auto intro: filter_cong)
  have id: "filter (\<lambda>e. fst e \<noteq> h) (sc_suspended s) = sc_suspended s" if "map_of (sc_suspended s) h = None"
    using that by (force simp: map_of_eq_None_iff filter_id_conv)
  have vis: "si_visible i" if "map_of (sc_suspended s) h = Some i" "\<not> si_wakeMe i" for i
    using sched_inv_entry(1) [OF assms that(1)] that(2) by (simp add: entry_ok_def)
  show eq: "destroying True h s =
    (if \<exists>i. map_of (sc_suspended s) h = Some i \<and> \<not> si_wakeMe i then Throw Terminated
     else Ok (s\<lparr>sc_suspended := filter (\<lambda>e. fst e \<noteq> h) (sc_suspended s), sc_ready := remove1 h (sc_ready s)\<rparr>))"
    using vis id by (cases "map_of (sc_suspended s) h")
      (auto simp: destroying_def assert_that_def sus_erase_def f)
  have d: "distinct (sc_ready s)" using assms by (simp add: sched_inv_def)
  show "\<forall>s'. destroying True h s = Ok s' \<longrightarrow> \<not> isReady h s' \<and> \<not> isWaiting h s' \<and> sched_inv s'"
  proof (intro allI impI)
    fix s' assume s': "destroying True h s = Ok s'"
    then have "sched_inv s'" by (rule destroying_inv [OF assms])
    moreover have "s' = s\<lparr>sc_suspended := filter (\<lambda>e. fst e \<noteq> h) (sc_suspended s), sc_ready := remove1 h (sc_ready s)\<rparr>"
      using s' eq by (simp split: if_splits)
    ultimately show "\<not> isReady h s' \<and> \<not> isWaiting h s' \<and> sched_inv s'" using d by simp
  qed
qed

text \<open>
  Telling the scheduler that a coroutine is about to be destroyed takes it out of the scheduler
  completely, and so the assertions of \<^verbatim>\<open>lifecycle::ended\<close> about it hold. It fails exactly if the
  coroutine is suspended and its suspension was neither woken nor cancelled; the branch that clears the
  handle of such an entry is never taken.
\<close>

theorem destroying_correct:
  assumes "sched_inv s"
  shows "(destroying True h s =
    (if \<exists>i. map_of (sc_suspended s) h = Some i \<and> \<not> si_wakeMe i then Throw Terminated
     else Ok (s\<lparr>sc_suspended := filter (\<lambda>e. fst e \<noteq> h) (sc_suspended s), sc_ready := remove1 h (sc_ready s)\<rparr>)))
    \<and> (\<forall>s'. destroying True h s = Ok s' \<longrightarrow> \<not> isReady h s' \<and> \<not> isWaiting h s' \<and> sched_inv s')"
  by (rule conjI [OF destroying_correct_parts(1) [OF assms] destroying_correct_parts(2) [OF assms]])

theorem destroying_correct_witness:
  "sched_inv one_suspended \<and> destroying True (H 1) one_suspended = Throw Terminated
   \<and> (\<exists>s'. destroying True (H 2) one_suspended = Ok s' \<and> \<not> isReady (H 2) s')"
proof -
  have inv: "sched_inv one_suspended" by (simp add: one_suspended_def sched_inv_def entry_ok_def newEventLoop_def)
  then show ?thesis using destroying_correct [OF inv, of "H 1"] destroying_correct [OF inv, of "H 2"]
    by (simp add: one_suspended_def)
qed

end
