(* ===== verification/WakeRace.thy ===== *)
theory WakeRace
  imports Scheduler
begin

text \<open>
  The hand-over between threads of \<^verbatim>\<open>Suspension::wakeUp\<close>, which may run on any thread, and
  \<^verbatim>\<open>Scheduler::scheduleWakers\<close> on the scheduler's thread, at the grain of their atomic operations. A waker
  sets \<^verbatim>\<open>_wakeMe\<close>, then writes \<^verbatim>\<open>_visible\<close> and \<^verbatim>\<open>_scheduler\<close> of the entry, then sets \<^verbatim>\<open>_woke\<close>. The scheduler clears
  \<^verbatim>\<open>_woke\<close> and visits the entries one by one. The steps of any number of wakers interleave with it.
\<close>

record race =
  rs_entries :: "(coro_handle \<times> SuspensionImpl) list"
  rs_woke :: bool
  rs_ready :: "coro_handle list"
  rs_marked :: "coro_handle list"
  rs_telling :: "coro_handle list"
  rs_scan :: "coro_handle list option"

definition race_init :: race where
  "race_init = \<lparr>rs_entries = [], rs_woke = False, rs_ready = [], rs_marked = [], rs_telling = [], rs_scan = None\<rparr>"

definition set_entry :: "coro_handle \<Rightarrow> SuspensionImpl \<Rightarrow> (coro_handle \<times> SuspensionImpl) list \<Rightarrow> (coro_handle \<times> SuspensionImpl) list" where
  "set_entry k i es = map (\<lambda>(k', i'). if k' = k then (k, i) else (k', i')) es"

text \<open>
  A waker, \<^verbatim>\<open>SuspensionImpl::wakeUp\<close>, in three parts: the \<^verbatim>\<open>test_and_set\<close> that returned false, the plain writes to the
  entry, and \<^verbatim>\<open>sched->wakeUp()\<close>.
\<close>

inductive waker_step :: "race \<Rightarrow> race \<Rightarrow> bool" where
  mark: "map_of (rs_entries r) k = Some i \<Longrightarrow> si_visible i \<Longrightarrow> \<not> si_wakeMe i \<Longrightarrow>
    waker_step r (r\<lparr>rs_entries := set_entry k (i\<lparr>si_wakeMe := True\<rparr>) (rs_entries r), rs_marked := k # rs_marked r\<rparr>)"
| unhook: "k \<in> set (rs_marked r) \<Longrightarrow> map_of (rs_entries r) k = Some i \<Longrightarrow>
    waker_step r (r\<lparr>rs_entries := set_entry k (i\<lparr>si_visible := False, si_scheduler := False\<rparr>) (rs_entries r),
      rs_marked := remove1 k (rs_marked r), rs_telling := k # rs_telling r\<rparr>)"
| tell: "k \<in> set (rs_telling r) \<Longrightarrow>
    waker_step r (r\<lparr>rs_woke := True, rs_telling := remove1 k (rs_telling r)\<rparr>)"

text \<open>The loops of \<^verbatim>\<open>scheduleWakers\<close>: \<^verbatim>\<open>_woke.exchange\<close> that returned true, the visit of one entry, the end of the pass.\<close>

inductive scan_step :: "race \<Rightarrow> race \<Rightarrow> bool" where
  scan_begin: "rs_scan r = None \<Longrightarrow> rs_woke r \<Longrightarrow>
    scan_step r (r\<lparr>rs_woke := False, rs_scan := Some (map fst (rs_entries r))\<rparr>)"
| scan_visit: "rs_scan r = Some (k # ks) \<Longrightarrow> map_of (rs_entries r) k = Some i \<Longrightarrow>
    scan_step r (if si_wakeMe i
      then r\<lparr>rs_ready := (if si_handle i \<noteq> NullH then rs_ready r @ [si_handle i] else rs_ready r),
             rs_entries := filter (\<lambda>e. fst e \<noteq> k) (rs_entries r), rs_scan := Some ks\<rparr>
      else r\<lparr>rs_scan := Some ks\<rparr>)"
| scan_end: "rs_scan r = Some [] \<Longrightarrow> scan_step r (r\<lparr>rs_scan := None\<rparr>)"

text \<open>The interleaving. The scheduler's thread suspends and runs coroutines only outside that loop.\<close>

inductive race_step :: "race \<Rightarrow> race \<Rightarrow> bool" where
  suspend: "rs_scan r = None \<Longrightarrow> k \<noteq> NullH \<Longrightarrow> k \<notin> fst ` set (rs_entries r) \<Longrightarrow>
    race_step r (r\<lparr>rs_entries := (k, \<lparr>si_handle = k, si_scheduler = True, si_wakeMe = False, si_visible = True\<rparr>) # rs_entries r\<rparr>)"
| waker: "waker_step r r' \<Longrightarrow> race_step r r'"
| scan: "scan_step r r' \<Longrightarrow> race_step r r'"
| run: "rs_scan r = None \<Longrightarrow> rs_ready r = h # hs \<Longrightarrow> race_step r (r\<lparr>rs_ready := hs\<rparr>)"

text \<open>A woken entry is still going to be noticed.\<close>

definition noticed :: "race \<Rightarrow> coro_handle \<Rightarrow> bool" where
  "noticed r k \<longleftrightarrow> rs_woke r \<or> k \<in> set (rs_marked r) \<or> k \<in> set (rs_telling r)
     \<or> (\<exists>ks. rs_scan r = Some ks \<and> k \<in> set ks)"

definition race_inv :: "race \<Rightarrow> bool" where
  "race_inv r \<longleftrightarrow> distinct (map fst (rs_entries r))
     \<and> (\<forall>k i. (k, i) \<in> set (rs_entries r) \<longrightarrow> si_wakeMe i \<longrightarrow> noticed r k)
     \<and> (\<forall>ks. rs_scan r = Some ks \<longrightarrow> set ks \<subseteq> fst ` set (rs_entries r) \<and> distinct ks)"

lemma fst_set_entry [simp]: "map fst (set_entry k i es) = map fst es"
  by (induction es) (auto simp: set_entry_def)

lemma set_entry_keys [simp]: "fst ` set (set_entry k i es) = fst ` set es"
  using fst_set_entry [of k i es] by (metis set_map)

lemma in_set_entry: "(k', i') \<in> set (set_entry k i es) \<Longrightarrow> (k' = k \<and> i' = i) \<or> (k' \<noteq> k \<and> (k', i') \<in> set es)"
  by (auto simp: set_entry_def split: if_splits)

lemma race_invI:
  assumes "distinct (map fst (rs_entries r))"
    "\<And>k i. (k, i) \<in> set (rs_entries r) \<Longrightarrow> si_wakeMe i \<Longrightarrow> noticed r k"
    "\<And>ks. rs_scan r = Some ks \<Longrightarrow> set ks \<subseteq> fst ` set (rs_entries r) \<and> distinct ks"
  shows "race_inv r"
  using assms by (simp add: race_inv_def)

lemma race_invD:
  assumes "race_inv r"
  shows "distinct (map fst (rs_entries r))"
    "(k, i) \<in> set (rs_entries r) \<Longrightarrow> si_wakeMe i \<Longrightarrow> noticed r k"
    "rs_scan r = Some ks \<Longrightarrow> set ks \<subseteq> fst ` set (rs_entries r)" "rs_scan r = Some ks \<Longrightarrow> distinct ks"
  using assms by (simp_all add: race_inv_def)

lemma waker_step_inv: "waker_step r r' \<Longrightarrow> race_inv r \<Longrightarrow> race_inv r'"
proof (induction rule: waker_step.induct)
  case (mark r k i)
  note inv = race_invD [OF mark.prems]
  show ?case by (rule race_invI) (use inv in \<open>auto simp: noticed_def dest!: in_set_entry\<close>)
next
  case (unhook k r i)
  note inv = race_invD [OF unhook.prems]
  have m: "k' \<in> set (rs_marked r) \<Longrightarrow> k' \<noteq> k \<Longrightarrow> k' \<in> set (remove1 k (rs_marked r))" for k' by simp
  show ?case by (rule race_invI) (use inv m in \<open>auto simp: noticed_def dest!: in_set_entry; blast\<close>)+
next
  case (tell k r)
  note inv = race_invD [OF tell.prems]
  show ?case by (rule race_invI) (use inv in \<open>auto simp: noticed_def\<close>)
qed

lemma scan_step_inv: "scan_step r r' \<Longrightarrow> race_inv r \<Longrightarrow> race_inv r'"
proof (induction rule: scan_step.induct)
  case (scan_begin r)
  note inv = race_invD [OF scan_begin.prems]
  show ?case by (rule race_invI) (use inv(1) in \<open>force simp: noticed_def\<close>)+
next
  case (scan_visit r k ks i)
  note inv = race_invD [OF scan_visit.prems]
  have i: "i' = i" if "(k, i') \<in> set (rs_entries r)" for i'
    using map_of_is_SomeI [OF inv(1) that] scan_visit(2) by simp
  show ?case
  proof (rule race_invI)
    fix k' i' assume "(k', i') \<in> set (rs_entries (if si_wakeMe i
      then r\<lparr>rs_ready := (if si_handle i \<noteq> NullH then rs_ready r @ [si_handle i] else rs_ready r),
             rs_entries := filter (\<lambda>e. fst e \<noteq> k) (rs_entries r), rs_scan := Some ks\<rparr>
      else r\<lparr>rs_scan := Some ks\<rparr>))" and w: "si_wakeMe i'"
    then have "(k', i') \<in> set (rs_entries r)" "k' \<noteq> k" using i by (auto split: if_splits)
    with inv(2) [of k' i'] w scan_visit(1) show "noticed (if si_wakeMe i
      then r\<lparr>rs_ready := (if si_handle i \<noteq> NullH then rs_ready r @ [si_handle i] else rs_ready r),
             rs_entries := filter (\<lambda>e. fst e \<noteq> k) (rs_entries r), rs_scan := Some ks\<rparr>
      else r\<lparr>rs_scan := Some ks\<rparr>) k'" by (auto simp: noticed_def)
  qed (use inv(1,3,4) scan_visit(1) in \<open>force simp: distinct_map_filter split: if_splits\<close>)+
next
  case (scan_end r)
  note inv = race_invD [OF scan_end.prems]
  show ?case by (rule race_invI) (use inv scan_end in \<open>auto simp: noticed_def\<close>)
qed

lemma race_step_inv: "race_step r r' \<Longrightarrow> race_inv r \<Longrightarrow> race_inv r'"
proof (induction rule: race_step.induct)
  case (suspend r k)
  note inv = race_invD [OF suspend.prems]
  show ?case by (rule race_invI) (use suspend inv(1,2) in \<open>auto simp: noticed_def\<close>)
next
  case (run r h hs)
  note inv = race_invD [OF run.prems]
  show ?case by (rule race_invI) (use inv in \<open>auto simp: noticed_def\<close>)
qed (auto intro: waker_step_inv scan_step_inv)

lemma race_init_inv: "race_inv race_init"
  by (simp add: race_init_def race_inv_def)

lemma race_reachable_inv: "race_step\<^sup>*\<^sup>* race_init r \<Longrightarrow> race_inv r"
  by (induction rule: rtranclp_induct) (auto intro: race_step_inv race_init_inv)

lemma no_lost_wakeup_parts:
  assumes "race_step\<^sup>*\<^sup>* race_init r"
  shows "(k, i) \<in> set (rs_entries r) \<longrightarrow> si_wakeMe i \<longrightarrow> noticed r k"
    "rs_scan r = None \<and> \<not> rs_woke r \<and> rs_marked r = [] \<and> rs_telling r = [] \<longrightarrow>
       list_all (\<lambda>e. \<not> si_wakeMe (snd e)) (rs_entries r)"
  using race_reachable_inv [OF assms] by (auto simp: race_inv_def noticed_def list_all_iff)

text \<open>Two coroutines suspend, are woken, and the first waker announces itself.\<close>

definition race_woken :: race where
  "race_woken = \<lparr>rs_entries =
      [(H 2, \<lparr>si_handle = H 2, si_scheduler = True, si_wakeMe = True, si_visible = True\<rparr>),
       (H 1, \<lparr>si_handle = H 1, si_scheduler = False, si_wakeMe = True, si_visible = False\<rparr>)],
     rs_woke = True, rs_ready = [], rs_marked = [H 2], rs_telling = [], rs_scan = None\<rparr>"

lemma race_woken_reachable: "race_step\<^sup>*\<^sup>* race_init race_woken"
proof -
  define e where "e k sched vis woke = (H k, \<lparr>si_handle = H k, si_scheduler = sched, si_wakeMe = woke, si_visible = vis\<rparr>)"
    for k sched vis woke
  define st where "st es w m tl = \<lparr>rs_entries = es, rs_woke = w, rs_ready = [], rs_marked = m, rs_telling = tl, rs_scan = None\<rparr>"
    for es w m tl
  have "race_step race_init (st [e 1 True True False] False [] [])"
    using race_step.suspend [of race_init "H 1"] by (simp add: race_init_def st_def e_def)
  moreover have "race_step (st [e 1 True True False] False [] []) (st [e 2 True True False, e 1 True True False] False [] [])"
    using race_step.suspend [of "st [e 1 True True False] False [] []" "H 2"] by (simp add: st_def e_def)
  moreover have "race_step (st [e 2 True True False, e 1 True True False] False [] []) (st [e 2 True True False, e 1 True True True] False [H 1] [])"
    using race_step.waker [OF waker_step.mark [of "st [e 2 True True False, e 1 True True False] False [] []" "H 1"]] by (simp add: st_def e_def set_entry_def)
  moreover have "race_step (st [e 2 True True False, e 1 True True True] False [H 1] []) (st [e 2 True True False, e 1 False False True] False [] [H 1])"
    using race_step.waker [OF waker_step.unhook [of "H 1" "st [e 2 True True False, e 1 True True True] False [H 1] []"]] by (simp add: st_def e_def set_entry_def)
  moreover have "race_step (st [e 2 True True False, e 1 False False True] False [] [H 1]) (st [e 2 True True False, e 1 False False True] True [] [])"
    using race_step.waker [OF waker_step.tell [of "H 1" "st [e 2 True True False, e 1 False False True] False [] [H 1]"]] by (simp add: st_def e_def)
  moreover have "race_step (st [e 2 True True False, e 1 False False True] True [] []) race_woken"
    using race_step.waker [OF waker_step.mark [of "st [e 2 True True False, e 1 False False True] True [] []" "H 2"]]
    by (simp add: st_def e_def set_entry_def race_woken_def)
  ultimately show ?thesis by (meson rtranclp.rtrancl_refl converse_rtranclp_into_rtranclp)
qed

text \<open>
  C9. No wake-up is lost, however the wakers interleave with the scheduler: in every reachable
  state, a suspended coroutine whose \<^verbatim>\<open>_wakeMe\<close> is set will still be noticed, because \<^verbatim>\<open>_woke\<close> is set, its
  waker is on the way to setting it, or the running pass has yet to visit it. So when the scheduler
  has stopped scanning, \<^verbatim>\<open>_woke\<close> is clear and no waker is under way, nothing woken is left behind.
\<close>

theorem no_lost_wakeup:
  assumes "race_step\<^sup>*\<^sup>* race_init r"
  shows "((k, i) \<in> set (rs_entries r) \<longrightarrow> si_wakeMe i \<longrightarrow> noticed r k)
    \<and> (rs_scan r = None \<and> \<not> rs_woke r \<and> rs_marked r = [] \<and> rs_telling r = [] \<longrightarrow>
       list_all (\<lambda>e. \<not> si_wakeMe (snd e)) (rs_entries r))"
  by (rule conjI [OF no_lost_wakeup_parts(1) [OF assms] no_lost_wakeup_parts(2) [OF assms]])

theorem no_lost_wakeup_witness:
  "race_step\<^sup>*\<^sup>* race_init race_woken \<and> (\<exists>i. (H 1, i) \<in> set (rs_entries race_woken) \<and> si_wakeMe i) \<and> noticed race_woken (H 1)"
  using race_woken_reachable no_lost_wakeup [OF race_woken_reachable, of "H 1"]
  by (fastforce simp: race_woken_def)

text \<open>
  C35. A waker can be overtaken: between its \<^verbatim>\<open>test_and_set\<close> and its writes to the entry, the scheduler,
  told by another waker, can find the entry woken, resume its coroutine and erase the entry, so that the
  waker goes on to write to and read \<^verbatim>\<open>_scheduler\<close> from a freed \<^verbatim>\<open>SuspensionImpl\<close>.
\<close>

theorem waker_overtaken:
  "\<exists>r k. race_step\<^sup>*\<^sup>* race_init r \<and> k \<in> set (rs_marked r) \<and> k \<in> set (rs_ready r) \<and> map_of (rs_entries r) k = None"
proof -
  let ?r = "race_woken\<lparr>rs_woke := False, rs_scan := Some [H 1], rs_ready := [H 2],
     rs_entries := [(H 1, \<lparr>si_handle = H 1, si_scheduler = False, si_wakeMe = True, si_visible = False\<rparr>)]\<rparr>"
  have "race_step race_woken (race_woken\<lparr>rs_woke := False, rs_scan := Some [H 2, H 1]\<rparr>)"
    using race_step.scan [OF scan_step.scan_begin [of race_woken]] by (simp add: race_woken_def)
  moreover have "race_step (race_woken\<lparr>rs_woke := False, rs_scan := Some [H 2, H 1]\<rparr>) ?r"
    using race_step.scan [OF scan_step.scan_visit [of "race_woken\<lparr>rs_woke := False, rs_scan := Some [H 2, H 1]\<rparr>" "H 2" "[H 1]"]]
    by (simp add: race_woken_def)
  ultimately have "race_step\<^sup>*\<^sup>* race_init ?r"
    using race_woken_reachable by (meson rtranclp.rtrancl_into_rtrancl)
  then show ?thesis by (intro exI [of _ ?r] exI [of _ "H 2"]) (simp add: race_woken_def)
qed

end
