(* ===== verification/LinkedList.thy ===== *)
theory LinkedList
  imports Errors Fifo
begin

text \<open>
  The intrusive doubly-linked circular list of \<^verbatim>\<open>include/crouton/util/LinkedList.hh\<close>, over an explicit
  store: a link is an address, \<open>prv\<close> and \<open>nxt\<close> are the fields \<^verbatim>\<open>_prev\<close> and \<^verbatim>\<open>_next\<close> of every link, and \<open>None\<close>
  is the null pointer. A list is the address of its \<^verbatim>\<open>_head\<close>. Dereferencing null is
  \<open>UndefinedBehavior\<close>. The lemmas relate each operation to an operation on HOL lists.
\<close>

type_synonym addr = nat

record store =
  prv :: "addr \<Rightarrow> addr option"
  nxt :: "addr \<Rightarrow> addr option"

subsection \<open>Link\<close>

definition Link_inList :: "addr \<Rightarrow> store \<Rightarrow> bool" where
  "Link_inList l h \<longleftrightarrow> nxt h l \<noteq> None"

definition set_prev :: "addr \<Rightarrow> addr option \<Rightarrow> store \<Rightarrow> store" where
  "set_prev l p h = h\<lparr>prv := (prv h)(l := p)\<rparr>"

definition set_next :: "addr \<Rightarrow> addr option \<Rightarrow> store \<Rightarrow> store" where
  "set_next l n h = h\<lparr>nxt := (nxt h)(l := n)\<rparr>"

definition Link_remove :: "addr \<Rightarrow> store \<Rightarrow> store" where
  "Link_remove l h =
     (let h1 = (case prv h l of None \<Rightarrow> h | Some p \<Rightarrow> set_next p (nxt h l) h);
          h2 = (case nxt h1 l of None \<Rightarrow> h1 | Some n \<Rightarrow> set_prev n (prv h1 l) h1)
      in set_prev l None (set_next l None h2))"

definition Link_clear :: "addr \<Rightarrow> store \<Rightarrow> store" where
  "Link_clear l h = set_prev l None (set_next l None h)"

definition Link_clearHead :: "addr \<Rightarrow> store \<Rightarrow> store" where
  "Link_clearHead l h = set_prev l (Some l) (set_next l (Some l) h)"

text \<open>\<^verbatim>\<open>replace\<close> takes the place of \<^verbatim>\<open>old\<close> in the list \<^verbatim>\<open>old\<close> is in.\<close>

definition Link_replace :: "addr \<Rightarrow> addr \<Rightarrow> store \<Rightarrow> store outcome" where
  "Link_replace l old h =
     assert_that (prv h l = None \<and> nxt h l = None)
       (case prv h old of
          None \<Rightarrow> Ok h
        | Some p \<Rightarrow>
            (let h1 = set_prev l (Some p) h;
                 h2 = set_next l (nxt h1 old) h1;
                 h3 = set_next p (Some l) h2
             in case nxt h3 l of
                  None \<Rightarrow> Throw UndefinedBehavior
                | Some n \<Rightarrow> Ok (Link_clear old (set_prev n (Some l) h3))))"

definition Link_insertAfter :: "addr \<Rightarrow> addr \<Rightarrow> store \<Rightarrow> store outcome" where
  "Link_insertAfter l other h =
     (let h0 = Link_remove l h;
          h1 = set_prev l (Some other) h0;
          h2 = set_next l (nxt h1 other) h1;
          h3 = set_next other (Some l) h2
      in case nxt h3 l of
           None \<Rightarrow> Throw UndefinedBehavior
         | Some n \<Rightarrow> Ok (set_prev n (Some l) h3))"

definition Link_assign :: "addr \<Rightarrow> addr \<Rightarrow> store \<Rightarrow> store outcome" where
  "Link_assign l old h = (if l \<noteq> old then Link_replace l old (Link_remove l h) else Ok h)"

subsection \<open>LinkList\<close>

definition LinkList_init :: "addr \<Rightarrow> store \<Rightarrow> store" where
  "LinkList_init head h = Link_clearHead head h"

definition LinkList_empty :: "addr \<Rightarrow> store \<Rightarrow> bool" where
  "LinkList_empty head h \<longleftrightarrow> nxt h head = Some head"

definition deref :: "addr option \<Rightarrow> addr outcome" where
  "deref p = (case p of None \<Rightarrow> Throw UndefinedBehavior | Some a \<Rightarrow> Ok a)"

definition LinkList_front :: "addr \<Rightarrow> store \<Rightarrow> addr outcome" where
  "LinkList_front head h = assert_that (\<not> LinkList_empty head h) (deref (nxt h head))"

definition LinkList_back :: "addr \<Rightarrow> store \<Rightarrow> addr outcome" where
  "LinkList_back head h = assert_that (\<not> LinkList_empty head h) (deref (prv h head))"

definition LinkList_push_front :: "addr \<Rightarrow> addr \<Rightarrow> store \<Rightarrow> store outcome" where
  "LinkList_push_front head l h = Link_insertAfter l head h"

definition LinkList_push_back :: "addr \<Rightarrow> addr \<Rightarrow> store \<Rightarrow> store outcome" where
  "LinkList_push_back head l h = obind (deref (prv h head)) (\<lambda>p. Link_insertAfter l p h)"

definition LinkList_pop_front :: "addr \<Rightarrow> store \<Rightarrow> (addr \<times> store) outcome" where
  "LinkList_pop_front head h =
     assert_that (\<not> LinkList_empty head h)
       (obind (deref (nxt h head)) (\<lambda>link. Ok (link, Link_remove link h)))"

definition LinkList_erase :: "addr \<Rightarrow> store \<Rightarrow> store" where
  "LinkList_erase l h = Link_remove l h"

text \<open>The loop of \<^verbatim>\<open>clear()\<close>; not returning is \<open>None\<close>.\<close>

partial_function (option) LinkList_clear_loop :: "addr \<Rightarrow> addr \<Rightarrow> store \<Rightarrow> store outcome option" where
  "LinkList_clear_loop head link h =
     (if link = head then Some (Ok h)
      else case nxt h link of
             None \<Rightarrow> Some (Throw UndefinedBehavior)
           | Some next \<Rightarrow> LinkList_clear_loop head next (Link_clear link h))"

definition LinkList_clear :: "addr \<Rightarrow> store \<Rightarrow> store outcome option" where
  "LinkList_clear head h =
     (case nxt h head of
        None \<Rightarrow> Some (Throw UndefinedBehavior)
      | Some first \<Rightarrow>
          map_option (\<lambda>r. obind r (\<lambda>h'. Ok (Link_clearHead head h')))
            (LinkList_clear_loop head first h))"

definition LinkList_mvHead :: "addr \<Rightarrow> addr \<Rightarrow> store \<Rightarrow> store outcome" where
  "LinkList_mvHead head other h =
     assert_that (\<not> LinkList_empty other h)
       (obind (Link_assign head other h) (\<lambda>h'. Ok (Link_clearHead other h')))"

text \<open>The move constructor; \<^verbatim>\<open>_head\<close> of the new list starts with null pointers.\<close>

definition LinkList_move :: "addr \<Rightarrow> addr \<Rightarrow> store \<Rightarrow> store outcome" where
  "LinkList_move head other h =
     (let h0 = Link_clear head h
      in if LinkList_empty other h0 then Ok (Link_clearHead head h0)
         else LinkList_mvHead head other h0)"

definition LinkList_move_assign :: "addr \<Rightarrow> addr \<Rightarrow> store \<Rightarrow> store outcome option" where
  "LinkList_move_assign head other h =
     (if other \<noteq> head then
        map_option (\<lambda>r. obind r (\<lambda>h'.
            if \<not> LinkList_empty other h' then LinkList_mvHead head other h' else Ok h'))
          (LinkList_clear head h)
      else Some (Ok h))"

text \<open>Iteration from \<^verbatim>\<open>begin()\<close> to \<^verbatim>\<open>end()\<close>: the links visited, in order.\<close>

partial_function (option) LinkList_iterate :: "addr \<Rightarrow> addr \<Rightarrow> store \<Rightarrow> addr list option" where
  "LinkList_iterate head link h =
     (if link = head then Some []
      else Option.bind (nxt h link) (\<lambda>next.
             Option.bind (LinkList_iterate head next h) (\<lambda>ls. Some (link # ls))))"

subsection \<open>Abstraction to lists\<close>

fun lseg :: "store \<Rightarrow> addr \<Rightarrow> addr list \<Rightarrow> addr \<Rightarrow> bool" where
  "lseg h a [] b \<longleftrightarrow> nxt h a = Some b \<and> prv h b = Some a"
| "lseg h a (x # xs) b \<longleftrightarrow> nxt h a = Some x \<and> prv h x = Some a \<and> lseg h x xs b"

definition is_list :: "store \<Rightarrow> addr \<Rightarrow> addr list \<Rightarrow> bool" where
  "is_list h head xs \<longleftrightarrow> distinct (head # xs) \<and> lseg h head xs head"

definition detached :: "store \<Rightarrow> addr \<Rightarrow> bool" where
  "detached h l \<longleftrightarrow> prv h l = None \<and> nxt h l = None"

lemma set_prev_simps [simp]:
  "prv (set_prev l p h) = (prv h)(l := p)" "nxt (set_prev l p h) = nxt h"
  by (simp_all add: set_prev_def)

lemma set_next_simps [simp]:
  "nxt (set_next l n h) = (nxt h)(l := n)" "prv (set_next l n h) = prv h"
  by (simp_all add: set_next_def)

lemma lseg_append: "lseg h a (xs @ x # ys) b \<longleftrightarrow> lseg h a xs x \<and> lseg h x ys b"
  by (induction xs arbitrary: a) auto

lemma lseg_frame:
  assumes "\<forall>x \<in> insert a (set xs). nxt h' x = nxt h x" and "\<forall>x \<in> insert b (set xs). prv h' x = prv h x"
  shows "lseg h' a xs b = lseg h a xs b"
  using assms by (induction xs arbitrary: a) auto

lemma lseg_nxt: "lseg h a xs b \<Longrightarrow> x \<in> insert a (set xs) \<Longrightarrow> nxt h x \<noteq> None \<and> the (nxt h x) \<in> insert b (set xs)"
  by (induction xs arbitrary: a) auto

lemma lseg_prv: "lseg h a xs b \<Longrightarrow> x \<in> insert b (set xs) \<Longrightarrow> prv h x \<noteq> None \<and> the (prv h x) \<in> insert a (set xs)"
  by (induction xs arbitrary: a) auto

lemma lseg_last: "lseg h a xs b \<Longrightarrow> prv h b = Some (last (a # xs))"
  by (induction xs arbitrary: a) auto

lemma lseg_first: "lseg h a xs b \<Longrightarrow> nxt h a = Some (hd (xs @ [b]))"
  by (cases xs) auto

lemma lseg_unlink:
  assumes "lseg h a (xs @ l # ys) b" "distinct (a # xs @ l # ys)" "b \<notin> set (xs @ l # ys)"
    and "nxt h' (last (a # xs)) = Some (hd (ys @ [b]))" "prv h' (hd (ys @ [b])) = Some (last (a # xs))"
    and "\<forall>x \<in> insert a (set (xs @ ys)) - {last (a # xs)}. nxt h' x = nxt h x"
    and "\<forall>x \<in> insert b (set (xs @ ys)) - {hd (ys @ [b])}. prv h' x = prv h x"
  shows "lseg h' a (xs @ ys) b"
  using assms
proof (induction xs arbitrary: a)
  case Nil
  show ?case
  proof (cases ys)
    case Nil
    with Nil.prems show ?thesis by simp
  next
    case (Cons y zs)
    have "lseg h' y zs b = lseg h y zs b"
      by (rule lseg_frame) (use Nil.prems Cons in auto)
    with Nil.prems Cons show ?thesis by simp
  qed
next
  case (Cons x xs)
  have "x \<noteq> hd (ys @ [b])" using Cons.prems by (cases ys) auto
  moreover have "lseg h' x (xs @ ys) b"
    by (rule Cons.IH) (use Cons.prems in auto)
  moreover have "a \<noteq> last (x # xs)" using Cons.prems(2) last_in_set [of "x # xs"] by auto
  ultimately show ?case using Cons.prems by auto
qed

lemma lseg_link:
  assumes "lseg h a (xs @ ys) b" "distinct (a # xs @ ys)" "b \<notin> set (xs @ ys)"
    "l \<notin> insert a (insert b (set (xs @ ys)))"
    and "nxt h' (last (a # xs)) = Some l" "prv h' l = Some (last (a # xs))"
    and "nxt h' l = Some (hd (ys @ [b]))" "prv h' (hd (ys @ [b])) = Some l"
    and "\<forall>x \<in> insert a (set (xs @ ys)) - {last (a # xs)}. nxt h' x = nxt h x"
    and "\<forall>x \<in> insert b (set (xs @ ys)) - {hd (ys @ [b])}. prv h' x = prv h x"
  shows "lseg h' a (xs @ l # ys) b"
  using assms
proof (induction xs arbitrary: a)
  case Nil
  show ?case
  proof (cases ys)
    case Nil
    with Nil.prems show ?thesis by simp
  next
    case (Cons y zs)
    have "lseg h' y zs b = lseg h y zs b"
      by (rule lseg_frame) (use Nil.prems Cons in auto)
    with Nil.prems Cons show ?thesis by simp
  qed
next
  case (Cons x xs)
  have "x \<noteq> hd (ys @ [b])" using Cons.prems by (cases ys) auto
  moreover have "lseg h' x (xs @ l # ys) b"
    by (rule Cons.IH) (use Cons.prems in auto)
  moreover have "a \<noteq> last (x # xs)" using Cons.prems(2) last_in_set [of "x # xs"] by auto
  ultimately show ?case using Cons.prems by auto
qed

lemma is_list_empty_iff: "is_list h head xs \<Longrightarrow> LinkList_empty head h \<longleftrightarrow> xs = []"
  by (cases xs) (auto simp: is_list_def LinkList_empty_def)

lemma is_list_ends:
  assumes "is_list h head xs"
  shows "nxt h head = Some (hd (xs @ [head]))" "prv h head = Some (last (head # xs))"
  using assms lseg_first lseg_last unfolding is_list_def by blast+

lemma is_list_neighbours:
  assumes "is_list h head (xs @ l # ys)"
  shows "prv h l = Some (last (head # xs))" "nxt h l = Some (hd (ys @ [head]))"
  using assms lseg_first lseg_last unfolding is_list_def lseg_append by blast+

lemma is_list_frame:
  assumes "is_list h head xs" "\<forall>x \<in> insert head (set xs). nxt h' x = nxt h x \<and> prv h' x = prv h x"
  shows "is_list h' head xs"
  using assms lseg_frame [of head xs h' h head] by (auto simp: is_list_def)

lemma Link_remove_fields:
  assumes "prv h l = Some p" "nxt h l = Some n" "p \<noteq> l" "n \<noteq> l"
  shows "nxt (Link_remove l h) = (nxt h)(p := Some n, l := None)"
    "prv (Link_remove l h) = (prv h)(n := Some p, l := None)"
  using assms by (simp_all add: Link_remove_def Let_def)

lemma Link_remove_detached: "detached h l \<Longrightarrow> Link_remove l h = h"
  by (cases h) (auto simp: detached_def Link_remove_def Let_def set_prev_def set_next_def)

lemma Link_remove_is_list:
  assumes "is_list h head (xs @ l # ys)"
  shows "is_list (Link_remove l h) head (xs @ ys)" "detached (Link_remove l h) l"
    "\<And>a. a \<notin> insert head (set (xs @ l # ys)) \<Longrightarrow>
       nxt (Link_remove l h) a = nxt h a \<and> prv (Link_remove l h) a = prv h a"
proof -
  let ?p = "last (head # xs)" and ?n = "hd (ys @ [head])"
  have d: "distinct (head # xs @ l # ys)" using assms by (simp add: is_list_def)
  have p: "?p \<in> insert head (set xs)" by simp
  have n: "?n \<in> insert head (set ys)" by (cases ys) simp_all
  have pl: "?p \<noteq> l" and nl: "?n \<noteq> l" using p n d by auto
  note f = Link_remove_fields [OF is_list_neighbours [OF assms] pl nl]
  have "lseg (Link_remove l h) head (xs @ ys) head"
    by (rule lseg_unlink [of h _ _ l]) (use assms d pl nl in \<open>auto simp: f is_list_def\<close>)
  then show "is_list (Link_remove l h) head (xs @ ys)" using d by (auto simp: is_list_def)
  show "detached (Link_remove l h) l" by (simp add: detached_def f)
  show "nxt (Link_remove l h) a = nxt h a \<and> prv (Link_remove l h) a = prv h a"
    if "a \<notin> insert head (set (xs @ l # ys))" for a
    using that p n by (auto simp: f)
qed

lemma Link_insertAfter_is_list:
  assumes "is_list h head (xs @ ys)" "detached h l" "l \<notin> insert head (set (xs @ ys))"
  shows "\<exists>h'. Link_insertAfter l (last (head # xs)) h = Ok h' \<and> is_list h' head (xs @ l # ys)
     \<and> (\<forall>a. a \<notin> insert l (insert head (set (xs @ ys))) \<longrightarrow> nxt h' a = nxt h a \<and> prv h' a = prv h a)"
proof -
  let ?p = "last (head # xs)" and ?n = "hd (ys @ [head])"
  have d: "distinct (head # xs @ ys)" using assms by (simp add: is_list_def)
  have p: "?p \<in> insert head (set xs)" by simp
  have n: "?n \<in> insert head (set ys)" by (cases ys) simp_all
  have pn: "nxt h ?p = Some ?n"
  proof (cases xs rule: rev_cases)
    case Nil
    then show ?thesis using is_list_ends(1) [OF assms(1)] by simp
  next
    case (snoc zs z)
    then show ?thesis using is_list_neighbours(2) [of h head zs z ys] assms(1) by simp
  qed
  define h' where "h' = set_prev ?n (Some l) (set_next ?p (Some l) (set_next l (Some ?n) (set_prev l (Some ?p) h)))"
  have pl: "?p \<noteq> l" and nl: "?n \<noteq> l" using p n assms(3) by auto
  have "Link_insertAfter l ?p h = Ok h'"
    using pn pl Link_remove_detached [OF assms(2)]
    by (simp add: Link_insertAfter_def Let_def h'_def del: last.simps)
  moreover have "lseg h' head (xs @ l # ys) head"
    by (rule lseg_link [of h]) (use assms d pl nl in \<open>auto simp: h'_def is_list_def\<close>)
  ultimately show ?thesis using d assms(3) p n
    by (auto simp: is_list_def h'_def)
qed

lemma detached_not_in_list:
  assumes "is_list h head xs" "detached h l"
  shows "l \<notin> insert head (set xs)"
proof -
  have "l \<noteq> head" using is_list_ends [OF assms(1)] assms(2) by (auto simp: detached_def)
  moreover have "l \<notin> set xs"
  proof
    assume "l \<in> set xs"
    then obtain ys zs where "xs = ys @ l # zs" by (meson split_list)
    then show False using is_list_neighbours [of h head ys l zs] assms by (auto simp: detached_def)
  qed
  ultimately show ?thesis by simp
qed

lemma LinkList_push_back_is_list:
  assumes "is_list h head xs" "detached h l"
  shows "\<exists>h'. LinkList_push_back head l h = Ok h' \<and> is_list h' head (xs @ [l])
     \<and> (\<forall>a. a \<notin> insert l (insert head (set xs)) \<longrightarrow> nxt h' a = nxt h a \<and> prv h' a = prv h a)"
  using Link_insertAfter_is_list [of h head xs "[]" l] detached_not_in_list [OF assms] assms
    is_list_ends(2) [OF assms(1)]
  by (simp add: LinkList_push_back_def deref_def)

lemma LinkList_push_front_is_list:
  assumes "is_list h head xs" "detached h l"
  shows "\<exists>h'. LinkList_push_front head l h = Ok h' \<and> is_list h' head (l # xs)
     \<and> (\<forall>a. a \<notin> insert l (insert head (set xs)) \<longrightarrow> nxt h' a = nxt h a \<and> prv h' a = prv h a)"
  using Link_insertAfter_is_list [of h head "[]" xs l] detached_not_in_list [OF assms] assms
  by (simp add: LinkList_push_front_def)

lemma LinkList_pop_front_is_list:
  assumes "is_list h head (x # xs)"
  shows "LinkList_pop_front head h = Ok (x, Link_remove x h)"
    "is_list (Link_remove x h) head xs" "detached (Link_remove x h) x"
  using Link_remove_is_list [of h head "[]" x xs] is_list_ends(1) [OF assms]
    is_list_empty_iff [OF assms] assms
  by (simp_all add: LinkList_pop_front_def deref_def assert_that_def)

lemma LinkList_clear_loop_lseg:
  assumes "lseg h a xs head" "distinct (a # xs)" "head \<notin> set xs" "a \<noteq> head"
  shows "\<exists>h'. LinkList_clear_loop head a h = Some (Ok h') \<and> (\<forall>x \<in> insert a (set xs). detached h' x)
     \<and> (\<forall>x. x \<notin> insert a (set xs) \<longrightarrow> nxt h' x = nxt h x \<and> prv h' x = prv h x)"
  using assms
proof (induction xs arbitrary: a h)
  case Nil
  then show ?case
    by (subst LinkList_clear_loop.simps, simp, subst LinkList_clear_loop.simps)
       (simp add: Link_clear_def detached_def)
next
  case (Cons b xs)
  have "lseg (Link_clear a h) b xs head = lseg h b xs head"
    by (rule lseg_frame) (use Cons.prems in \<open>auto simp: Link_clear_def\<close>)
  then obtain h' where h': "LinkList_clear_loop head b (Link_clear a h) = Some (Ok h')"
      "\<forall>x \<in> insert b (set xs). detached h' x"
      "\<forall>x. x \<notin> insert b (set xs) \<longrightarrow>
         nxt h' x = nxt (Link_clear a h) x \<and> prv h' x = prv (Link_clear a h) x"
    using Cons.IH [of "Link_clear a h" b] Cons.prems by auto
  have "LinkList_clear_loop head a h = Some (Ok h')"
    using Cons.prems h'(1) by (subst LinkList_clear_loop.simps) simp
  then show ?case using h' Cons.prems by (auto simp: Link_clear_def detached_def)
qed

lemma LinkList_clear_is_list:
  assumes "is_list h head xs"
  shows "\<exists>h'. LinkList_clear head h = Some (Ok h') \<and> is_list h' head [] \<and> (\<forall>x \<in> set xs. detached h' x)
     \<and> (\<forall>a. a \<notin> insert head (set xs) \<longrightarrow> nxt h' a = nxt h a \<and> prv h' a = prv h a)"
proof (cases xs)
  case Nil
  then show ?thesis using assms
    by (simp add: LinkList_clear_def is_list_def LinkList_clear_loop.simps Link_clearHead_def)
next
  case (Cons x ys)
  then obtain h' where "LinkList_clear_loop head x h = Some (Ok h')" "\<forall>y \<in> set xs. detached h' y"
    "\<forall>y. y \<notin> set xs \<longrightarrow> nxt h' y = nxt h y \<and> prv h' y = prv h y"
    using LinkList_clear_loop_lseg [of h x ys head] assms by (auto simp: is_list_def)
  then show ?thesis using assms Cons
    by (auto simp: LinkList_clear_def is_list_def Link_clearHead_def detached_def)
qed

lemma LinkList_iterate_lseg:
  "lseg h a xs b \<Longrightarrow> b \<notin> set xs \<Longrightarrow> LinkList_iterate b (hd (xs @ [b])) h = Some xs"
proof (induction xs arbitrary: a)
  case Nil
  show ?case by (subst LinkList_iterate.simps) simp
next
  case (Cons x xs)
  then have "nxt h x = Some (hd (xs @ [b]))" by (auto dest: lseg_first)
  with Cons show ?case by (subst LinkList_iterate.simps) auto
qed

lemma lseg_retarget:
  assumes "lseg h a xs b" "distinct (a # xs)"
    and "nxt h' (last (a # xs)) = Some b'" "prv h' b' = Some (last (a # xs))"
    and "\<forall>x \<in> insert a (set xs) - {last (a # xs)}. nxt h' x = nxt h x"
    and "\<forall>x \<in> set xs. prv h' x = prv h x"
  shows "lseg h' a xs b'"
  using assms
proof (induction xs arbitrary: a)
  case Nil
  then show ?case by simp
next
  case (Cons x xs)
  have "lseg h' x xs b'" by (rule Cons.IH) (use Cons.prems in auto)
  moreover have "a \<noteq> last (x # xs)" using Cons.prems(2) last_in_set [of "x # xs"] by auto
  ultimately show ?case using Cons.prems by auto
qed

lemma LinkList_mvHead_is_list:
  assumes "is_list h other (x # xs)" "detached (Link_remove head h) head" "is_list (Link_remove head h) other (x # xs)"
  shows "\<exists>h'. LinkList_mvHead head other h = Ok h' \<and> is_list h' head (x # xs) \<and> is_list h' other []"
proof -
  let ?h = "Link_remove head h"
  define h' where "h' = Link_clearHead other (Link_clear other (set_prev x (Some head)
     (set_next (last (x # xs)) (Some head) (set_next head (Some x) (set_prev head (Some (last (x # xs))) ?h)))))"
  have d: "distinct (other # x # xs)" using assms(1) by (simp add: is_list_def)
  have fresh: "head \<notin> insert other (set (x # xs))" using detached_not_in_list assms(2,3) by blast
  have l: "last (x # xs) \<in> set (x # xs)" by (rule last_in_set) simp
  note ends = is_list_ends [OF assms(3)]
  have "LinkList_mvHead head other h = Ok h'"
    using is_list_empty_iff [OF assms(1)] assms(2) ends fresh l d
    by (auto simp: LinkList_mvHead_def Link_assign_def Link_replace_def Let_def detached_def h'_def
        assert_that_def)
  moreover have "lseg h' x xs head"
    by (rule lseg_retarget [of ?h _ _ other]) (use assms(3) d fresh l in \<open>auto simp: is_list_def h'_def
        Link_clearHead_def Link_clear_def\<close>)
  ultimately show ?thesis using d fresh l
    by (auto simp: is_list_def h'_def Link_clearHead_def Link_clear_def)
qed

lemma LinkList_move_is_list:
  assumes "is_list h other xs" "head \<notin> insert other (set xs)"
  shows "\<exists>h'. LinkList_move head other h = Ok h' \<and> is_list h' head xs \<and> is_list h' other []"
proof -
  let ?h = "Link_clear head h"
  have l: "is_list ?h other xs"
    by (rule is_list_frame [OF assms(1)]) (use assms(2) in \<open>auto simp: Link_clear_def\<close>)
  have det: "detached ?h head" by (simp add: detached_def Link_clear_def)
  show ?thesis
  proof (cases xs)
    case Nil
    with l assms(2) show ?thesis
      by (auto simp: LinkList_move_def Let_def is_list_def LinkList_empty_def Link_clearHead_def)
  next
    case (Cons x ys)
    with l det Link_remove_detached [OF det] LinkList_mvHead_is_list [of ?h other x ys head]
    show ?thesis using is_list_empty_iff [OF l] by (simp add: LinkList_move_def Let_def)
  qed
qed

lemma LinkList_move_assign_is_list:
  assumes "is_list h head ys" "is_list h other xs"
    and "insert head (set ys) \<inter> insert other (set xs) = {}"
  shows "\<exists>h'. LinkList_move_assign head other h = Some (Ok h') \<and> is_list h' head xs \<and> is_list h' other []"
proof -
  obtain h1 where h1: "LinkList_clear head h = Some (Ok h1)" "is_list h1 head []"
      "\<forall>a. a \<notin> insert head (set ys) \<longrightarrow> nxt h1 a = nxt h a \<and> prv h1 a = prv h a"
    using LinkList_clear_is_list [OF assms(1)] by blast
  have l: "is_list h1 other xs"
    by (rule is_list_frame [OF assms(2)]) (use h1(3) assms(3) in blast)
  have ne: "other \<noteq> head" using assms(3) by blast
  show ?thesis
  proof (cases xs)
    case Nil
    with l h1(1,2) is_list_empty_iff [OF l] ne show ?thesis by (simp add: LinkList_move_assign_def)
  next
    case (Cons x zs)
    have f: "\<forall>a. a \<noteq> head \<longrightarrow> nxt (Link_remove head h1) a = nxt h1 a \<and> prv (Link_remove head h1) a = prv h1 a"
      "detached (Link_remove head h1) head"
      using h1(2) by (auto simp: is_list_def Link_remove_def detached_def)
    have "is_list (Link_remove head h1) other xs"
      by (rule is_list_frame [OF l]) (use f assms(3) in blast)
    with LinkList_mvHead_is_list [of h1 other x zs head] l f(2) Cons show ?thesis
      using h1(1) ne is_list_empty_iff [OF l] by (simp add: LinkList_move_assign_def)
  qed
qed

subsection \<open>The list as a FIFO container\<close>

interpretation linked: fifo "\<lambda>h. is_list h head" detached "LinkList_empty head" "LinkList_push_back head" "LinkList_pop_front head"
  for head
proof
  show "is_list s head xs \<Longrightarrow> LinkList_empty head s \<longleftrightarrow> xs = []" for s xs
    by (rule is_list_empty_iff)
  show "\<exists>s'. LinkList_push_back head x s = Ok s' \<and> is_list s' head (xs @ [x])
      \<and> (\<forall>y. detached s y \<and> y \<noteq> x \<longrightarrow> detached s' y)" if "is_list s head xs" "detached s x" for s xs x
    using LinkList_push_back_is_list [OF that] detached_not_in_list [OF that(1)]
    by (fastforce simp: detached_def)
  show "\<exists>s'. LinkList_pop_front head s = Ok (x, s') \<and> is_list s' head xs \<and> detached s' x"
    if "is_list s head (x # xs)" for s x xs
    using LinkList_pop_front_is_list [OF that] by blast
qed

text \<open>
  C30. Links pushed to the back of a list come off its front in the order they were pushed, after
  the links that were there before; none of the operations dereferences null or fails its
  precondition, and the list is empty in the end.
\<close>

theorem LinkList_fifo:
  assumes "is_list h head xs" "distinct ys" "list_all (detached h) ys"
  shows "\<exists>h1 h2. push_all (LinkList_push_back head) ys h = Ok h1
    \<and> LinkList_iterate head (the (nxt h1 head)) h1 = Some (xs @ ys)
    \<and> pop_n (LinkList_pop_front head) (length xs + length ys) h1 = Ok (xs @ ys, h2)
    \<and> LinkList_empty head h2"
proof -
  obtain h1 where h1: "push_all (LinkList_push_back head) ys h = Ok h1" "is_list h1 head (xs @ ys)"
    using linked.push_all_rep [OF assms] by blast
  have "LinkList_iterate head (the (nxt h1 head)) h1 = Some (xs @ ys)"
    using h1(2) LinkList_iterate_lseg [of h1 head "xs @ ys" head] lseg_first
    unfolding is_list_def by fastforce
  with linked.first_in_first_out [OF assms] h1(1) show ?thesis by auto
qed

definition three_links :: store where
  "three_links = LinkList_init 0 \<lparr>prv = \<lambda>_. None, nxt = \<lambda>_. None\<rparr>"

theorem LinkList_fifo_witness:
  "is_list three_links 0 [] \<and> list_all (detached three_links) [1, 2, 3] \<and>
   (\<exists>h1 h2. push_all (LinkList_push_back 0) [1, 2, 3] three_links = Ok h1
     \<and> pop_n (LinkList_pop_front 0) (length [1, 2, 3 :: addr]) h1 = Ok ([1, 2, 3], h2))"
proof -
  have 1: "is_list three_links 0 []" "list_all (detached three_links) [1, 2, 3]"
    by (simp_all add: three_links_def is_list_def LinkList_init_def Link_clearHead_def detached_def)
  then show ?thesis using LinkList_fifo [of three_links 0 "[]" "[1, 2, 3]"] by auto
qed

text \<open>
  Moving a list onto another one clears the target's links and hands over the source's
  links in order: afterwards the target holds exactly them and the source is an empty list. The
  clearing loop ends.
\<close>

theorem LinkList_move_assign_correct:
  assumes "is_list h head ys" "is_list h other xs" "insert head (set ys) \<inter> insert other (set xs) = {}"
  shows "\<exists>h'. LinkList_move_assign head other h = Some (Ok h') \<and> is_list h' head xs \<and> is_list h' other []"
  by (rule LinkList_move_assign_is_list [OF assms])

definition two_lists :: store where
  "two_lists = \<lparr>prv = [0 \<mapsto> 1, 1 \<mapsto> 0, 5 \<mapsto> 7, 6 \<mapsto> 5, 7 \<mapsto> 6], nxt = [0 \<mapsto> 1, 1 \<mapsto> 0, 5 \<mapsto> 6, 6 \<mapsto> 7, 7 \<mapsto> 5]\<rparr>"

theorem LinkList_move_assign_witness:
  "is_list two_lists 0 [1] \<and> is_list two_lists 5 [6, 7] \<and>
   (\<exists>h'. LinkList_move_assign 0 5 two_lists = Some (Ok h') \<and> is_list h' 0 [6, 7] \<and> is_list h' 5 [])"
proof -
  have "is_list two_lists 0 [1]" "is_list two_lists 5 [6, 7]" by (simp_all add: two_lists_def is_list_def)
  then show ?thesis using LinkList_move_assign_correct [of two_lists 0 "[1]" 5 "[6, 7]"] by simp
qed

text \<open>
  \<^verbatim>\<open>push_back\<close> re-inserts a link that is elsewhere in the list, but reads \<^verbatim>\<open>_head._prev\<close> before the
  link is removed: pushing the link that is last already drops it from the list and links it to
  itself.
\<close>

lemma push_back_of_last_drops_it:
  assumes "is_list h head (xs @ [l])"
  shows "\<exists>h'. LinkList_push_back head l h = Ok h' \<and> is_list h' head xs \<and> nxt h' l = Some l"
proof -
  let ?h = "Link_remove l h"
  have r: "is_list ?h head xs" "detached ?h l" using Link_remove_is_list [of h head xs l "[]"] assms by simp_all
  have p: "prv h head = Some l" using is_list_ends(2) [OF assms] by simp
  have "is_list (set_prev l (Some l) (set_next l (Some l) (set_next l None (set_prev l (Some l) ?h)))) head xs"
    by (rule is_list_frame [OF r(1)]) (use detached_not_in_list [OF r] in auto)
  then show ?thesis using p r(2)
    by (simp add: LinkList_push_back_def deref_def Link_insertAfter_def Let_def detached_def)
qed

end
