(* ===== verification/CoCondition.thy ===== *)
theory CoCondition
  imports Scheduler LinkedList
begin

text \<open>
  Waiting for events: \<^verbatim>\<open>CoCondition\<close> and \<^verbatim>\<open>Blocker\<close> (\<^verbatim>\<open>src/CoCondition.cc\<close>, \<^verbatim>\<open>include/crouton/CoCondition.hh\<close>) and
  \<^verbatim>\<open>CoMutex\<close> (\<^verbatim>\<open>src/Coroutine.cc\<close>, \<^verbatim>\<open>include/crouton/Coroutine.hh\<close>), on top of the scheduler and, for the
  awaiters of a condition, of the intrusive list. All of it runs on the scheduler's thread except
  \<^verbatim>\<open>Blocker::notify\<close>, which takes \<open>cur\<close>.
\<close>

subsection \<open>CoCondition\<close>

text \<open>
  A condition is the head of its list of awaiters; an awaiter is a link with a \<^verbatim>\<open>_suspension\<close>. The
  world holds the links and suspensions of all awaiters, the scheduler and the lifecycles.
\<close>

record cond_world =
  cw_links :: store
  cw_suspension :: "addr \<Rightarrow> Suspension"
  cw_lc :: lifecycle
  cw_sched :: Scheduler

definition awaiter_wakeUp :: "addr \<Rightarrow> cond_world \<Rightarrow> cond_world outcome" where
  "awaiter_wakeUp a w = obind (Suspension_wakeUp True (cw_suspension w a) (cw_lc w) (cw_sched w))
     (\<lambda>(sus, lc, s). Ok (w\<lparr>cw_suspension := (cw_suspension w)(a := sus), cw_lc := lc, cw_sched := s\<rparr>))"

definition notifyOne :: "addr \<Rightarrow> cond_world \<Rightarrow> cond_world outcome" where
  "notifyOne c w =
     (if \<not> LinkList_empty c (cw_links w)
      then obind (LinkList_pop_front c (cw_links w)) (\<lambda>(a, h). awaiter_wakeUp a (w\<lparr>cw_links := h\<rparr>))
      else Ok w)"

partial_function (option) notify_loop :: "addr \<Rightarrow> addr \<Rightarrow> cond_world \<Rightarrow> cond_world outcome option" where
  "notify_loop head a w =
     (if a = head then Some (Ok w)
      else case awaiter_wakeUp a w of
             Inl e \<Rightarrow> Some (Throw e)
           | Inr w' \<Rightarrow> (case nxt (cw_links w') a of
                         None \<Rightarrow> Some (Throw UndefinedBehavior)
                       | Some n \<Rightarrow> notify_loop head n w'))"

text \<open>\<open>l\<close> is the address of the local variable \<^verbatim>\<open>awaiters\<close>, destructed at the end.\<close>

definition notifyAll :: "addr \<Rightarrow> addr \<Rightarrow> cond_world \<Rightarrow> cond_world outcome option" where
  "notifyAll c l w =
     (case LinkList_move l c (cw_links w) of
        Inl e \<Rightarrow> Some (Throw e)
      | Inr h \<Rightarrow> (case nxt h l of
          None \<Rightarrow> Some (Throw UndefinedBehavior)
        | Some first \<Rightarrow> (case notify_loop l first (w\<lparr>cw_links := h\<rparr>) of
            None \<Rightarrow> None
          | Some (Inl e) \<Rightarrow> Some (Throw e)
          | Some (Inr w') \<Rightarrow> map_option (\<lambda>r. obind r (\<lambda>h'. Ok (w'\<lparr>cw_links := h'\<rparr>))) (LinkList_clear l (cw_links w')))))"

text \<open>Assigning to \<^verbatim>\<open>_suspension\<close> swaps; the temporary is destructed with the old value.\<close>

definition awaiter_await_suspend ::
  "thread \<Rightarrow> addr \<Rightarrow> addr \<Rightarrow> coro_handle \<Rightarrow> cond_world \<Rightarrow> (coro_handle \<times> cond_world) outcome"
where
  "awaiter_await_suspend t c a h w =
     obind (suspend True h (cw_sched w)) (\<lambda>(p, s1).
       let (mine, temp) = Suspension_assign (cw_suspension w a) p in
       obind (Suspension_destruct True temp s1) (\<lambda>s2.
         obind (LinkList_push_back c a (cw_links w)) (\<lambda>links.
           obind (lc_suspendingTo t h ''CoCondition'' (Some c) NullH (cw_lc w)) (\<lambda>(next, lc).
             Ok (next, w\<lparr>cw_links := links, cw_suspension := (cw_suspension w)(a := mine), cw_lc := lc, cw_sched := s2\<rparr>)))))"

definition CoCondition_destruct :: "addr \<Rightarrow> cond_world \<Rightarrow> unit outcome" where
  "CoCondition_destruct c w = assert_that (LinkList_empty c (cw_links w)) (Ok ())"

subsection \<open>Blocker\<close>

datatype BlockerState = BInitial | BWaiting | BReady

record 'v Blocker =
  bl_state :: BlockerState
  bl_suspension :: Suspension
  bl_value :: "'v option"

definition new_Blocker :: "'v Blocker" where
  "new_Blocker = \<lparr>bl_state = BInitial, bl_suspension = None, bl_value = None\<rparr>"

definition Blocker_await_ready :: "'v Blocker \<Rightarrow> bool" where
  "Blocker_await_ready b \<longleftrightarrow> bl_state b = BReady"

text \<open>
  \<^verbatim>\<open>await_suspend\<close> in two parts: suspending the coroutine, and the \<^verbatim>\<open>compare_exchange\<close> with what follows. A
  call of \<^verbatim>\<open>notify\<close> on another thread may come between them.
\<close>

definition Blocker_suspend_begin :: "coro_handle \<Rightarrow> 'v Blocker \<Rightarrow> Scheduler \<Rightarrow> ('v Blocker \<times> Scheduler) outcome" where
  "Blocker_suspend_begin h b s = obind (suspend True h s) (\<lambda>(p, s1).
     let (mine, temp) = Suspension_assign (bl_suspension b) p in
     obind (Suspension_destruct True temp s1) (\<lambda>s2. Ok (b\<lparr>bl_suspension := mine\<rparr>, s2)))"

definition Blocker_suspend_end ::
  "thread \<Rightarrow> nat \<Rightarrow> coro_handle \<Rightarrow> 'v Blocker \<Rightarrow> lifecycle \<Rightarrow> Scheduler \<Rightarrow> (coro_handle \<times> 'v Blocker \<times> lifecycle \<times> Scheduler) outcome"
where
  "Blocker_suspend_end t self h b lc s =
     obind (if bl_state b = BInitial then Ok (b\<lparr>bl_state := BWaiting\<rparr>, lc, s)
            else assert_that (bl_state b = BReady)
              (obind (Suspension_wakeUp True (bl_suspension b) lc s) (\<lambda>(sus, lc1, s1). Ok (b\<lparr>bl_suspension := sus\<rparr>, lc1, s1))))
       (\<lambda>(b1, lc1, s1). obind (lc_suspendingTo t h ''Blocker'' (Some self) NullH lc1) (\<lambda>(next, lc2). Ok (next, b1, lc2, s1)))"

definition Blocker_await_suspend ::
  "thread \<Rightarrow> nat \<Rightarrow> coro_handle \<Rightarrow> 'v Blocker \<Rightarrow> lifecycle \<Rightarrow> Scheduler \<Rightarrow> (coro_handle \<times> 'v Blocker \<times> lifecycle \<times> Scheduler) outcome"
where
  "Blocker_await_suspend t self h b lc s =
     obind (Blocker_suspend_begin h b s) (\<lambda>(b1, s1). Blocker_suspend_end t self h b1 lc s1)"

definition BlockerBase_notify :: "bool \<Rightarrow> 'v Blocker \<Rightarrow> lifecycle \<Rightarrow> Scheduler \<Rightarrow> ('v Blocker \<times> lifecycle \<times> Scheduler) outcome" where
  "BlockerBase_notify cur b lc s =
     (if bl_state b = BWaiting
      then obind (Suspension_wakeUp cur (bl_suspension b) lc s)
        (\<lambda>(sus, lc1, s1). Ok (b\<lparr>bl_state := BReady, bl_suspension := sus\<rparr>, lc1, s1))
      else Ok (b\<lparr>bl_state := BReady\<rparr>, lc, s))"

definition Blocker_notify :: "bool \<Rightarrow> 'v \<Rightarrow> 'v Blocker \<Rightarrow> lifecycle \<Rightarrow> Scheduler \<Rightarrow> ('v Blocker \<times> lifecycle \<times> Scheduler) outcome" where
  "Blocker_notify cur v b lc s =
     assert_that (bl_value b = None) (BlockerBase_notify cur (b\<lparr>bl_value := Some v\<rparr>) lc s)"

definition Blocker_await_resume :: "'v Blocker \<Rightarrow> ('v \<times> 'v Blocker) outcome" where
  "Blocker_await_resume b = assert_that (bl_state b = BReady)
     (case bl_value b of None \<Rightarrow> Throw Terminated | Some v \<Rightarrow> Ok (v, b\<lparr>bl_value := None\<rparr>))"

definition Blocker_reset :: "'v Blocker \<Rightarrow> 'v Blocker" where
  "Blocker_reset b = b\<lparr>bl_state := BInitial\<rparr>"

subsection \<open>CoMutex\<close>

record CoMutex =
  mx_waiters :: "Suspension list"
  mx_locked :: bool

definition CoMutex_await_ready :: "CoMutex \<Rightarrow> bool \<times> CoMutex" where
  "CoMutex_await_ready m = (\<not> mx_locked m, m\<lparr>mx_locked := True\<rparr>)"

definition CoMutex_await_suspend ::
  "thread \<Rightarrow> nat \<Rightarrow> coro_handle \<Rightarrow> CoMutex \<Rightarrow> lifecycle \<Rightarrow> Scheduler \<Rightarrow> (coro_handle \<times> CoMutex \<times> lifecycle \<times> Scheduler) outcome"
where
  "CoMutex_await_suspend t self h m lc s =
     obind (suspend True h s) (\<lambda>(p, s1).
       obind (lc_suspendingTo t h ''CoMutex'' (Some self) NullH lc) (\<lambda>(next, lc1).
         Ok (next, m\<lparr>mx_waiters := mx_waiters m @ [p]\<rparr>, lc1, s1)))"

definition CoMutex_unlock :: "CoMutex \<Rightarrow> lifecycle \<Rightarrow> Scheduler \<Rightarrow> (CoMutex \<times> lifecycle \<times> Scheduler) outcome" where
  "CoMutex_unlock m lc s =
     (case mx_waiters m of
        [] \<Rightarrow> Ok (m\<lparr>mx_locked := False\<rparr>, lc, s)
      | next # rest \<Rightarrow> obind (Suspension_wakeUp True next lc s) (\<lambda>(_, lc1, s1). Ok (m\<lparr>mx_waiters := rest\<rparr>, lc1, s1)))"

subsection \<open>Conditions\<close>

text \<open>\<open>as\<close> are the awaiters of the condition in order, \<open>ks\<close> their coroutines.\<close>

definition cond_rep :: "addr \<Rightarrow> cond_world \<Rightarrow> addr list \<Rightarrow> coro_handle list \<Rightarrow> bool" where
  "cond_rep c w as ks \<longleftrightarrow> is_list (cw_links w) c as \<and> map (cw_suspension w) as = map Some ks \<and> distinct ks
     \<and> sched_inv (cw_sched w) \<and> list_all (wakeable (cw_lc w) (cw_sched w)) ks"

lemma awaiter_wakeUp_ok:
  assumes "sched_inv (cw_sched w)" "cw_suspension w a = Some k" "wakeable (cw_lc w) (cw_sched w) k"
  shows "\<exists>w'. awaiter_wakeUp a w = Ok w' \<and> cw_links w' = cw_links w \<and> sched_inv (cw_sched w')
     \<and> cw_suspension w' = (cw_suspension w)(a := None)
     \<and> set (wakers (cw_sched w')) = insert k (set (wakers (cw_sched w)))
     \<and> (\<forall>k'. wakeable (cw_lc w) (cw_sched w) k' \<and> k' \<noteq> k \<longrightarrow> wakeable (cw_lc w') (cw_sched w') k')"
  using wakeUp_wakeable [OF assms(1,3), of True] assms(2) by (auto simp: awaiter_wakeUp_def)

lemma notifyOne_rep:
  assumes "cond_rep c w (a # as) (k # ks)"
  shows "\<exists>w'. notifyOne c w = Ok w' \<and> cond_rep c w' as ks
     \<and> set (wakers (cw_sched w')) = insert k (set (wakers (cw_sched w)))"
proof -
  have l: "is_list (cw_links w) c (a # as)" and a: "cw_suspension w a = Some k" "wakeable (cw_lc w) (cw_sched w) k"
    and inv: "sched_inv (cw_sched w)"
    using assms by (auto simp: cond_rep_def)
  note pop = LinkList_pop_front_is_list [OF l]
  let ?w = "w\<lparr>cw_links := Link_remove a (cw_links w)\<rparr>"
  obtain w' where w': "awaiter_wakeUp a ?w = Ok w'" "cw_links w' = cw_links ?w" "sched_inv (cw_sched w')"
      "cw_suspension w' = (cw_suspension w)(a := None)" "set (wakers (cw_sched w')) = insert k (set (wakers (cw_sched w)))"
      "\<forall>k'. wakeable (cw_lc w) (cw_sched w) k' \<and> k' \<noteq> k \<longrightarrow> wakeable (cw_lc w') (cw_sched w') k'"
    using awaiter_wakeUp_ok [of ?w a k] a inv by auto
  have "a \<notin> set as" using l by (simp add: is_list_def)
  then have "cond_rep c w' as ks" using assms w' pop(2)
    by (auto simp: cond_rep_def list_all_iff)
  then show ?thesis using w' pop(1) is_list_empty_iff [OF l] by (auto simp: notifyOne_def)
qed

lemma notify_loop_lseg:
  assumes "lseg (cw_links w) p as l" "l \<notin> set as" "distinct as" "map (cw_suspension w) as = map Some ks" "distinct ks"
    "sched_inv (cw_sched w)" "list_all (wakeable (cw_lc w) (cw_sched w)) ks"
  shows "\<exists>w'. notify_loop l (hd (as @ [l])) w = Some (Ok w') \<and> cw_links w' = cw_links w \<and> sched_inv (cw_sched w')
     \<and> set (wakers (cw_sched w')) = set ks \<union> set (wakers (cw_sched w)) \<and> (\<forall>a \<in> set as. cw_suspension w' a = None)
     \<and> (\<forall>a. a \<notin> set as \<longrightarrow> cw_suspension w' a = cw_suspension w a)"
  using assms
proof (induction as arbitrary: p w ks)
  case Nil
  then show ?case by (subst notify_loop.simps) auto
next
  case (Cons a as)
  obtain k ks' where ks: "ks = k # ks'" using Cons.prems(4) by (cases ks) auto
  obtain w1 where w1: "awaiter_wakeUp a w = Ok w1" "cw_links w1 = cw_links w" "sched_inv (cw_sched w1)"
      "cw_suspension w1 = (cw_suspension w)(a := None)" "set (wakers (cw_sched w1)) = insert k (set (wakers (cw_sched w)))"
      "\<forall>k'. wakeable (cw_lc w) (cw_sched w) k' \<and> k' \<noteq> k \<longrightarrow> wakeable (cw_lc w1) (cw_sched w1) k'"
    using awaiter_wakeUp_ok [of w a k] Cons.prems ks by auto
  have ls: "lseg (cw_links w1) a as l" using Cons.prems(1) w1(2) by simp
  have m: "map (cw_suspension w1) as = map Some ks'"
    using Cons.prems(3,4) ks unfolding w1(4) by (simp del: fun_upd_apply)
  have wk: "list_all (wakeable (cw_lc w1) (cw_sched w1)) ks'"
    using Cons.prems(5,7) ks w1(6) by (force simp: list_all_iff)
  obtain w' where w': "notify_loop l (hd (as @ [l])) w1 = Some (Ok w')" "cw_links w' = cw_links w1" "sched_inv (cw_sched w')"
     "set (wakers (cw_sched w')) = set ks' \<union> set (wakers (cw_sched w1))" "\<forall>a \<in> set as. cw_suspension w' a = None"
     "\<forall>a. a \<notin> set as \<longrightarrow> cw_suspension w' a = cw_suspension w1 a"
    using Cons.IH [OF ls _ _ m _ w1(3) wk] Cons.prems ks by auto
  have "nxt (cw_links w1) a = Some (hd (as @ [l]))" using lseg_first [OF ls] .
  with w1(1) w'(1) have "notify_loop l a w = Some (Ok w')"
    using Cons.prems(2) by (subst notify_loop.simps) auto
  then show ?case using w' w1 ks Cons.prems(3) by auto
qed

lemma notifyAll_rep:
  assumes "cond_rep c w as ks" "l \<notin> insert c (set as)"
  shows "\<exists>w'. notifyAll c l w = Some (Ok w') \<and> cond_rep c w' [] [] \<and> (\<forall>a \<in> set as. cw_suspension w' a = None)
     \<and> set (wakers (cw_sched w')) = set ks \<union> set (wakers (cw_sched w))"
proof -
  obtain h where h: "LinkList_move l c (cw_links w) = Ok h" "is_list h l as" "is_list h c []"
    using LinkList_move_is_list assms by (fastforce simp: cond_rep_def)
  let ?w = "w\<lparr>cw_links := h\<rparr>"
  obtain w' where w': "notify_loop l (hd (as @ [l])) ?w = Some (Ok w')" "cw_links w' = h" "sched_inv (cw_sched w')"
      "set (wakers (cw_sched w')) = set ks \<union> set (wakers (cw_sched w))" "\<forall>a \<in> set as. cw_suspension w' a = None"
    using notify_loop_lseg [of ?w l as l ks] assms h(2) by (auto simp: cond_rep_def is_list_def)
  have n: "nxt h l = Some (hd (as @ [l]))" using is_list_ends(1) [OF h(2)] .
  obtain h' where h': "LinkList_clear l h = Some (Ok h')" "\<forall>a. a \<notin> insert l (set as) \<longrightarrow> nxt h' a = nxt h a \<and> prv h' a = prv h a"
    using LinkList_clear_is_list [OF h(2)] by blast
  have "c \<notin> insert l (set as)" using assms by (auto simp: cond_rep_def is_list_def)
  then have "is_list h' c []" using h'(2) by (intro is_list_frame [OF h(3)]) auto
  then show ?thesis using h(1) n w' h'(1) by (simp add: notifyAll_def cond_rep_def)
qed

lemma await_suspend_rep:
  assumes "cond_rep c w as ks" "detached (cw_links w) a" "cw_suspension w a = None" "\<not> isWaiting h (cw_sched w)" "h \<noteq> NullH"
    and "awaiter_await_suspend t c a h w = Ok (n, w')"
  shows "cond_rep c w' (as @ [a]) (ks @ [h])" "n = NoopH"
proof -
  have l: "is_list (cw_links w) c as" and inv: "sched_inv (cw_sched w)" using assms(1) by (auto simp: cond_rep_def)
  obtain p s1 where sus0: "suspend True h (cw_sched w) = Ok (p, s1)"
    using assms(6) by (auto simp: awaiter_await_suspend_def obind_eq_Ok)
  then have "p = Some h" by (rule suspend_inv(3) [OF inv _ assms(5,4)])
  then obtain links lc where ops: "suspend True h (cw_sched w) = Ok (Some h, s1)" "LinkList_push_back c a (cw_links w) = Ok links"
      "lc_suspendingTo t h ''CoCondition'' (Some c) NullH (cw_lc w) = Ok (n, lc)"
      "w' = w\<lparr>cw_links := links, cw_suspension := (cw_suspension w)(a := Some h), cw_lc := lc, cw_sched := s1\<rparr>"
    using assms(6) sus0 unfolding awaiter_await_suspend_def
    by (simp add: Suspension_assign_def Suspension_destruct_def assms(3)) (auto simp: obind_eq_Ok)
  note sus = suspend_inv [OF inv ops(1) assms(5,4)]
  have m: "map_of (sc_suspended s1) k = map_of (sc_suspended (cw_sched w)) k" if "k \<noteq> h" for k
    by (rule suspend_others [OF ops(1) that])
  note lc = lc_suspend_null [OF ops(3)]
  have hk: "h \<notin> set ks"
    using assms(1,4) by (force simp: cond_rep_def list_all_iff wakeable_def dest: map_of_SomeD)
  have "a \<notin> set as" using detached_not_in_list [OF l assms(2)] by simp
  moreover have "is_list links c (as @ [a])" using LinkList_push_back_is_list [OF l assms(2)] ops(2) by auto
  moreover have "wakeable lc s1 k" if "k \<in> set ks" for k
  proof -
    have "k \<noteq> h" using that hk by auto
    with that assms(1) lc(2) m [of k] show ?thesis by (auto simp: cond_rep_def list_all_iff wakeable_def)
  qed
  moreover have "wakeable lc s1 h" using lc(3) sus(2) by (simp add: wakeable_def)
  ultimately show "cond_rep c w' (as @ [a]) (ks @ [h])" "n = NoopH"
    using assms(1) sus(1) hk lc(1) ops(4) by (auto simp: cond_rep_def list_all_iff)
qed

text \<open>
  What the users of a condition rely on: the coroutines that wait for it, in order, and those that it
  has made ready to run.
\<close>

type_synonym cond_spec = "coro_handle list \<times> coro_handle set"

definition spec_wait :: "coro_handle \<Rightarrow> cond_spec \<Rightarrow> cond_spec" where
  "spec_wait h c = (fst c @ [h], snd c)"

definition spec_notifyOne :: "cond_spec \<Rightarrow> cond_spec" where
  "spec_notifyOne c = (case fst c of [] \<Rightarrow> c | h # hs \<Rightarrow> (hs, insert h (snd c)))"

definition spec_notifyAll :: "cond_spec \<Rightarrow> cond_spec" where
  "spec_notifyAll c = ([], set (fst c) \<union> snd c)"

definition cond_abs :: "addr \<Rightarrow> cond_world \<Rightarrow> cond_spec \<Rightarrow> bool" where
  "cond_abs c w spec \<longleftrightarrow> (\<exists>as. cond_rep c w as (fst spec)) \<and> snd spec = set (wakers (cw_sched w))"

lemma cond_rep_Nil: "cond_rep c w as ks \<Longrightarrow> ks = [] \<longleftrightarrow> as = []"
  by (auto simp: cond_rep_def)

lemma notifyOne_refines: "cond_abs c w spec \<Longrightarrow> \<exists>w'. notifyOne c w = Ok w' \<and> cond_abs c w' (spec_notifyOne spec)"
proof -
  assume "cond_abs c w spec"
  then obtain as where r: "cond_rep c w as (fst spec)" and w: "snd spec = set (wakers (cw_sched w))" by (auto simp: cond_abs_def)
  show ?thesis
  proof (cases as)
    case Nil
    then have "LinkList_empty c (cw_links w)" using r is_list_empty_iff by (fastforce simp: cond_rep_def)
    then show ?thesis using Nil r w cond_rep_Nil [OF r] by (auto simp: notifyOne_def spec_notifyOne_def cond_abs_def)
  next
    case (Cons a as')
    then obtain k ks where "fst spec = k # ks" using cond_rep_Nil [OF r] by (cases "fst spec") auto
    with notifyOne_rep [of c w a as' k ks] r w Cons show ?thesis by (auto simp: spec_notifyOne_def cond_abs_def)
  qed
qed

lemma notifyAll_refines:
  assumes "cond_abs c w spec" "\<And>as. cond_rep c w as (fst spec) \<Longrightarrow> l \<notin> insert c (set as)"
  shows "\<exists>w'. notifyAll c l w = Some (Ok w') \<and> cond_abs c w' (spec_notifyAll spec)"
proof -
  obtain as where r: "cond_rep c w as (fst spec)" and w: "snd spec = set (wakers (cw_sched w))"
    using assms(1) by (auto simp: cond_abs_def)
  show ?thesis using notifyAll_rep [OF r assms(2) [OF r]] w by (auto simp: spec_notifyAll_def cond_abs_def)
qed

lemma CoCondition_wakes_parts:
  assumes "cond_rep c w as ks"
  shows "as = a # as' \<longrightarrow> (\<exists>w'. notifyOne c w = Ok w' \<and> cond_rep c w' as' (tl ks)
           \<and> set (wakers (cw_sched w')) = insert (hd ks) (set (wakers (cw_sched w))))"
    "l \<notin> insert c (set as) \<longrightarrow> (\<exists>w'. notifyAll c l w = Some (Ok w') \<and> cond_rep c w' [] []
           \<and> (\<forall>a \<in> set as. cw_suspension w' a = None)
           \<and> set (wakers (cw_sched w')) = set ks \<union> set (wakers (cw_sched w)))"
proof -
  show "as = a # as' \<longrightarrow> (\<exists>w'. notifyOne c w = Ok w' \<and> cond_rep c w' as' (tl ks)
           \<and> set (wakers (cw_sched w')) = insert (hd ks) (set (wakers (cw_sched w))))"
    using assms notifyOne_rep [of c w a as' "hd ks" "tl ks"] by (cases ks) (auto simp: cond_rep_def)
  show "l \<notin> insert c (set as) \<longrightarrow> (\<exists>w'. notifyAll c l w = Some (Ok w') \<and> cond_rep c w' [] []
           \<and> (\<forall>a \<in> set as. cw_suspension w' a = None)
           \<and> set (wakers (cw_sched w')) = set ks \<union> set (wakers (cw_sched w)))"
    using notifyAll_rep [OF assms] by blast
qed

definition one_awaiter :: cond_world where
  "one_awaiter = \<lparr>cw_links = \<lparr>prv = [100 \<mapsto> 101, 101 \<mapsto> 100], nxt = [100 \<mapsto> 101, 101 \<mapsto> 100]\<rparr>,
     cw_suspension = [101 \<mapsto> H 1], cw_lc = one_awaiting, cw_sched = one_suspended\<rparr>"

lemma one_awaiter_rep: "cond_rep 100 one_awaiter [101] [H 1]"
  by (simp add: cond_rep_def one_awaiter_def is_list_def sched_inv_def entry_ok_def one_suspended_def newEventLoop_def
      wakeable_def alive_def one_awaiting_def info_def new_coroInfo_def)

text \<open>
  C31. A condition wakes its awaiters in the order in which they came. \<^verbatim>\<open>notifyOne\<close> wakes the first and
  leaves the others waiting; \<^verbatim>\<open>notifyAll\<close> ends, wakes every one of them, and leaves the condition empty and
  the awaiters without a suspension. Each woken coroutine is one the scheduler will resume.
\<close>

theorem CoCondition_wakes:
  assumes "cond_rep c w as ks"
  shows "(as = a # as' \<longrightarrow> (\<exists>w'. notifyOne c w = Ok w' \<and> cond_rep c w' as' (tl ks)
           \<and> set (wakers (cw_sched w')) = insert (hd ks) (set (wakers (cw_sched w)))))
    \<and> (l \<notin> insert c (set as) \<longrightarrow> (\<exists>w'. notifyAll c l w = Some (Ok w') \<and> cond_rep c w' [] []
           \<and> (\<forall>a \<in> set as. cw_suspension w' a = None)
           \<and> set (wakers (cw_sched w')) = set ks \<union> set (wakers (cw_sched w))))"
  by (rule conjI [OF CoCondition_wakes_parts(1) [OF assms] CoCondition_wakes_parts(2) [OF assms]])

theorem CoCondition_wakes_witness:
  "cond_rep 100 one_awaiter [101] [H 1]
   \<and> (\<exists>w'. notifyAll 100 102 one_awaiter = Some (Ok w') \<and> H 1 \<in> set (wakers (cw_sched w')))
   \<and> (\<exists>w'. notifyOne 100 one_awaiter = Ok w' \<and> H 1 \<in> set (wakers (cw_sched w')))"
  using one_awaiter_rep CoCondition_wakes [OF one_awaiter_rep, of 101 "[]" 102]
  by auto

subsection \<open>Blockers\<close>

lemma Blocker_delivers_parts:
  fixes b :: "'v Blocker"
  assumes "sched_inv s" "running lc t h" "\<not> isWaiting h s" "\<not> isReady h s"
    and b: "bl_state b = BInitial" "bl_suspension b = None" "bl_value b = None"
  shows "\<exists>b' lc' s'. Blocker_notify cur v b lc s = Ok (b', lc', s') \<and> Blocker_await_ready b'
      \<and> (\<exists>b''. Blocker_await_resume b' = Ok (v, b''))"
    "\<exists>b1 s1 b2 lc2 s2 b3 lc3 s3. Blocker_suspend_begin h b s = Ok (b1, s1) \<and> Blocker_notify cur v b1 lc s1 = Ok (b2, lc2, s2)
      \<and> Blocker_suspend_end t self h b2 lc2 s2 = Ok (NoopH, b3, lc3, s3) \<and> h \<in> set (wakers s3)
      \<and> (\<exists>b4. Blocker_await_resume b3 = Ok (v, b4))"
    "\<exists>b1 s1 lc1 b2 lc2 s2. Blocker_await_suspend t self h b lc s = Ok (NoopH, b1, lc1, s1) \<and> h \<notin> set (wakers s1) - set (wakers s)
      \<and> Blocker_notify cur v b1 lc1 s1 = Ok (b2, lc2, s2) \<and> h \<in> set (wakers s2)
      \<and> (\<exists>b3. Blocker_await_resume b2 = Ok (v, b3))"
proof -
  obtain s1 where s1: "suspend True h s = Ok (Some h, s1)" "sched_inv s1" "wakers s1 = wakers s"
      "\<And>lc. alive lc h \<Longrightarrow> wakeable lc s1 h"
    using suspend_succeeds [OF assms(1) running_not_null [OF assms(2)] assms(3,4)] by blast
  let ?b1 = "b\<lparr>bl_suspension := Some h\<rparr>"
  have starts: "Blocker_suspend_begin h b s = Ok (?b1, s1)"
    using s1(1) b(2) by (simp add: Blocker_suspend_begin_def Suspension_assign_def Suspension_destruct_def)
  show "\<exists>b' lc' s'. Blocker_notify cur v b lc s = Ok (b', lc', s') \<and> Blocker_await_ready b'
      \<and> (\<exists>b''. Blocker_await_resume b' = Ok (v, b''))"
    using b by (simp add: Blocker_notify_def BlockerBase_notify_def Blocker_await_ready_def Blocker_await_resume_def assert_that_def)
  have between: "Blocker_notify cur v ?b1 lc s1 = Ok (?b1\<lparr>bl_value := Some v, bl_state := BReady\<rparr>, lc, s1)"
    using b by (simp add: Blocker_notify_def BlockerBase_notify_def assert_that_def)
  obtain lc' s2 where w: "Suspension_wakeUp True (Some h) lc s1 = Ok (None, lc', s2)" "set (wakers s2) = insert h (set (wakers s1))"
    using wakeUp_wakeable [OF s1(2) s1(4) [OF running_alive [OF assms(2)]], of True] by blast
  have "lc' = lc" using w(1) running_ready [OF assms(2)] s1(4) [OF running_alive [OF assms(2)]]
    by (auto simp: wakeable_def Suspension_wakeUp_def SuspensionImpl_wakeUp_def obind_eq_Ok assert_that_eq_Ok split: option.splits if_splits)
  then obtain lc3 where "lc_suspendingTo t h ''Blocker'' (Some self) NullH lc' = Ok (NoopH, lc3)"
    using running_suspends [OF assms(2)] by blast
  then have "Blocker_suspend_end t self h (?b1\<lparr>bl_value := Some v, bl_state := BReady\<rparr>) lc s1 =
      Ok (NoopH, b\<lparr>bl_value := Some v, bl_state := BReady, bl_suspension := None\<rparr>, lc3, s2)"
    using w(1) by (simp add: Blocker_suspend_end_def assert_that_def)
  with starts between w(2) show "\<exists>b1 s1 b2 lc2 s2 b3 lc3 s3. Blocker_suspend_begin h b s = Ok (b1, s1) \<and> Blocker_notify cur v b1 lc s1 = Ok (b2, lc2, s2)
      \<and> Blocker_suspend_end t self h b2 lc2 s2 = Ok (NoopH, b3, lc3, s3) \<and> h \<in> set (wakers s3)
      \<and> (\<exists>b4. Blocker_await_resume b3 = Ok (v, b4))"
    by (auto simp: Blocker_await_resume_def assert_that_def)
  obtain lc1 where lc1: "lc_suspendingTo t h ''Blocker'' (Some self) NullH lc = Ok (NoopH, lc1)"
    using running_suspends [OF assms(2)] by blast
  then have await: "Blocker_await_suspend t self h b lc s = Ok (NoopH, ?b1\<lparr>bl_state := BWaiting\<rparr>, lc1, s1)"
    using starts b(1) by (simp add: Blocker_await_suspend_def Blocker_suspend_end_def)
  obtain lc4 s4 where w4: "Suspension_wakeUp cur (Some h) lc1 s1 = Ok (None, lc4, s4)" "set (wakers s4) = insert h (set (wakers s1))"
    using wakeUp_wakeable [OF s1(2) s1(4) [OF lc_suspend_null(3) [OF lc1]], of cur] by blast
  then have "Blocker_notify cur v (?b1\<lparr>bl_state := BWaiting\<rparr>) lc1 s1 =
      Ok (b\<lparr>bl_suspension := None, bl_state := BReady, bl_value := Some v\<rparr>, lc4, s4)"
    using b(3) by (simp add: Blocker_notify_def BlockerBase_notify_def assert_that_def)
  with await w4(2) s1(3) show "\<exists>b1 s1 lc1 b2 lc2 s2. Blocker_await_suspend t self h b lc s = Ok (NoopH, b1, lc1, s1) \<and> h \<notin> set (wakers s1) - set (wakers s)
      \<and> Blocker_notify cur v b1 lc1 s1 = Ok (b2, lc2, s2) \<and> h \<in> set (wakers s2)
      \<and> (\<exists>b3. Blocker_await_resume b2 = Ok (v, b3))"
    by (auto simp: Blocker_await_resume_def assert_that_def)
qed

definition one_running :: lifecycle where
  "one_running = \<lparr>sLastSequence = 1, sCoros = [3 \<mapsto> (new_coroInfo (H 3) 1)\<lparr>state := Active\<rparr>], sKeys = [3],
     tCurrent = (\<lambda>_. None)(0 := Some 3)\<rparr>"

lemma one_running: "running one_running 0 (H 3)"
  by (simp add: running_def one_running_def info_def new_coroInfo_def)

text \<open>
  A coroutine that awaits a \<^verbatim>\<open>Blocker\<close> gets the value, whenever \<^verbatim>\<open>notify\<close> comes. Before the await, the
  await does not block. Between the two parts of \<^verbatim>\<open>await_suspend\<close>, from another thread, or after it, the
  coroutine suspends and is made ready to run. In each case \<^verbatim>\<open>await_resume\<close> then returns the value.
\<close>

theorem Blocker_delivers:
  fixes b :: "'v Blocker"
  assumes "sched_inv s" "running lc t h" "\<not> isWaiting h s" "\<not> isReady h s"
    and b: "bl_state b = BInitial" "bl_suspension b = None" "bl_value b = None"
  shows "(\<exists>b' lc' s'. Blocker_notify cur v b lc s = Ok (b', lc', s') \<and> Blocker_await_ready b'
      \<and> (\<exists>b''. Blocker_await_resume b' = Ok (v, b'')))
    \<and> (\<exists>b1 s1 b2 lc2 s2 b3 lc3 s3. Blocker_suspend_begin h b s = Ok (b1, s1) \<and> Blocker_notify cur v b1 lc s1 = Ok (b2, lc2, s2)
      \<and> Blocker_suspend_end t self h b2 lc2 s2 = Ok (NoopH, b3, lc3, s3) \<and> h \<in> set (wakers s3)
      \<and> (\<exists>b4. Blocker_await_resume b3 = Ok (v, b4)))
    \<and> (\<exists>b1 s1 lc1 b2 lc2 s2. Blocker_await_suspend t self h b lc s = Ok (NoopH, b1, lc1, s1) \<and> h \<notin> set (wakers s1) - set (wakers s)
      \<and> Blocker_notify cur v b1 lc1 s1 = Ok (b2, lc2, s2) \<and> h \<in> set (wakers s2)
      \<and> (\<exists>b3. Blocker_await_resume b2 = Ok (v, b3)))"
  by (rule conjI [OF Blocker_delivers_parts(1) [OF assms] conjI [OF Blocker_delivers_parts(2) [OF assms] Blocker_delivers_parts(3) [OF assms]]])

theorem Blocker_delivers_witness:
  "\<exists>b1 s1 lc1 b2 lc2 s2 b3. Blocker_await_suspend 0 9 (H 3) (new_Blocker :: nat Blocker) one_running new_Scheduler = Ok (NoopH, b1, lc1, s1)
    \<and> Blocker_notify False 7 b1 lc1 s1 = Ok (b2, lc2, s2) \<and> Blocker_await_resume b2 = Ok (7, b3)"
  using Blocker_delivers [OF new_Scheduler_inv one_running, of "new_Blocker :: nat Blocker" False 7 9]
  by (auto simp: new_Scheduler_def new_Blocker_def)

subsection \<open>Mutexes\<close>

text \<open>
  Runs of coroutines over one mutex. \<open>mr_locks\<close> are the coroutines that have a \<^verbatim>\<open>Lock\<close>, \<open>mr_blocked\<close> those that are
  suspended in \<^verbatim>\<open>co_await\<close> of the mutex, in the order in which they came. A coroutine gets a \<^verbatim>\<open>Lock\<close> from
  \<^verbatim>\<open>await_resume\<close>, which runs in two cases only: \<^verbatim>\<open>await_ready\<close> returned true, or the scheduler took the suspended
  coroutine from its ready queue and resumed it. The other steps are those of other coroutines of the thread, which
  suspend, wake and schedule each other, but hold no suspension of a coroutine blocked on the mutex.
\<close>

record mutex_run =
  mr_mutex :: CoMutex
  mr_locks :: "coro_handle list"
  mr_blocked :: "coro_handle list"
  mr_lc :: lifecycle
  mr_sched :: Scheduler

inductive mutex_step :: "mutex_run \<Rightarrow> mutex_run \<Rightarrow> bool" where
  acquire: "CoMutex_await_ready (mr_mutex r) = (True, m) \<Longrightarrow>
    mutex_step r (r\<lparr>mr_mutex := m, mr_locks := h # mr_locks r\<rparr>)"
| block: "CoMutex_await_ready (mr_mutex r) = (False, m) \<Longrightarrow> h \<noteq> NullH \<Longrightarrow> \<not> isWaiting h (mr_sched r) \<Longrightarrow>
    CoMutex_await_suspend t self h m (mr_lc r) (mr_sched r) = Ok (n, m', lc', s') \<Longrightarrow>
    mutex_step r (r\<lparr>mr_mutex := m', mr_blocked := mr_blocked r @ [h], mr_lc := lc', mr_sched := s'\<rparr>)"
| unlock: "h \<in> set (mr_locks r) \<Longrightarrow> CoMutex_unlock (mr_mutex r) (mr_lc r) (mr_sched r) = Ok (m', lc', s') \<Longrightarrow>
    mutex_step r (r\<lparr>mr_mutex := m', mr_locks := remove1 h (mr_locks r), mr_lc := lc', mr_sched := s'\<rparr>)"
| resume: "nextOr True NullH (mr_sched r) = Ok (h, s') \<Longrightarrow> lc_resume t h Ok (mr_lc r) = Ok lc' \<Longrightarrow> h \<in> set (mr_blocked r) \<Longrightarrow>
    mutex_step r (r\<lparr>mr_locks := h # mr_locks r, mr_blocked := remove1 h (mr_blocked r), mr_lc := lc', mr_sched := s'\<rparr>)"
| resume_other: "nextOr True NullH (mr_sched r) = Ok (h, s') \<Longrightarrow> h \<notin> set (mr_blocked r) \<Longrightarrow>
    mutex_step r (r\<lparr>mr_sched := s'\<rparr>)"
| suspend_other: "h \<noteq> NullH \<Longrightarrow> \<not> isWaiting h (mr_sched r) \<Longrightarrow> suspend True h (mr_sched r) = Ok (p, s') \<Longrightarrow>
    mutex_step r (r\<lparr>mr_sched := s'\<rparr>)"
| wake_other: "k \<notin> set (mr_blocked r) \<Longrightarrow> wakeable (mr_lc r) (mr_sched r) k \<Longrightarrow>
    Suspension_wakeUp True (Some k) (mr_lc r) (mr_sched r) = Ok (p, lc', s') \<Longrightarrow>
    mutex_step r (r\<lparr>mr_lc := lc', mr_sched := s'\<rparr>)"
| schedule_other: "h \<noteq> NullH \<Longrightarrow> schedule True h (mr_sched r) = Ok s' \<Longrightarrow> mutex_step r (r\<lparr>mr_sched := s'\<rparr>)"
| lifecycle_other: "\<forall>k \<in> set (mr_blocked r). alive (mr_lc r) k \<longrightarrow> alive lc' k \<Longrightarrow> mutex_step r (r\<lparr>mr_lc := lc'\<rparr>)"

text \<open>The scheduler will resume the coroutine: it is in the ready queue, or is one of those that \<^verbatim>\<open>scheduleWakers\<close> puts there.\<close>

definition awake :: "Scheduler \<Rightarrow> coro_handle \<Rightarrow> bool" where
  "awake s k \<longleftrightarrow> k \<in> set (sc_ready s @ wakers s)"

text \<open>\<open>g\<close> is the coroutine that the lock has been passed to and that has not run since, \<open>ws\<close> are those that wait for the lock.\<close>

definition mutex_inv :: "mutex_run \<Rightarrow> coro_handle list \<Rightarrow> coro_handle list \<Rightarrow> bool" where
  "mutex_inv r g ws \<longleftrightarrow> mr_blocked r = g @ ws \<and> mx_waiters (mr_mutex r) = map Some ws \<and> distinct (g @ ws)
     \<and> length (mr_locks r @ g) \<le> 1 \<and> mx_locked (mr_mutex r) = (mr_locks r @ g \<noteq> []) \<and> (ws \<noteq> [] \<longrightarrow> mr_locks r @ g \<noteq> [])
     \<and> (\<forall>k \<in> set g. awake (mr_sched r) k) \<and> (\<forall>k \<in> set ws. wakeable (mr_lc r) (mr_sched r) k) \<and> sched_inv (mr_sched r)"

lemma singleton_lock: "h \<in> set xs \<Longrightarrow> length (xs @ g) \<le> 1 \<Longrightarrow> xs = [h] \<and> g = []"
  by (cases xs) auto

lemma wakeable_not_awake:
  assumes "sched_inv s" "wakeable lc s k"
  shows "\<not> awake s k"
proof -
  obtain i where i: "map_of (sc_suspended s) k = Some i" "\<not> si_wakeMe i" using assms(2) by (auto simp: wakeable_def)
  then have "k \<notin> set (wakers s)" by (simp add: set_wakers [OF assms(1)])
  moreover have "k \<notin> set (sc_ready s)" using assms(1) map_of_SomeD [OF i(1)] by (force simp: sched_inv_def)
  ultimately show ?thesis by (simp add: awake_def)
qed

lemma awake_waiting: "sched_inv s \<Longrightarrow> awake s k \<Longrightarrow> isReady k s \<or> isWaiting k s"
  using wakers_suspended [of s] by (force simp: awake_def)

lemma map_of_filter_kept: "map_of es k = Some i \<Longrightarrow> P (k, i) \<Longrightarrow> map_of (filter P es) k = Some i"
  by (induction es) (auto split: if_splits)

lemma nextOr_awake:
  assumes "sched_inv s" "nextOr True NullH s = Ok (h, s')"
  shows "sched_inv s'" "h = NullH \<or> awake s h" "awake s k \<Longrightarrow> k \<noteq> h \<Longrightarrow> awake s' k"
    "wakeable lc s k \<Longrightarrow> wakeable lc s' k"
proof -
  show "sched_inv s'" by (rule nextOr_inv [OF assms])
  have s': "sc_suspended s' = filter (\<lambda>e. \<not> si_wakeMe (snd e)) (sc_suspended s)"
      "(case sc_ready s @ wakers s of [] \<Rightarrow> h = NullH \<and> sc_ready s' = [] | x # xs \<Rightarrow> h = x \<and> sc_ready s' = xs)"
    using assms(2) by (auto simp: nextOr_def Let_def assert_that_eq_Ok scheduleWakers_eq [OF assms(1)] split: list.splits)
  then show "h = NullH \<or> awake s h" "awake s k \<Longrightarrow> k \<noteq> h \<Longrightarrow> awake s' k"
    by (cases "sc_ready s @ wakers s"; auto simp: awake_def)+
  show "wakeable lc s k \<Longrightarrow> wakeable lc s' k"
    unfolding wakeable_def s'(1) using map_of_filter_kept [of "sc_suspended s" k _ "\<lambda>e. \<not> si_wakeMe (snd e)"] by fastforce
qed

lemma suspend_awake:
  assumes "sched_inv s" "h \<noteq> NullH" "\<not> isWaiting h s" "suspend True h s = Ok (p, s')"
  shows "sched_inv s'" "p = Some h" "awake s' = awake s" "wakeable lc s k \<Longrightarrow> wakeable lc s' k" "alive lc h \<Longrightarrow> wakeable lc s' h" "\<not> isReady h s"
proof -
  show n: "\<not> isReady h s" using assms(4) by (simp add: suspend_def assert_that_eq_Ok)
  from suspend_succeeds [OF assms(1-3) n] assms(4)
  show "sched_inv s'" "p = Some h" "awake s' = awake s" "wakeable lc s k \<Longrightarrow> wakeable lc s' k" "alive lc h \<Longrightarrow> wakeable lc s' h"
    by (auto simp: awake_def fun_eq_iff)
qed

lemma wakeUp_awake:
  assumes "sched_inv s" "wakeable lc s k"
  shows "\<exists>lc' s'. Suspension_wakeUp True (Some k) lc s = Ok (None, lc', s') \<and> sched_inv s' \<and> awake s' k
    \<and> (\<forall>j. awake s j \<longrightarrow> awake s' j) \<and> (\<forall>j. wakeable lc s j \<and> j \<noteq> k \<longrightarrow> wakeable lc' s' j)"
proof -
  obtain lc' s' where "Suspension_wakeUp True (Some k) lc s = Ok (None, lc', s')" "sched_inv s'"
      "set (wakers s') = insert k (set (wakers s))" "sc_ready s' = sc_ready s"
      "\<forall>j. wakeable lc s j \<and> j \<noteq> k \<longrightarrow> wakeable lc' s' j"
    using wakeUp_wakeable [OF assms, of True] by auto
  then show ?thesis by (intro exI [of _ lc'] exI [of _ s']) (auto simp: awake_def)
qed

lemma lc_resume_alive: "lc_resume t h Ok lc = Ok lc' \<Longrightarrow> alive lc k \<Longrightarrow> alive lc' k"
  by (auto simp: lc_resume_def pushCurrent_def lc_mark_ready_def getInfo_def getInfoIter_def alive_def lc_oks info_upd
      split: if_splits option.splits coro_handle.splits)

lemma mutex_inv_sched:
  assumes "mutex_inv r g ws" "sched_inv s'" "\<And>k. k \<in> set g \<Longrightarrow> awake (mr_sched r) k \<Longrightarrow> awake s' k"
    and "\<And>k. k \<in> set ws \<Longrightarrow> wakeable (mr_lc r) (mr_sched r) k \<Longrightarrow> wakeable lc' s' k"
  shows "mutex_inv (r\<lparr>mr_lc := lc', mr_sched := s'\<rparr>) g ws"
  using assms by (simp add: mutex_inv_def)

lemma mutex_block_inv:
  assumes "mutex_inv r g ws" "CoMutex_await_ready (mr_mutex r) = (False, m)" "h \<noteq> NullH" "\<not> isWaiting h (mr_sched r)"
    and "CoMutex_await_suspend t self h m (mr_lc r) (mr_sched r) = Ok (n, m', lc', s')"
  shows "mutex_inv (r\<lparr>mr_mutex := m', mr_blocked := mr_blocked r @ [h], mr_lc := lc', mr_sched := s'\<rparr>) g (ws @ [h])"
proof -
  obtain p where p: "suspend True h (mr_sched r) = Ok (p, s')" "m' = m\<lparr>mx_waiters := mx_waiters m @ [p]\<rparr>"
      "lc_suspendingTo t h ''CoMutex'' (Some self) NullH (mr_lc r) = Ok (n, lc')"
    using assms(5) by (auto simp: CoMutex_await_suspend_def obind_eq_Ok)
  have inv: "sched_inv (mr_sched r)" using assms(1) by (simp add: mutex_inv_def)
  note sus = suspend_awake [OF inv assms(3,4) p(1)]
  note lc = lc_suspend_null [OF p(3)]
  have "h \<notin> set ws" using assms(1,4) by (force simp: mutex_inv_def wakeable_def dest: map_of_SomeD)
  moreover have "h \<notin> set g" using assms(1,4) sus(6) awake_waiting [OF inv, of h] by (auto simp: mutex_inv_def)
  moreover have "wakeable lc' s' k" if "k \<in> set ws" for k
    using that assms(1) sus(4) [of lc' k] lc(2) by (auto simp: mutex_inv_def wakeable_def)
  ultimately show ?thesis using assms(1,2) p(2) sus(1,2,3) sus(5) [OF lc(3)]
    by (auto simp: mutex_inv_def CoMutex_await_ready_def)
qed

lemma mutex_unlock_inv:
  assumes "mutex_inv r g ws" "h \<in> set (mr_locks r)"
  shows "\<exists>m' lc' s'. CoMutex_unlock (mr_mutex r) (mr_lc r) (mr_sched r) = Ok (m', lc', s')
    \<and> mutex_inv (r\<lparr>mr_mutex := m', mr_locks := remove1 h (mr_locks r), mr_lc := lc', mr_sched := s'\<rparr>) (take 1 ws) (drop 1 ws)"
proof -
  have h: "mr_locks r = [h]" "g = []" using singleton_lock [OF assms(2)] assms(1) by (auto simp: mutex_inv_def)
  show ?thesis
  proof (cases ws)
    case Nil
    then show ?thesis using assms(1) h by (auto simp: mutex_inv_def CoMutex_unlock_def)
  next
    case (Cons k ks)
    then have k: "sched_inv (mr_sched r)" "wakeable (mr_lc r) (mr_sched r) k" using assms(1) by (auto simp: mutex_inv_def)
    obtain lc' s' where w: "Suspension_wakeUp True (Some k) (mr_lc r) (mr_sched r) = Ok (None, lc', s')" "sched_inv s'" "awake s' k"
        "\<forall>j. wakeable (mr_lc r) (mr_sched r) j \<and> j \<noteq> k \<longrightarrow> wakeable lc' s' j"
      using wakeUp_awake [OF k] by blast
    then have "CoMutex_unlock (mr_mutex r) (mr_lc r) (mr_sched r) = Ok ((mr_mutex r)\<lparr>mx_waiters := map Some ks\<rparr>, lc', s')"
      using assms(1) Cons by (simp add: mutex_inv_def CoMutex_unlock_def)
    then show ?thesis using assms(1) h Cons w by (auto simp: mutex_inv_def)
  qed
qed

lemma mutex_resume_inv:
  assumes "mutex_inv r g ws" "nextOr True NullH (mr_sched r) = Ok (h, s')" "lc_resume t h Ok (mr_lc r) = Ok lc'" "h \<in> set (mr_blocked r)"
  shows "mutex_inv (r\<lparr>mr_locks := h # mr_locks r, mr_blocked := remove1 h (mr_blocked r), mr_lc := lc', mr_sched := s'\<rparr>) [] ws"
proof -
  have inv: "sched_inv (mr_sched r)" using assms(1) by (simp add: mutex_inv_def)
  note n = nextOr_awake [OF inv assms(2)]
  have "h \<noteq> NullH" using assms(3) by (auto simp: lc_resume_def getInfo_def getInfoIter_def obind_eq_Ok)
  then have "h \<notin> set ws" using n(2) wakeable_not_awake [OF inv] assms(1) by (auto simp: mutex_inv_def)
  then have g: "g = [h]" "mr_locks r = []" using assms(1,4) singleton_lock [of h g "mr_locks r"] by (auto simp: mutex_inv_def)
  have "wakeable lc' s' k" if "k \<in> set ws" for k
    using that assms(1) n(4) [of lc' k] lc_resume_alive [OF assms(3)] by (auto simp: mutex_inv_def wakeable_def)
  then show ?thesis using assms(1) g n(1) by (auto simp: mutex_inv_def)
qed

lemma mutex_step_inv: "mutex_step r r' \<Longrightarrow> mutex_inv r g ws \<Longrightarrow> \<exists>g' ws'. mutex_inv r' g' ws'"
proof (induction rule: mutex_step.induct)
  case (acquire r m h)
  then have "mutex_inv (r\<lparr>mr_mutex := m, mr_locks := h # mr_locks r\<rparr>) [] []"
    by (auto simp: mutex_inv_def CoMutex_await_ready_def)
  then show ?case by blast
next
  case (block r m h t self n m' lc' s')
  then show ?case using mutex_block_inv by blast
next
  case (unlock h r m' lc' s')
  then show ?case using mutex_unlock_inv [OF unlock.prems unlock(1)] by auto
next
  case (resume r h s' t lc')
  then show ?case using mutex_resume_inv by blast
next
  case (resume_other r h s')
  have inv: "sched_inv (mr_sched r)" using resume_other.prems by (simp add: mutex_inv_def)
  note n = nextOr_awake [OF inv resume_other(1)]
  have "mutex_inv (r\<lparr>mr_lc := mr_lc r, mr_sched := s'\<rparr>) g ws"
    by (rule mutex_inv_sched [OF resume_other.prems n(1) n(3) n(4)]) (use resume_other in \<open>auto simp: mutex_inv_def\<close>)
  then show ?case by auto
next
  case (suspend_other h r p s')
  have inv: "sched_inv (mr_sched r)" using suspend_other.prems by (simp add: mutex_inv_def)
  note n = suspend_awake [OF inv suspend_other(1-3)]
  have "mutex_inv (r\<lparr>mr_lc := mr_lc r, mr_sched := s'\<rparr>) g ws"
    by (rule mutex_inv_sched [OF suspend_other.prems n(1) _ n(4)]) (simp_all add: n(3))
  then show ?case by auto
next
  case (wake_other k r p lc' s')
  have inv: "sched_inv (mr_sched r)" using wake_other.prems by (simp add: mutex_inv_def)
  from wakeUp_awake [OF inv wake_other(2)] wake_other(3)
  have w: "sched_inv s'" "\<And>j. awake (mr_sched r) j \<Longrightarrow> awake s' j"
      "\<And>j. wakeable (mr_lc r) (mr_sched r) j \<Longrightarrow> j \<noteq> k \<Longrightarrow> wakeable lc' s' j" by auto
  have "mutex_inv (r\<lparr>mr_lc := lc', mr_sched := s'\<rparr>) g ws"
    by (rule mutex_inv_sched [OF wake_other.prems w]) (use wake_other in \<open>auto simp: mutex_inv_def\<close>)
  then show ?case by blast
next
  case (schedule_other h r s')
  have "sched_inv s'" using schedule_inv [OF _ schedule_other(2,1)] schedule_other.prems by (simp add: mutex_inv_def)
  moreover have "sc_suspended s' = sc_suspended (mr_sched r)" "set (sc_ready (mr_sched r)) \<subseteq> set (sc_ready s')"
    using schedule_other(2) by (auto simp: schedule_def assert_that_eq_Ok split: if_splits)
  ultimately have "mutex_inv (r\<lparr>mr_lc := mr_lc r, mr_sched := s'\<rparr>) g ws"
    by (intro mutex_inv_sched [OF schedule_other.prems]) (auto simp: awake_def wakeable_def wakers_def)
  then show ?case by auto
next
  case (lifecycle_other r lc')
  then have "mutex_inv (r\<lparr>mr_lc := lc'\<rparr>) g ws" by (simp add: mutex_inv_def wakeable_def)
  then show ?case by blast
qed

definition mutex_init :: "lifecycle \<Rightarrow> Scheduler \<Rightarrow> mutex_run" where
  "mutex_init lc s = \<lparr>mr_mutex = \<lparr>mx_waiters = [], mx_locked = False\<rparr>, mr_locks = [], mr_blocked = [], mr_lc = lc, mr_sched = s\<rparr>"

lemma mutex_reachable_inv:
  assumes "mutex_step\<^sup>*\<^sup>* (mutex_init lc s) r" "sched_inv s"
  shows "\<exists>g ws. mutex_inv r g ws"
  using assms
proof (induction rule: rtranclp_induct)
  case base
  then have "mutex_inv (mutex_init lc s) [] []" by (simp add: mutex_inv_def mutex_init_def)
  then show ?case by blast
next
  case (step r r')
  then show ?case using mutex_step_inv by blast
qed

lemma CoMutex_exclusive_parts:
  assumes "mutex_step\<^sup>*\<^sup>* (mutex_init lc s) r" "sched_inv s"
  shows "length (mr_locks r) \<le> 1"
    "(mx_locked (mr_mutex r) \<longleftrightarrow> mr_locks r \<noteq> [] \<or> mr_blocked r \<noteq> [])
      \<and> mx_waiters (mr_mutex r) = map Some (filter (\<lambda>k. \<not> awake (mr_sched r) k) (mr_blocked r))"
    "if mr_locks r \<noteq> [] then \<forall>k \<in> set (mr_blocked r). \<not> awake (mr_sched r) k
      else mr_blocked r \<noteq> [] \<longrightarrow> awake (mr_sched r) (hd (mr_blocked r))"
    "mr_locks r \<noteq> [] \<longrightarrow> (\<exists>m' lc' s'. CoMutex_unlock (mr_mutex r) (mr_lc r) (mr_sched r) = Ok (m', lc', s')
      \<and> (if mr_blocked r = [] then \<not> mx_locked m' else mx_locked m' \<and> awake s' (hd (mr_blocked r))))"
proof -
  obtain g ws where inv: "mutex_inv r g ws" using mutex_reachable_inv [OF assms] by blast
  then have si: "sched_inv (mr_sched r)" by (simp add: mutex_inv_def)
  have ws: "\<not> awake (mr_sched r) k" if "k \<in> set ws" for k
    using that inv wakeable_not_awake [OF si] by (auto simp: mutex_inv_def)
  show "length (mr_locks r) \<le> 1" using inv by (simp add: mutex_inv_def)
  have "filter (\<lambda>k. \<not> awake (mr_sched r) k) (mr_blocked r) = ws" using inv ws by (simp add: mutex_inv_def)
  then show "(mx_locked (mr_mutex r) \<longleftrightarrow> mr_locks r \<noteq> [] \<or> mr_blocked r \<noteq> [])
      \<and> mx_waiters (mr_mutex r) = map Some (filter (\<lambda>k. \<not> awake (mr_sched r) k) (mr_blocked r))"
    using inv by (auto simp: mutex_inv_def)
  show "if mr_locks r \<noteq> [] then \<forall>k \<in> set (mr_blocked r). \<not> awake (mr_sched r) k
      else mr_blocked r \<noteq> [] \<longrightarrow> awake (mr_sched r) (hd (mr_blocked r))"
    using inv ws by (cases "mr_locks r"; cases g) (auto simp: mutex_inv_def)
  show "mr_locks r \<noteq> [] \<longrightarrow> (\<exists>m' lc' s'. CoMutex_unlock (mr_mutex r) (mr_lc r) (mr_sched r) = Ok (m', lc', s')
      \<and> (if mr_blocked r = [] then \<not> mx_locked m' else mx_locked m' \<and> awake s' (hd (mr_blocked r))))"
  proof
    assume "mr_locks r \<noteq> []"
    then obtain h where h: "h \<in> set (mr_locks r)" by (cases "mr_locks r") auto
    then have "mr_locks r = [h]" "g = []" using inv singleton_lock [OF h] by (auto simp: mutex_inv_def)
    with mutex_unlock_inv [OF inv h] inv show "\<exists>m' lc' s'. CoMutex_unlock (mr_mutex r) (mr_lc r) (mr_sched r) = Ok (m', lc', s')
      \<and> (if mr_blocked r = [] then \<not> mx_locked m' else mx_locked m' \<and> awake s' (hd (mr_blocked r)))"
      by (cases ws) (fastforce simp: mutex_inv_def)+
  qed
qed

text \<open>
  C32. At most one coroutine has a \<^verbatim>\<open>Lock\<close> of a \<^verbatim>\<open>CoMutex\<close> at any time. The mutex is locked exactly when a coroutine has
  one or is blocked, and its waiters are, in their order, the blocked coroutines that have not been woken. While a
  coroutine has the lock no blocked one is awake; when none has it, the blocked coroutine that came first is awake, so
  the scheduler will resume it. Unlocking always succeeds: it frees the mutex, or wakes the coroutine that came first.
\<close>

theorem CoMutex_exclusive:
  assumes "mutex_step\<^sup>*\<^sup>* (mutex_init lc s) r" "sched_inv s"
  shows "length (mr_locks r) \<le> 1
    \<and> ((mx_locked (mr_mutex r) \<longleftrightarrow> mr_locks r \<noteq> [] \<or> mr_blocked r \<noteq> [])
      \<and> mx_waiters (mr_mutex r) = map Some (filter (\<lambda>k. \<not> awake (mr_sched r) k) (mr_blocked r)))
    \<and> (if mr_locks r \<noteq> [] then \<forall>k \<in> set (mr_blocked r). \<not> awake (mr_sched r) k
      else mr_blocked r \<noteq> [] \<longrightarrow> awake (mr_sched r) (hd (mr_blocked r)))
    \<and> (mr_locks r \<noteq> [] \<longrightarrow> (\<exists>m' lc' s'. CoMutex_unlock (mr_mutex r) (mr_lc r) (mr_sched r) = Ok (m', lc', s')
      \<and> (if mr_blocked r = [] then \<not> mx_locked m' else mx_locked m' \<and> awake s' (hd (mr_blocked r)))))"
  by (intro conjI CoMutex_exclusive_parts(1) [OF assms] CoMutex_exclusive_parts(3) [OF assms] CoMutex_exclusive_parts(4) [OF assms]
      CoMutex_exclusive_parts(2) [OF assms, THEN conjunct1] CoMutex_exclusive_parts(2) [OF assms, THEN conjunct2])

lemma mutex_runs: "mutex_step\<^sup>*\<^sup>* r r1 \<Longrightarrow> mutex_step r1 r2 \<Longrightarrow> mutex_step\<^sup>*\<^sup>* r r2"
  by (rule rtranclp.rtrancl_into_rtrancl)

text \<open>One coroutine locks, another blocks, the first unlocks and the scheduler resumes the second, which then has the lock.\<close>

lemma handover_run:
  "\<exists>lc1 s1 lc2 s2 s3 lc3. CoMutex_await_suspend 0 9 (H 3) \<lparr>mx_waiters = [], mx_locked = True\<rparr> one_running new_Scheduler
      = Ok (NoopH, \<lparr>mx_waiters = [Some (H 3)], mx_locked = True\<rparr>, lc1, s1)
    \<and> CoMutex_unlock \<lparr>mx_waiters = [Some (H 3)], mx_locked = True\<rparr> lc1 s1 = Ok (\<lparr>mx_waiters = [], mx_locked = True\<rparr>, lc2, s2)
    \<and> nextOr True NullH s2 = Ok (H 3, s3) \<and> lc_resume 0 (H 3) Ok lc2 = Ok lc3"
  by (simp add: CoMutex_await_suspend_def suspend_def new_Scheduler_def assert_that_def isReady_def eventLoop_def
      lc_suspendingTo_def lc_switching_def switchCurrent_def isNoop_def getInfo_def getInfoIter_def assertCurrent_def
      one_running_def info_def upd_def new_coroInfo_def Let_def set_current_def setState_def
      CoMutex_unlock_def Suspension_wakeUp_def SuspensionImpl_wakeUp_def lc_ready_def lc_mark_ready_def wakeUp_def wakeUp_loop_def
      sus_set_def nextOr_def scheduleWakers.simps lc_resume_def pushCurrent_def)

theorem CoMutex_exclusive_witness:
  "\<exists>r1 r2 r3. mutex_step\<^sup>*\<^sup>* (mutex_init one_running new_Scheduler) r1 \<and> mr_locks r1 = [H 5] \<and> mr_blocked r1 = [H 3]
     \<and> \<not> awake (mr_sched r1) (H 3) \<and> mutex_step r1 r2 \<and> mr_locks r2 = [] \<and> awake (mr_sched r2) (H 3)
     \<and> mutex_step r2 r3 \<and> mr_locks r3 = [H 3] \<and> mx_locked (mr_mutex r3)"
proof -
  define m0 m1 where m: "m0 = \<lparr>mx_waiters = [], mx_locked = True\<rparr>" "m1 = \<lparr>mx_waiters = [Some (H 3)], mx_locked = True\<rparr>"
  define r0 where "r0 = mutex_init one_running new_Scheduler"
  obtain lc1 s1 lc2 s2 s3 lc3 where run: "CoMutex_await_suspend 0 9 (H 3) m0 one_running new_Scheduler = Ok (NoopH, m1, lc1, s1)"
      "CoMutex_unlock m1 lc1 s1 = Ok (m0, lc2, s2)" "nextOr True NullH s2 = Ok (H 3, s3)" "lc_resume 0 (H 3) Ok lc2 = Ok lc3"
    using handover_run unfolding m by blast
  define a where "a = \<lparr>mr_mutex = m0, mr_locks = [H 5], mr_blocked = [], mr_lc = one_running, mr_sched = new_Scheduler\<rparr>"
  define r1 where "r1 = \<lparr>mr_mutex = m1, mr_locks = [H 5], mr_blocked = [H 3], mr_lc = lc1, mr_sched = s1\<rparr>"
  define r2 where "r2 = \<lparr>mr_mutex = m0, mr_locks = [], mr_blocked = [H 3], mr_lc = lc2, mr_sched = s2\<rparr>"
  define r3 where "r3 = \<lparr>mr_mutex = m0, mr_locks = [H 3], mr_blocked = [], mr_lc = lc3, mr_sched = s3\<rparr>"
  have "mutex_step r0 a" using mutex_step.acquire [of r0 m0 "H 5"]
    by (simp add: r0_def a_def mutex_init_def CoMutex_await_ready_def m)
  moreover have "mutex_step a r1" using mutex_step.block [of a m0 "H 3" 0 9 NoopH m1 lc1 s1] run(1)
    by (simp add: a_def r1_def CoMutex_await_ready_def m new_Scheduler_def)
  ultimately have r1: "mutex_step\<^sup>*\<^sup>* r0 r1" by (rule mutex_runs [OF mutex_runs [OF rtranclp.rtrancl_refl]])
  have r2: "mutex_step r1 r2" using mutex_step.unlock [of "H 5" r1 m0 lc2 s2] run(2) by (simp add: r1_def r2_def)
  have r3: "mutex_step r2 r3" using mutex_step.resume [of r2 "H 3" s3 0 lc3] run(3,4) by (simp add: r2_def r3_def)
  have "\<not> awake s1 (H 3)" using CoMutex_exclusive [OF r1 [unfolded r0_def] new_Scheduler_inv] by (simp add: r1_def)
  moreover have "awake s2 (H 3)"
    using CoMutex_exclusive [OF mutex_runs [OF r1 r2, unfolded r0_def] new_Scheduler_inv] by (simp add: r2_def)
  ultimately show ?thesis using r1 r2 r3
    by (intro exI [of _ r1] exI [of _ r2] exI [of _ r3]) (simp add: r0_def r1_def r2_def r3_def m)
qed

end
