(* ===== verification/Select.thy ===== *)
theory Select
  imports CoCondition
begin

text \<open>
  Waiting for one of several sources: \<^verbatim>\<open>src/Select.cc\<close>, \<^verbatim>\<open>include/crouton/Select.hh\<close>. A source is an object
  with \<^verbatim>\<open>onReady(fn)\<close>, the interface \<^verbatim>\<open>ISelectable\<close> of \<^verbatim>\<open>include/crouton/Awaitable.hh\<close>: it calls \<^verbatim>\<open>fn\<close> at once if it
  is ready, and keeps it otherwise. Which sources are ready is the parameter \<open>rdy\<close>; the callbacks that the
  sources keep are recorded, as pairs of a source and an index.
\<close>

subsection \<open>Model\<close>

definition kMaxSources :: nat where
  "kMaxSources = 8"

record Select =
  sel_sources :: "nat option list"
  sel_enabled :: "bool list"
  sel_ready :: "bool list"
  sel_suspension :: Suspension
  sel_callbacks :: "(nat \<times> nat) list"

definition new_Select :: "nat list \<Rightarrow> Select outcome" where
  "new_Select sources = assert_that (length sources \<le> kMaxSources)
     (Ok \<lparr>sel_sources = map Some sources @ replicate (kMaxSources - length sources) None,
          sel_enabled = replicate kMaxSources False, sel_ready = replicate kMaxSources False,
          sel_suspension = None, sel_callbacks = []\<rparr>)"

definition Select_notify :: "nat \<Rightarrow> Select \<Rightarrow> lifecycle \<Rightarrow> Scheduler \<Rightarrow> (Select \<times> lifecycle \<times> Scheduler) outcome" where
  "Select_notify index sel lc s =
     obind (Suspension_wakeUp True (sel_suspension sel) lc s) (\<lambda>(sus, lc', s').
       Ok (sel\<lparr>sel_ready := (sel_ready sel)[index := True], sel_enabled := (sel_enabled sel)[index := False],
               sel_suspension := sus\<rparr>, lc', s'))"

definition Select_enable ::
  "(nat \<Rightarrow> bool) \<Rightarrow> nat \<Rightarrow> Select \<Rightarrow> lifecycle \<Rightarrow> Scheduler \<Rightarrow> (Select \<times> lifecycle \<times> Scheduler) outcome"
where
  "Select_enable rdy index sel lc s =
     (if index \<ge> length (sel_sources sel) then Throw UndefinedBehavior
      else case sel_sources sel ! index of
             None \<Rightarrow> Throw Terminated
           | Some src \<Rightarrow>
               if \<not> sel_enabled sel ! index then
                 (let sel1 = sel\<lparr>sel_enabled := (sel_enabled sel)[index := True]\<rparr>
                  in if rdy src then Select_notify index sel1 lc s
                     else Ok (sel1\<lparr>sel_callbacks := (src, index) # filter (\<lambda>c. fst c \<noteq> src) (sel_callbacks sel1)\<rparr>, lc, s))
               else Ok (sel, lc, s))"

text \<open>The loop of \<^verbatim>\<open>enable()\<close> over the sources from \<open>i\<close> on.\<close>

function Select_enable_from ::
  "(nat \<Rightarrow> bool) \<Rightarrow> nat \<Rightarrow> Select \<Rightarrow> lifecycle \<Rightarrow> Scheduler \<Rightarrow> (Select \<times> lifecycle \<times> Scheduler) outcome"
where
  "Select_enable_from rdy i sel lc s =
     (if i < kMaxSources \<and> i < length (sel_sources sel) \<and> sel_sources sel ! i \<noteq> None
      then obind (Select_enable rdy i sel lc s) (\<lambda>(sel', lc', s'). Select_enable_from rdy (i + 1) sel' lc' s')
      else Ok (sel, lc, s))"
  by pat_completeness auto
termination by (relation "measure (\<lambda>(_, i, _). kMaxSources - i)") auto

declare Select_enable_from.simps [simp del]

definition Select_enable_all ::
  "(nat \<Rightarrow> bool) \<Rightarrow> Select \<Rightarrow> lifecycle \<Rightarrow> Scheduler \<Rightarrow> (Select \<times> lifecycle \<times> Scheduler) outcome"
where
  "Select_enable_all rdy sel lc s = Select_enable_from rdy 0 sel lc s"

definition Select_await_ready :: "Select \<Rightarrow> bool" where
  "Select_await_ready sel \<longleftrightarrow> list_ex id (sel_ready sel) \<or> \<not> list_ex id (sel_enabled sel)"

definition Select_await_suspend ::
  "thread \<Rightarrow> nat \<Rightarrow> coro_handle \<Rightarrow> Select \<Rightarrow> lifecycle \<Rightarrow> Scheduler \<Rightarrow> (coro_handle \<times> Select \<times> lifecycle \<times> Scheduler) outcome"
where
  "Select_await_suspend t self h sel lc s =
     obind (suspend True h s) (\<lambda>(p, s1).
       let (mine, temp) = Suspension_assign (sel_suspension sel) p in
       obind (Suspension_destruct True temp s1) (\<lambda>s2.
         obind (lc_suspendingTo t h ''Select'' (Some self) NullH lc) (\<lambda>(next, lc').
           Ok (next, sel\<lparr>sel_suspension := mine\<rparr>, lc', s2))))"

fun Select_resume_from :: "nat \<Rightarrow> bool list \<Rightarrow> int \<times> bool list" where
  "Select_resume_from i [] = (-1, [])"
| "Select_resume_from i (b # bs) =
     (if b then (int i, False # bs) else (let (r, bs') = Select_resume_from (i + 1) bs in (r, b # bs')))"

definition Select_await_resume :: "Select \<Rightarrow> int \<times> Select" where
  "Select_await_resume sel = (let (r, bs) = Select_resume_from 0 (sel_ready sel) in (r, sel\<lparr>sel_ready := bs\<rparr>))"

text \<open>The destructor takes back the callbacks of the enabled sources.\<close>

definition Select_destruct :: "Select \<Rightarrow> Select" where
  "Select_destruct sel =
     sel\<lparr>sel_callbacks := filter (\<lambda>(src, _). \<not> (\<exists>i < kMaxSources. sel_enabled sel ! i \<and> sel_sources sel ! i = Some src))
       (sel_callbacks sel)\<rparr>"

subsection \<open>Selection\<close>

definition Select_inv :: "Select \<Rightarrow> bool" where
  "Select_inv sel \<longleftrightarrow> length (sel_sources sel) = kMaxSources \<and> length (sel_enabled sel) = kMaxSources
     \<and> length (sel_ready sel) = kMaxSources"

text \<open>The positions of the set bits, counted from \<open>i\<close>.\<close>

fun positions :: "nat \<Rightarrow> bool list \<Rightarrow> nat list" where
  "positions i [] = []"
| "positions i (b # bs) = (if b then i # positions (Suc i) bs else positions (Suc i) bs)"

definition ready_indexes :: "Select \<Rightarrow> nat list" where
  "ready_indexes sel = positions 0 (sel_ready sel)"

lemma set_positions: "set (positions i bs) = {j. i \<le> j \<and> j < i + length bs \<and> bs ! (j - i)}"
proof (induction bs arbitrary: i)
  case (Cons b bs)
  have iff: "(Suc i \<le> j \<and> j < Suc i + length bs \<and> bs ! (j - Suc i)) \<longleftrightarrow>
      (i \<le> j \<and> j < i + length (b # bs) \<and> (b # bs) ! (j - i) \<and> j \<noteq> i)" for j
  proof (cases "i < j")
    case True
    then obtain n where n: "j = Suc (i + n)" using less_imp_Suc_add by blast
    have "j - Suc i = n" "j - i = Suc n" using n by simp_all
    then show ?thesis using n by simp
  next
    case False
    then show ?thesis by simp
  qed
  have "set (positions (Suc i) bs) = {j. i \<le> j \<and> j < i + length (b # bs) \<and> (b # bs) ! (j - i) \<and> j \<noteq> i}"
    unfolding Cons.IH by (rule Collect_cong) (rule iff)
  then have S: "j \<in> set (positions (Suc i) bs) \<longleftrightarrow> i \<le> j \<and> j < i + length (b # bs) \<and> (b # bs) ! (j - i) \<and> j \<noteq> i" for j
    by (simp only: mem_Collect_eq)
  show ?case
  proof (rule set_eqI)
    fix j
    have "j \<in> set (positions i (b # bs)) \<longleftrightarrow> (b \<and> j = i) \<or> j \<in> set (positions (Suc i) bs)" by simp
    also have "\<dots> \<longleftrightarrow> i \<le> j \<and> j < i + length (b # bs) \<and> (b # bs) ! (j - i)"
      unfolding S by (cases "j = i") (simp_all only: diff_self_eq_0 nth_Cons_0, simp_all)
    finally show "j \<in> set (positions i (b # bs)) \<longleftrightarrow> j \<in> {j. i \<le> j \<and> j < i + length (b # bs) \<and> (b # bs) ! (j - i)}"
      by (simp only: mem_Collect_eq)
  qed
qed simp

lemma sorted_positions: "sorted_wrt (<) (positions i bs)"
  by (induction bs arbitrary: i) (auto simp: set_positions)

lemma Select_resume_from_eq:
  "Select_resume_from i bs =
     (case positions i bs of [] \<Rightarrow> (-1, bs) | j # _ \<Rightarrow> (int j, bs[j - i := False]))"
proof (induction bs arbitrary: i)
  case (Cons b bs)
  have "\<forall>j \<in> set (positions (Suc i) bs). Suc i \<le> j" by (auto simp: set_positions)
  then have "positions (Suc i) bs = j # js \<Longrightarrow> j - i = Suc (j - Suc i)" for j js by (auto simp: Suc_diff_Suc)
  then show ?case using Cons.IH [of "Suc i"] by (auto split: list.splits)
qed simp

lemma positions_clear_first:
  "positions i bs = j # js \<Longrightarrow> positions i (bs[j - i := False]) = js"
proof (induction bs arbitrary: i)
  case (Cons b bs)
  show ?case
  proof (cases b)
    case False
    with Cons.prems have p: "positions (Suc i) bs = j # js" by simp
    then have "j \<in> set (positions (Suc i) bs)" by simp
    then have "Suc i \<le> j" by (simp add: set_positions)
    then have "j - i = Suc (j - Suc i)" by (simp add: Suc_diff_Suc)
    with False Cons.IH [OF p] show ?thesis by simp
  qed (use Cons.prems in auto)
qed simp

lemma await_resume_pops:
  assumes "ready_indexes sel = i # is"
  shows "Select_await_resume sel = (int i, sel\<lparr>sel_ready := (sel_ready sel)[i := False]\<rparr>)"
    "ready_indexes (sel\<lparr>sel_ready := (sel_ready sel)[i := False]\<rparr>) = is"
  using assms positions_clear_first [of 0 "sel_ready sel" i "is"]
  by (simp_all add: Select_await_resume_def Select_resume_from_eq ready_indexes_def)

lemma await_resume_none:
  "ready_indexes sel = [] \<Longrightarrow> Select_await_resume sel = (-1, sel)"
  by (simp add: Select_await_resume_def Select_resume_from_eq ready_indexes_def)

lemma in_ready_indexes: "Select_inv sel \<Longrightarrow> i \<in> set (ready_indexes sel) \<longleftrightarrow> i < kMaxSources \<and> sel_ready sel ! i"
  by (simp add: ready_indexes_def set_positions Select_inv_def)

fun resume_n :: "nat \<Rightarrow> Select \<Rightarrow> int list \<times> Select" where
  "resume_n 0 sel = ([], sel)"
| "resume_n (Suc n) sel =
     (let (r, sel1) = Select_await_resume sel; (rs, sel2) = resume_n n sel1 in (r # rs, sel2))"

lemma resume_n_all: "ready_indexes sel = is \<Longrightarrow> fst (resume_n (Suc (length is)) sel) = map int is @ [-1]"
proof (induction "is" arbitrary: sel)
  case Nil
  then show ?case by (simp add: await_resume_none)
next
  case (Cons i "is")
  then show ?case using await_resume_pops [OF Cons.prems] Cons.IH [of "sel\<lparr>sel_ready := (sel_ready sel)[i := False]\<rparr>"]
    by (simp add: case_prod_beta Let_def)
qed

text \<open>Notifications of several sources, in any order.\<close>

fun notify_all :: "nat list \<Rightarrow> Select \<Rightarrow> lifecycle \<Rightarrow> Scheduler \<Rightarrow> (Select \<times> lifecycle \<times> Scheduler) outcome" where
  "notify_all [] sel lc s = Ok (sel, lc, s)"
| "notify_all (i # is) sel lc s = obind (Select_notify i sel lc s) (\<lambda>(sel', lc', s'). notify_all is sel' lc' s')"

lemma notify_all_unsuspended:
  assumes "sel_suspension sel = None" "Select_inv sel" "set is \<subseteq> {..<kMaxSources}"
  shows "\<exists>sel'. notify_all is sel lc s = Ok (sel', lc, s) \<and> Select_inv sel'
     \<and> set (ready_indexes sel') = set is \<union> set (ready_indexes sel)"
  using assms
proof (induction "is" arbitrary: sel)
  case (Cons i "is")
  let ?sel = "sel\<lparr>sel_ready := (sel_ready sel)[i := True], sel_enabled := (sel_enabled sel)[i := False]\<rparr>"
  have n: "Select_notify i sel lc s = Ok (?sel, lc, s)"
    using Cons.prems(1) by (simp add: Select_notify_def Suspension_wakeUp_def)
  have inv: "Select_inv ?sel" using Cons.prems(2) by (simp add: Select_inv_def)
  have "set (ready_indexes ?sel) = insert i (set (ready_indexes sel))"
    using Cons.prems(2,3) inv by (auto simp: in_ready_indexes Select_inv_def nth_list_update split: if_splits)
  then show ?case using n inv Cons.IH [of ?sel] Cons.prems by auto
qed simp

lemma notify_all_wakes:
  assumes "sel_suspension sel = Some h" "Select_inv sel" "set (i # is) \<subseteq> {..<kMaxSources}" "sched_inv s" "wakeable lc s h"
  shows "\<exists>sel' lc' s'. notify_all (i # is) sel lc s = Ok (sel', lc', s') \<and> Select_inv sel' \<and> h \<in> set (wakers s')
     \<and> set (ready_indexes sel') = set (i # is) \<union> set (ready_indexes sel)"
proof -
  obtain lc' s' where w: "Suspension_wakeUp True (Some h) lc s = Ok (None, lc', s')" "set (wakers s') = insert h (set (wakers s))"
    using wakeUp_wakeable [OF assms(4,5), of True] by blast
  let ?sel = "sel\<lparr>sel_ready := (sel_ready sel)[i := True], sel_enabled := (sel_enabled sel)[i := False], sel_suspension := None\<rparr>"
  have n: "Select_notify i sel lc s = Ok (?sel, lc', s')" using assms(1) w(1) by (simp add: Select_notify_def)
  have inv: "Select_inv ?sel" using assms(2) by (simp add: Select_inv_def)
  have "set (ready_indexes ?sel) = insert i (set (ready_indexes sel))"
    using assms(2,3) inv by (auto simp: in_ready_indexes Select_inv_def nth_list_update split: if_splits)
  moreover obtain sel' where "notify_all is ?sel lc' s' = Ok (sel', lc', s')" "Select_inv sel'"
      "set (ready_indexes sel') = set is \<union> set (ready_indexes ?sel)"
    using notify_all_unsuspended [OF _ inv, of "is" lc' s'] assms(3) by auto
  ultimately show ?thesis using n w(2) by (intro exI [of _ sel'] exI [of _ lc'] exI [of _ s']) simp
qed

text \<open>
  C34. Every source that has notified a \<^verbatim>\<open>Select\<close> is reported: after any sequence of notifications, which
  wakes the coroutine that awaits it, repeated \<^verbatim>\<open>await_resume\<close> returns the indexes that notified, each once
  and the lowest first, and then -1.
\<close>

theorem Select_reports_all:
  assumes "sel_suspension sel = Some h" "Select_inv sel" "ready_indexes sel = []" "is \<noteq> []" "set is \<subseteq> {..<kMaxSources}"
    "sched_inv s" "wakeable lc s h"
  shows "\<exists>sel' lc' s' js. notify_all is sel lc s = Ok (sel', lc', s') \<and> h \<in> set (wakers s') \<and> Select_await_ready sel'
     \<and> set js = set is \<and> sorted_wrt (<) js \<and> fst (resume_n (Suc (length js)) sel') = map int js @ [-1]"
proof -
  obtain i is' where i: "is = i # is'" using assms(4) by (cases "is") auto
  have sub: "set (i # is') \<subseteq> {..<kMaxSources}" using assms(5) i by simp
  obtain sel' lc' s' where n: "notify_all is sel lc s = Ok (sel', lc', s')" "Select_inv sel'" "h \<in> set (wakers s')"
      "set (ready_indexes sel') = set is \<union> set (ready_indexes sel)"
    using notify_all_wakes [OF assms(1,2) sub assms(6,7)] unfolding i by blast
  have r: "set (ready_indexes sel') = set is" using n(4) assms(3) by simp
  have "i \<in> set (ready_indexes sel')" using r i by simp
  then have "sel_ready sel' ! i" "i < length (sel_ready sel')" using n(2) by (simp_all add: in_ready_indexes Select_inv_def)
  then have "True \<in> set (sel_ready sel')" by (metis nth_mem)
  then have "Select_await_ready sel'" by (auto simp: Select_await_ready_def list_ex_iff)
  moreover have "sorted_wrt (<) (ready_indexes sel')" unfolding ready_indexes_def by (rule sorted_positions)
  ultimately show ?thesis using n r resume_n_all [of sel' "ready_indexes sel'"]
    by (intro exI [of _ sel'] exI [of _ lc'] exI [of _ s'] exI [of _ "ready_indexes sel'"]) simp
qed

definition two_sources :: Select where
  "two_sources = \<lparr>sel_sources = [Some 1, Some 2, None, None, None, None, None, None], sel_enabled = [True, True, False, False, False, False, False, False],
     sel_ready = replicate 8 False, sel_suspension = Some (H 1), sel_callbacks = [(1, 0), (2, 1)]\<rparr>"

theorem Select_reports_all_witness:
  "\<exists>sel' lc' s' js. notify_all [1, 0] two_sources one_awaiting one_suspended = Ok (sel', lc', s')
     \<and> set js = {0, 1} \<and> fst (resume_n (Suc (length js)) sel') = map int js @ [-1]"
proof -
  have "sched_inv one_suspended" "wakeable one_awaiting one_suspended (H 1)"
    using one_awaiter_rep by (simp_all add: cond_rep_def one_awaiter_def)
  moreover have "sel_suspension two_sources = Some (H 1)" "Select_inv two_sources" "ready_indexes two_sources = []"
    by (simp_all add: two_sources_def Select_inv_def kMaxSources_def ready_indexes_def numeral_eq_Suc)
  ultimately show ?thesis using Select_reports_all [of two_sources "H 1" "[1, 0]" one_suspended one_awaiting]
    by (fastforce simp: kMaxSources_def)
qed

end
