(* ===== verification/Future.thy ===== *)
theory Future
  imports Select
begin

text \<open>
  Futures: \<^verbatim>\<open>src/Future.cc\<close> and \<^verbatim>\<open>include/crouton/Future.hh\<close>. The state shared by a future and its provider is
  a record; all of them are in a table and a \<^verbatim>\<open>shared_ptr<FutureStateBase>\<close> is an index of it. A \<^verbatim>\<open>then\<close> callback is a
  function that returns a value or throws; an \<^verbatim>\<open>onReady\<close> callback is a number, and its calls are recorded. The
  scheduler is that of thread \<open>fw_thread\<close>, where coroutines await the futures. Results are set on thread \<open>me\<close>; callbacks for another thread's scheduler are recorded as posted. An operation
  that throws keeps the changes it made before, so it returns its outcome together with the new state.
\<close>

subsection \<open>State\<close>

datatype FState = FEmpty | FWaiting | FChained | FReady

record 'v FutureState =
  fs_state :: FState
  fs_result :: "'v Result"
  fs_suspension :: Suspension
  fs_chainedFuture :: "nat option"
  fs_chainedCallback :: "('v \<Rightarrow> 'v outcome) option"
  fs_chainedScheduler :: "thread option"
  fs_onReady :: "nat option"
  fs_hasOnReady :: bool

record 'v fworld =
  fw_futures :: "'v FutureState list"
  fw_lc :: lifecycle
  fw_sched :: Scheduler
  fw_thread :: thread
  fw_called :: "nat list"
  fw_posted :: "(nat \<times> nat \<times> ('v \<Rightarrow> 'v outcome)) list"

definition new_FutureState :: "'v FutureState" where
  "new_FutureState = \<lparr>fs_state = FEmpty, fs_result = Result_empty_value, fs_suspension = None, fs_chainedFuture = None,
     fs_chainedCallback = None, fs_chainedScheduler = None, fs_onReady = None, fs_hasOnReady = False\<rparr>"

definition fut :: "'v fworld \<Rightarrow> nat \<Rightarrow> 'v FutureState" where
  "fut w f = fw_futures w ! f"

definition fupd :: "nat \<Rightarrow> ('v FutureState \<Rightarrow> 'v FutureState) \<Rightarrow> 'v fworld \<Rightarrow> 'v fworld" where
  "fupd f g w = w\<lparr>fw_futures := (fw_futures w)[f := g (fw_futures w ! f)]\<rparr>"

text \<open>\<^verbatim>\<open>Future<T>::provider()\<close>.\<close>

definition new_provider :: "'v fworld \<Rightarrow> nat \<times> 'v fworld" where
  "new_provider w = (length (fw_futures w), w\<lparr>fw_futures := fw_futures w @ [new_FutureState]\<rparr>)"

definition hasResult :: "nat \<Rightarrow> 'v fworld \<Rightarrow> bool" where
  "hasResult f w \<longleftrightarrow> fs_state (fut w f) = FReady"

definition getError :: "nat \<Rightarrow> 'v fworld \<Rightarrow> err" where
  "getError f w = Result_error (fs_result (fut w f))"

definition resultValue :: "nat \<Rightarrow> 'v fworld \<Rightarrow> 'v outcome" where
  "resultValue f w = Result_value (fs_result (fut w f))"

definition checkEmpty :: "nat \<Rightarrow> 'v fworld \<Rightarrow> bool outcome" where
  "checkEmpty f w =
     (case fs_state (fut w f) of
        FEmpty \<Rightarrow> Ok True
      | FWaiting \<Rightarrow> raise_crouton LogicError
      | FChained \<Rightarrow> raise_crouton LogicError
      | FReady \<Rightarrow> Ok False)"

definition changeState :: "FState \<Rightarrow> nat \<Rightarrow> 'v fworld \<Rightarrow> (bool \<times> 'v fworld) outcome" where
  "changeState new f w =
     (if fs_state (fut w f) = FEmpty then Ok (True, fupd f (\<lambda>s. s\<lparr>fs_state := new\<rparr>) w)
      else if fs_state (fut w f) = FReady then Ok (False, w)
      else raise_crouton LogicError)"

subsection \<open>Setting the result\<close>

text \<open>The end of \<^verbatim>\<open>_notify\<close>: the \<^verbatim>\<open>onReady\<close> callback is called and forgotten.\<close>

definition fire_onReady :: "nat \<Rightarrow> 'v fworld \<Rightarrow> 'v fworld" where
  "fire_onReady f w =
     (if fs_hasOnReady (fut w f)
      then (fupd f (\<lambda>s. s\<lparr>fs_onReady := None, fs_hasOnReady := False\<rparr>) w)
        \<lparr>fw_called := fw_called w @ (case fs_onReady (fut w f) of None \<Rightarrow> [] | Some c \<Rightarrow> [c])\<rparr>
      else w)"

definition wake_waiter :: "bool \<Rightarrow> nat \<Rightarrow> 'v fworld \<Rightarrow> unit outcome \<times> 'v fworld" where
  "wake_waiter cur f w =
     (case Suspension_wakeUp cur (fs_suspension (fut w f)) (fw_lc w) (fw_sched w) of
        Inl e \<Rightarrow> (Throw e, w)
      | Inr (sus, lc, s) \<Rightarrow> (Ok (), (fupd f (\<lambda>st. st\<lparr>fs_suspension := sus\<rparr>) w)\<lparr>fw_lc := lc, fw_sched := s\<rparr>))"

text \<open>
  \<^verbatim>\<open>setResult\<close>, with \<^verbatim>\<open>_notify\<close> and \<^verbatim>\<open>resolveChain\<close>, which set the results of further futures in turn. Not
  returning is \<open>None\<close>. The three functions are separated below.
\<close>

partial_function (option) setResult ::
  "thread \<Rightarrow> nat \<Rightarrow> 'v Result \<Rightarrow> 'v fworld \<Rightarrow> (unit outcome \<times> 'v fworld) option"
where
  "setResult me f r w =
     (let w1 = fupd f (\<lambda>s. s\<lparr>fs_result := r\<rparr>) w in
      if Result_empty r then Some (Throw Terminated, w1)
      else
        let old = fs_state (fut w1 f); w2 = fupd f (\<lambda>s. s\<lparr>fs_state := FReady\<rparr>) w1 in
        Option.bind
          (case old of
             FEmpty \<Rightarrow> Some (Ok (), w2)
           | FWaiting \<Rightarrow> Some (wake_waiter (me = fw_thread w2) f w2)
           | FReady \<Rightarrow> Some (raise_crouton LogicError, w2)
           | FChained \<Rightarrow>
               (let w3 = fupd f (\<lambda>s. s\<lparr>fs_chainedFuture := None, fs_chainedCallback := None\<rparr>) w2 in
                case fs_chainedFuture (fut w2 f) of
                  None \<Rightarrow> Some (Throw UndefinedBehavior, w3)
                | Some d \<Rightarrow>
                    (if err_true (getError f w3) then setResult me d (RError (getError f w3)) w3
                     else if fs_chainedScheduler (fut w3 f) = Some me then
                       (case obind (resultValue f w3) (the (fs_chainedCallback (fut w2 f))) of
                          Inr u \<Rightarrow> Option.bind (setResult me d (RValue u) w3) (\<lambda>(res, w4).
                            case res of
                              Inl (Raise dm c) \<Rightarrow> setResult me d (RError (dm, c)) w4
                            | _ \<Rightarrow> Some (res, w4))
                        | Inl (Raise dm c) \<Rightarrow> setResult me d (RError (dm, c)) w3
                        | Inl e \<Rightarrow> Some (Throw e, w3))
                     else Some (Ok (), w3\<lparr>fw_posted := fw_posted w3 @ [(d, f, the (fs_chainedCallback (fut w2 f)))]\<rparr>))))
          (\<lambda>(res, w5). Some (case res of Inl e \<Rightarrow> (Throw e, w5) | Inr _ \<Rightarrow> (Ok (), fire_onReady f w5))))"

text \<open>The callback of \<^verbatim>\<open>then\<close>, run by \<^verbatim>\<open>asap\<close> at once or later from the event loop: \<open>d\<close> gets what \<open>fn\<close> makes of \<open>f\<close>'s value.\<close>

definition run_then :: "thread \<Rightarrow> nat \<Rightarrow> nat \<Rightarrow> ('v \<Rightarrow> 'v outcome) \<Rightarrow> 'v fworld \<Rightarrow> (unit outcome \<times> 'v fworld) option" where
  "run_then me d f fn w =
     (case obind (resultValue f w) fn of
        Inr u \<Rightarrow> Option.bind (setResult me d (RValue u) w) (\<lambda>(res, w').
          case res of Inl (Raise dm c) \<Rightarrow> setResult me d (RError (dm, c)) w' | _ \<Rightarrow> Some (res, w'))
      | Inl (Raise dm c) \<Rightarrow> setResult me d (RError (dm, c)) w
      | Inl e \<Rightarrow> Some (Throw e, w))"

definition resolveChain :: "thread \<Rightarrow> nat \<Rightarrow> 'v fworld \<Rightarrow> (unit outcome \<times> 'v fworld) option" where
  "resolveChain me f w =
     (if fs_state (fut w f) \<noteq> FReady then Some (Throw Terminated, w)
      else
        let w1 = fupd f (\<lambda>s. s\<lparr>fs_chainedFuture := None, fs_chainedCallback := None\<rparr>) w in
        case fs_chainedFuture (fut w f) of
          None \<Rightarrow> Some (Throw UndefinedBehavior, w1)
        | Some d \<Rightarrow>
            if err_true (getError f w1) then setResult me d (RError (getError f w1)) w1
            else if fs_chainedScheduler (fut w1 f) = Some me then run_then me d f (the (fs_chainedCallback (fut w f))) w1
            else Some (Ok (), w1\<lparr>fw_posted := fw_posted w1 @ [(d, f, the (fs_chainedCallback (fut w f)))]\<rparr>))"

definition FutureState_notify :: "thread \<Rightarrow> nat \<Rightarrow> 'v fworld \<Rightarrow> (unit outcome \<times> 'v fworld) option" where
  "FutureState_notify me f w =
     (let w1 = fupd f (\<lambda>s. s\<lparr>fs_state := FReady\<rparr>) w in
      Option.bind
        (case fs_state (fut w f) of
           FEmpty \<Rightarrow> Some (Ok (), w1)
         | FWaiting \<Rightarrow> Some (wake_waiter (me = fw_thread w1) f w1)
         | FChained \<Rightarrow> resolveChain me f w1
         | FReady \<Rightarrow> Some (raise_crouton LogicError, w1))
        (\<lambda>(res, w2). Some (case res of Inl e \<Rightarrow> (Throw e, w2) | Inr _ \<Rightarrow> (Ok (), fire_onReady f w2))))"

text \<open>For \<^verbatim>\<open>Future<void>\<close>, setting \<^verbatim>\<open>noerror\<close> sets success; \<open>unit_v\<close> is the void value.\<close>

definition setResult_void :: "'v \<Rightarrow> thread \<Rightarrow> nat \<Rightarrow> err \<Rightarrow> 'v fworld \<Rightarrow> (unit outcome \<times> 'v fworld) option" where
  "setResult_void unit_v me f e w = setResult me f (if err_true e then RError e else RValue unit_v) w"

subsection \<open>Using the future\<close>

definition future_chain :: "thread \<Rightarrow> nat \<Rightarrow> nat \<Rightarrow> ('v \<Rightarrow> 'v outcome) \<Rightarrow> 'v fworld \<Rightarrow> (unit outcome \<times> 'v fworld) option" where
  "future_chain me f d fn w =
     (case checkEmpty f w of
        Inl e \<Rightarrow> Some (Throw e, w)
      | Inr vacant \<Rightarrow>
          if fs_chainedFuture (fut w f) \<noteq> None then Some (Throw Terminated, w)
          else
            let w1 = fupd f (\<lambda>s. s\<lparr>fs_chainedFuture := Some d, fs_chainedCallback := Some fn, fs_chainedScheduler := Some me\<rparr>) w in
            if \<not> vacant then resolveChain me f w1
            else case changeState FChained f w1 of
                   Inl e \<Rightarrow> Some (Throw e, w1)
                 | Inr (True, w2) \<Rightarrow> Some (Ok (), w2)
                 | Inr (False, w2) \<Rightarrow> resolveChain me f w2)"

text \<open>\<^verbatim>\<open>Future::then\<close>: the new future and the outcome.\<close>

definition future_then :: "thread \<Rightarrow> nat \<Rightarrow> ('v \<Rightarrow> 'v outcome) \<Rightarrow> 'v fworld \<Rightarrow> (nat \<times> unit outcome \<times> 'v fworld) option" where
  "future_then me f fn w =
     (let (d, w1) = new_provider w
      in map_option (\<lambda>(res, w2). (d, res, w2)) (future_chain me f d fn w1))"

definition future_onReady :: "nat \<Rightarrow> nat option \<Rightarrow> 'v fworld \<Rightarrow> 'v fworld" where
  "future_onReady f fn w =
     (case fn of
        None \<Rightarrow> fupd f (\<lambda>s. s\<lparr>fs_hasOnReady := False, fs_onReady := None\<rparr>) w
      | Some c \<Rightarrow>
          if fs_state (fut w f) = FReady then w\<lparr>fw_called := fw_called w @ [c]\<rparr>
          else fupd f (\<lambda>s. s\<lparr>fs_onReady := Some c, fs_hasOnReady := True\<rparr>) w)"

text \<open>
  \<^verbatim>\<open>suspend\<close> in two parts, between which the provider may set the result from another thread: up to the
  suspension of the coroutine, and from \<^verbatim>\<open>changeState(Waiting)\<close> on.
\<close>

definition future_suspend_begin :: "nat \<Rightarrow> coro_handle \<Rightarrow> 'v fworld \<Rightarrow> (bool \<times> 'v fworld) outcome" where
  "future_suspend_begin f coro w =
     obind (checkEmpty f w) (\<lambda>vacant.
       if vacant then
         assert_that (fs_suspension (fut w f) = None)
           (obind (suspend True coro (fw_sched w)) (\<lambda>(p, s).
             Ok (True, (fupd f (\<lambda>st. st\<lparr>fs_suspension := p\<rparr>) w)\<lparr>fw_sched := s\<rparr>)))
       else Ok (False, w))"

definition future_suspend_end :: "nat \<Rightarrow> coro_handle \<Rightarrow> bool \<times> 'v fworld \<Rightarrow> (coro_handle \<times> 'v fworld) outcome" where
  "future_suspend_end f coro st =
     (case st of
        (False, w) \<Rightarrow> Ok (coro, w)
      | (True, w) \<Rightarrow> obind (changeState FWaiting f w) (\<lambda>(changed, w1).
          if changed then Ok (NoopH, w1)
          else case wake_waiter True f w1 of (Inl e, _) \<Rightarrow> Throw e | (Inr _, w2) \<Rightarrow> Ok (NoopH, w2)))"

definition future_suspend :: "nat \<Rightarrow> coro_handle \<Rightarrow> 'v fworld \<Rightarrow> (coro_handle \<times> 'v fworld) outcome" where
  "future_suspend f coro w = obind (future_suspend_begin f coro w) (future_suspend_end f coro)"

definition Future_await_ready :: "nat \<Rightarrow> 'v fworld \<Rightarrow> bool" where
  "Future_await_ready f w = hasResult f w"

text \<open>\<open>own\<close> is the handle of the coroutine that returned the future, null if none did.\<close>

definition Future_await_suspend ::
  "thread \<Rightarrow> coro_handle \<Rightarrow> nat \<Rightarrow> coro_handle \<Rightarrow> 'v fworld \<Rightarrow> (coro_handle \<times> 'v fworld) outcome"
where
  "Future_await_suspend t own f coro w = obind (future_suspend f coro w) (\<lambda>(next, w1).
     obind (if own \<noteq> NullH then lc_suspendingToCoro t coro own next (fw_lc w1)
            else lc_suspendingTo t coro ''Future'' (Some f) next (fw_lc w1))
       (\<lambda>(n, lc). Ok (n, w1\<lparr>fw_lc := lc\<rparr>)))"

definition Future_await_resume :: "nat \<Rightarrow> 'v fworld \<Rightarrow> 'v outcome" where
  "Future_await_resume f w = resultValue f w"

definition noFuture :: "nat \<Rightarrow> 'v fworld \<Rightarrow> 'v fworld outcome" where
  "noFuture f w =
     (if fs_suspension (fut w f) \<noteq> None then
        obind (Suspension_cancel True (fs_suspension (fut w f)) (fw_sched w)) (\<lambda>(sus, s).
          Ok ((fupd f (\<lambda>st. st\<lparr>fs_state := (if fs_state st = FWaiting then FEmpty else fs_state st),
                             fs_suspension := sus\<rparr>) w)\<lparr>fw_sched := s\<rparr>))
      else Ok w)"

text \<open>\<^verbatim>\<open>NoThrow\<close> returns the result itself; \<^verbatim>\<open>FutureSeries\<close> returns it once and then is at its end.\<close>

definition NoThrow_await_resume :: "nat option \<Rightarrow> 'v fworld \<Rightarrow> ('v Result \<times> nat option) outcome" where
  "NoThrow_await_resume st w =
     (case st of None \<Rightarrow> Throw UndefinedBehavior | Some f \<Rightarrow> Ok (fs_result (fut w f), None))"

definition FutureSeries_await_ready :: "nat option \<Rightarrow> 'v fworld \<Rightarrow> bool" where
  "FutureSeries_await_ready st w = (case st of None \<Rightarrow> True | Some f \<Rightarrow> hasResult f w)"

definition FutureSeries_await_resume :: "nat option \<Rightarrow> 'v fworld \<Rightarrow> ('v Result \<times> nat option) outcome" where
  "FutureSeries_await_resume st w = (if st \<noteq> None then NoThrow_await_resume st w else Ok (Result_empty_value, None))"

subsection \<open>Setting a result returns\<close>

lemma length_fupd [simp]: "length (fw_futures (fupd f g w)) = length (fw_futures w)"
  by (simp add: fupd_def)

lemma fut_fupd: "f < length (fw_futures w) \<Longrightarrow> fut (fupd f g w) f' = (if f' = f then g (fut w f) else fut w f')"
  by (simp add: fut_def fupd_def nth_list_update)

lemma fut_world_update [simp]:
  "fut (w\<lparr>fw_lc := lc\<rparr>) = fut w" "fut (w\<lparr>fw_sched := s\<rparr>) = fut w" "fut (w\<lparr>fw_called := c\<rparr>) = fut w" "fut (w\<lparr>fw_posted := p\<rparr>) = fut w"
  by (simp_all add: fut_def fun_eq_iff)

lemma length_fire_onReady [simp]: "length (fw_futures (fire_onReady f w)) = length (fw_futures w)"
  by (simp add: fire_onReady_def)

lemma length_wake_waiter [simp]: "length (fw_futures (snd (wake_waiter cur f w))) = length (fw_futures w)"
  by (auto simp: wake_waiter_def split: sum.splits)

text \<open>A chained future was made after the one it is chained to, also when its callback has been posted to another thread.\<close>

definition chains_ok :: "'v fworld \<Rightarrow> bool" where
  "chains_ok w \<longleftrightarrow> (\<forall>f < length (fw_futures w). \<forall>d. fs_chainedFuture (fut w f) = Some d \<longrightarrow> f < d \<and> d < length (fw_futures w))
     \<and> (\<forall>(d, f, fn) \<in> set (fw_posted w). f < d \<and> d < length (fw_futures w))"

lemma chains_okD: "chains_ok w \<Longrightarrow> f < length (fw_futures w) \<Longrightarrow> fs_chainedFuture (fut w f) = Some d \<Longrightarrow> f < d \<and> d < length (fw_futures w)"
  unfolding chains_ok_def by blast

lemma fupd_world [simp]: "fw_sched (fupd f g w) = fw_sched w" "fw_lc (fupd f g w) = fw_lc w" "fw_thread (fupd f g w) = fw_thread w"
    "fw_posted (fupd f g w) = fw_posted w"
  by (simp_all add: fupd_def)

lemma chains_ok_fupd:
  assumes "chains_ok w" "f < length (fw_futures w)"
    and "fs_chainedFuture (g (fut w f)) = fs_chainedFuture (fut w f) \<or> fs_chainedFuture (g (fut w f)) = None"
  shows "chains_ok (fupd f g w)"
  unfolding chains_ok_def
proof (intro conjI allI impI)
  fix f' d assume f': "f' < length (fw_futures (fupd f g w))" and d: "fs_chainedFuture (fut (fupd f g w) f') = Some d"
  then have "fs_chainedFuture (fut w f') = Some d" using assms(2,3) by (cases "f' = f") (auto simp: fut_fupd)
  from chains_okD [OF assms(1) _ this] f' show "f' < d" "d < length (fw_futures (fupd f g w))" by simp_all
qed (use assms(1) [unfolded chains_ok_def, THEN conjunct2] in simp)

lemma chains_ok_world_update [simp]:
  "chains_ok (w\<lparr>fw_lc := lc\<rparr>) = chains_ok w" "chains_ok (w\<lparr>fw_sched := s\<rparr>) = chains_ok w"
  "chains_ok (w\<lparr>fw_called := c\<rparr>) = chains_ok w"
  by (simp_all add: chains_ok_def)

lemma chains_ok_posted: "chains_ok w \<Longrightarrow> (d, f, fn) \<in> set (fw_posted w) \<Longrightarrow> f < d \<and> d < length (fw_futures w)"
  unfolding chains_ok_def by blast

lemma chains_okI:
  assumes "\<And>f d. f < length (fw_futures w) \<Longrightarrow> fs_chainedFuture (fut w f) = Some d \<Longrightarrow> f < d \<and> d < length (fw_futures w)"
    and "\<forall>(d, f, fn) \<in> set (fw_posted w). f < d \<and> d < length (fw_futures w)"
  shows "chains_ok w"
  unfolding chains_ok_def by (intro conjI [OF _ assms(2)] allI impI) (rule assms(1))

lemma chains_ok_change_posted:
  assumes "chains_ok w" "\<forall>(d, f, fn) \<in> set ps. f < d \<and> d < length (fw_futures w)"
  shows "chains_ok (w\<lparr>fw_posted := ps\<rparr>)"
proof (rule chains_okI)
  fix f d assume "f < length (fw_futures (w\<lparr>fw_posted := ps\<rparr>))" "fs_chainedFuture (fut (w\<lparr>fw_posted := ps\<rparr>) f) = Some d"
  then show "f < d \<and> d < length (fw_futures (w\<lparr>fw_posted := ps\<rparr>))" using chains_okD [OF assms(1), of f d] by simp
qed (use assms(2) in simp)

lemma chains_ok_post:
  assumes "chains_ok w" "f < d" "d < length (fw_futures w)"
  shows "chains_ok (w\<lparr>fw_posted := fw_posted w @ [(d, f, fn)]\<rparr>)"
  using assms(2,3) by (intro chains_ok_change_posted assms(1)) (auto dest: chains_ok_posted [OF assms(1)])

lemma chains_ok_fire: "chains_ok w \<Longrightarrow> f < length (fw_futures w) \<Longrightarrow> chains_ok (fire_onReady f w)"
  by (simp add: fire_onReady_def chains_ok_fupd)

lemma chains_ok_wake: "chains_ok w \<Longrightarrow> f < length (fw_futures w) \<Longrightarrow> chains_ok (snd (wake_waiter cur f w))"
  by (auto simp: wake_waiter_def chains_ok_fupd split: sum.splits)

lemma fut_fire [simp]:
  assumes "f < length (fw_futures w)"
  shows "fs_state (fut (fire_onReady f w) f') = fs_state (fut w f')" "fs_result (fut (fire_onReady f w) f') = fs_result (fut w f')"
    "fs_suspension (fut (fire_onReady f w) f') = fs_suspension (fut w f')"
    "fs_chainedFuture (fut (fire_onReady f w) f') = fs_chainedFuture (fut w f')"
    "f' \<noteq> f \<Longrightarrow> fut (fire_onReady f w) f' = fut w f'"
  using assms by (simp_all add: fire_onReady_def fut_fupd)

lemma fut_wake:
  assumes "f < length (fw_futures w)"
  shows "f' \<noteq> f \<Longrightarrow> fut (snd (wake_waiter cur f w)) f' = fut w f'"
    "fs_state (fut (snd (wake_waiter cur f w)) f') = fs_state (fut w f')"
    "fs_result (fut (snd (wake_waiter cur f w)) f') = fs_result (fut w f')"
  using assms by (auto simp: wake_waiter_def fut_fupd split: sum.splits)

lemma setResult_eq:
  assumes "f < length (fw_futures w)"
  shows "setResult me f r w =
    (let w1 = fupd f (\<lambda>s. s\<lparr>fs_result := r\<rparr>) w
     in if Result_empty r then Some (Throw Terminated, w1) else FutureState_notify me f w1)"
proof -
  have "fs_state (fut (fupd f (\<lambda>s. s\<lparr>fs_state := FReady\<rparr>) (fupd f (\<lambda>s. s\<lparr>fs_result := r\<rparr>) w)) f) = FReady"
    using assms by (simp add: fut_fupd)
  then show ?thesis
    by (subst setResult.simps)
       (simp only: Let_def FutureState_notify_def resolveChain_def run_then_def simp_thms if_False)
qed

text \<open>The call returned: the order of the chains and the size of the table are kept, and the futures older than \<open>f\<close> are untouched.\<close>

definition good :: "nat \<Rightarrow> 'v fworld \<Rightarrow> (unit outcome \<times> 'v fworld) option \<Rightarrow> bool" where
  "good f w0 r \<longleftrightarrow> (\<exists>res w. r = Some (res, w) \<and> chains_ok w \<and> length (fw_futures w) = length (fw_futures w0)
     \<and> (\<forall>k < f. fut w k = fut w0 k))"

lemma good_Some: "good f w0 (Some rw) \<longleftrightarrow> chains_ok (snd rw) \<and> length (fw_futures (snd rw)) = length (fw_futures w0)
     \<and> (\<forall>k < f. fut (snd rw) k = fut w0 k)"
  by (cases rw) (simp add: good_def)

lemma good_bind: "good f w0 r \<Longrightarrow>
    (\<And>res w. chains_ok w \<Longrightarrow> length (fw_futures w) = length (fw_futures w0) \<Longrightarrow> \<forall>k < f. fut w k = fut w0 k \<Longrightarrow> good f w0 (k (res, w)))
    \<Longrightarrow> good f w0 (Option.bind r k)"
  by (auto simp: good_def)

lemma good_trans: "good f w r \<Longrightarrow> length (fw_futures w) = length (fw_futures w0) \<Longrightarrow> f0 \<le> f \<Longrightarrow> \<forall>k < f0. fut w k = fut w0 k \<Longrightarrow> good f0 w0 r"
  by (auto simp: good_def)

lemma run_then_good:
  fixes w :: "'v fworld"
  assumes rec: "\<And>r (w' :: 'v fworld). chains_ok w' \<Longrightarrow> length (fw_futures w') = length (fw_futures w) \<Longrightarrow> good d w' (setResult me d r w')"
    and "chains_ok w"
  shows "good d w (run_then me d f fn w)"
proof (cases "obind (resultValue f w) fn")
  case (Inl e)
  then show ?thesis using assms by (cases e) (simp_all add: run_then_def good_Some)
next
  case (Inr u)
  have k: "good d w (case res of Inl (Raise dm c) \<Rightarrow> setResult me d (RError (dm, c)) w' | _ \<Rightarrow> Some (res, w'))"
    if "chains_ok w'" "length (fw_futures w') = length (fw_futures w)" "\<forall>k < d. fut w' k = fut w k" for res and w' :: "'v fworld"
    using that good_trans [OF rec [OF that(1,2)] that(2) order_refl that(3)] by (auto simp: good_Some split: sum.split exn.split)
  show ?thesis unfolding run_then_def Inr sum.case
    by (rule good_bind [OF rec [OF assms(2) refl]]) (simp only: prod.case, rule k)
qed

text \<open>The chained future is newer, so resolving the chain leaves \<open>f\<close> itself as it is, but for the chain.\<close>

lemma resolveChain_good:
  fixes w :: "'v fworld"
  assumes rec: "\<And>d r (w' :: 'v fworld). f < d \<Longrightarrow> d < length (fw_futures w) \<Longrightarrow> chains_ok w' \<Longrightarrow>
      length (fw_futures w') = length (fw_futures w) \<Longrightarrow> good d w' (setResult me d r w')"
    and "chains_ok w" "f < length (fw_futures w)" "fs_state (fut w f) = FReady"
  shows "good (Suc f) (fupd f (\<lambda>s. s\<lparr>fs_chainedFuture := None, fs_chainedCallback := None\<rparr>) w) (resolveChain me f w)"
proof -
  let ?w1 = "fupd f (\<lambda>s. s\<lparr>fs_chainedFuture := None, fs_chainedCallback := None\<rparr>) w"
  have w1: "chains_ok ?w1" "length (fw_futures ?w1) = length (fw_futures w)" using assms by (simp_all add: chains_ok_fupd)
  show ?thesis
  proof (cases "fs_chainedFuture (fut w f)")
    case None
    then show ?thesis using w1 assms(4) by (simp add: resolveChain_def good_Some Let_def)
  next
    case (Some d)
    have d: "f < d" "d < length (fw_futures w)" using chains_okD [OF assms(2,3) Some] by simp_all
    have r: "good (Suc f) ?w1 x" if "good d ?w1 x" for x
      using good_trans [OF that refl] d(1) by (simp add: Suc_le_eq)
    have "good d ?w1 (run_then me d f fn ?w1)" for fn using rec [OF d] w1 by (intro run_then_good) simp_all
    from rec [OF d w1, THEN r] this [THEN r] chains_ok_post [OF w1(1) d(1)] d(2) Some assms(4) show ?thesis
      by (simp add: resolveChain_def good_Some Let_def)
  qed
qed

definition set_ok :: "nat \<Rightarrow> 'v Result \<Rightarrow> (unit outcome \<times> 'v fworld) option \<Rightarrow> bool" where
  "set_ok f r x \<longleftrightarrow> (\<forall>res w. x = Some (res, w) \<longrightarrow> fs_state (fut w f) = FReady \<and> fs_result (fut w f) = r)"

lemma set_ok_Some: "set_ok f r (Some rw) \<longleftrightarrow> fs_state (fut (snd rw) f) = FReady \<and> fs_result (fut (snd rw) f) = r"
  by (cases rw) (simp add: set_ok_def)

lemma notify_good:
  fixes w :: "'v fworld"
  assumes rec: "\<And>d r (w' :: 'v fworld). f < d \<Longrightarrow> d < length (fw_futures w) \<Longrightarrow> chains_ok w' \<Longrightarrow>
      length (fw_futures w') = length (fw_futures w) \<Longrightarrow> good d w' (setResult me d r w')"
    and "chains_ok w" "f < length (fw_futures w)"
  shows "good f w (FutureState_notify me f w) \<and> set_ok f (fs_result (fut w f)) (FutureState_notify me f w)"
proof -
  let ?w2 = "fupd f (\<lambda>s. s\<lparr>fs_state := FReady\<rparr>) w"
  let ?in = "case fs_state (fut w f) of FEmpty \<Rightarrow> Some (Ok (), ?w2) | FWaiting \<Rightarrow> Some (wake_waiter (me = fw_thread ?w2) f ?w2)
      | FChained \<Rightarrow> resolveChain me f ?w2 | FReady \<Rightarrow> Some (raise_crouton LogicError, ?w2)"
  have w2: "chains_ok ?w2" "length (fw_futures ?w2) = length (fw_futures w)" "f < length (fw_futures ?w2)"
      "fs_state (fut ?w2 f) = FReady" "fs_result (fut ?w2 f) = fs_result (fut w f)"
    using assms by (simp_all add: chains_ok_fupd fut_fupd)
  have res: "good (Suc f) (fupd f (\<lambda>s. s\<lparr>fs_chainedFuture := None, fs_chainedCallback := None\<rparr>) ?w2) (resolveChain me f ?w2)"
    by (rule resolveChain_good [OF _ w2(1,3,4)]) (use rec in simp)
  have chained: "good f w (resolveChain me f ?w2) \<and> set_ok f (fs_result (fut w f)) (resolveChain me f ?w2)"
    using res assms(3) by (auto simp: good_def set_ok_def fut_fupd)
  have "good f w ?in \<and> set_ok f (fs_result (fut w f)) ?in"
    using w2 assms(3) chained
    by (cases "fs_state (fut w f)") (simp_all add: good_Some set_ok_Some chains_ok_wake fut_wake fut_fupd)
  then obtain res w3 where w3: "?in = Some (res, w3)" "chains_ok w3" "length (fw_futures w3) = length (fw_futures w)"
      "\<forall>k < f. fut w3 k = fut w k" "fs_state (fut w3 f) = FReady" "fs_result (fut w3 f) = fs_result (fut w f)"
    by (auto simp: good_def set_ok_def)
  then have f: "f < length (fw_futures w3)" using assms(3) by simp
  have "FutureState_notify me f w = Some (case res of Inl e \<Rightarrow> (Throw e, w3) | Inr _ \<Rightarrow> (Ok (), fire_onReady f w3))"
    using w3(1) by (simp add: FutureState_notify_def Let_def)
  with w3(2-) f show ?thesis by (cases res) (simp_all add: good_Some set_ok_Some chains_ok_fire)
qed

lemma setResult_good:
  fixes w :: "'v fworld"
  assumes "chains_ok w" "f < length (fw_futures w)"
  shows "good f w (setResult me f r w) \<and> (\<not> Result_empty r \<longrightarrow> set_ok f r (setResult me f r w))"
  using assms
proof (induction "length (fw_futures w) - f" arbitrary: f r w rule: less_induct)
  case less
  let ?w1 = "fupd f (\<lambda>s. s\<lparr>fs_result := r\<rparr>) w"
  have w1: "chains_ok ?w1" "f < length (fw_futures ?w1)" using less.prems by (simp_all add: chains_ok_fupd)
  have rec: "good d w' (setResult me d r' w')" if "f < d" "d < length (fw_futures ?w1)" "chains_ok w'"
      "length (fw_futures w') = length (fw_futures ?w1)" for d r' and w' :: "'v fworld"
  proof -
    have "length (fw_futures w') - d < length (fw_futures w) - f" using that by simp
    from less.hyps [OF this that(3)] that(2,4) show ?thesis by simp
  qed
  have n: "good f ?w1 (FutureState_notify me f ?w1) \<and> set_ok f (fs_result (fut ?w1 f)) (FutureState_notify me f ?w1)"
    by (rule notify_good [OF rec w1])
  then have "good f w (FutureState_notify me f ?w1)" using less.prems(2) by (auto simp: good_def fut_fupd)
  then show ?case using w1 less.prems(2) n by (simp add: setResult_eq good_Some Let_def fut_fupd)
qed

lemma setResult_Empty:
  assumes "f < length (fw_futures w)" "fs_state (fut w f) = FEmpty" "\<not> Result_empty r"
  shows "setResult me f r w = Some (Ok (), fire_onReady f (fupd f (\<lambda>s. s\<lparr>fs_result := r, fs_state := FReady\<rparr>) w))"
proof -
  have "fupd f (\<lambda>s. s\<lparr>fs_state := FReady\<rparr>) (fupd f (\<lambda>s. s\<lparr>fs_result := r\<rparr>) w) = fupd f (\<lambda>s. s\<lparr>fs_result := r, fs_state := FReady\<rparr>) w"
    using assms(1) by (simp add: fupd_def)
  then show ?thesis using assms by (simp add: setResult_eq FutureState_notify_def Let_def fut_fupd)
qed

lemma fire_world [simp]: "fw_sched (fire_onReady f w) = fw_sched w" "fw_lc (fire_onReady f w) = fw_lc w"
  by (simp_all add: fire_onReady_def fupd_def)

text \<open>What a future made by \<^verbatim>\<open>then(fn)\<close> from one with result \<open>r\<close> resolves to.\<close>

fun then_result :: "('v \<Rightarrow> 'v outcome) \<Rightarrow> 'v Result \<Rightarrow> 'v Result" where
  "then_result fn (RError e) = RError e"
| "then_result fn (RValue v) =
     (case fn v of Inr u \<Rightarrow> RValue u | Inl (Raise dm c) \<Rightarrow> RError (dm, c) | Inl _ \<Rightarrow> Result_empty_value)"

text \<open>The callback returns, or throws an exception with a real error code.\<close>

definition throws_errors :: "('v \<Rightarrow> 'v outcome) \<Rightarrow> 'v Result \<Rightarrow> bool" where
  "throws_errors fn r \<longleftrightarrow> (case r of RError _ \<Rightarrow> True | RValue v \<Rightarrow>
     (case fn v of Inr _ \<Rightarrow> True | Inl (Raise dm c) \<Rightarrow> c \<noteq> 0 | Inl _ \<Rightarrow> False))"

lemma then_result_not_empty: "\<not> Result_empty r \<Longrightarrow> throws_errors fn r \<Longrightarrow> \<not> Result_empty (then_result fn r)"
  by (cases r) (auto simp: throws_errors_def split: sum.splits exn.splits)

lemma resolveChain_resolves:
  assumes "f < length (fw_futures w)" "d < length (fw_futures w)" "d \<noteq> f" "fs_state (fut w f) = FReady"
    and "fs_state (fut w d) = FEmpty" "\<not> Result_empty (fs_result (fut w f))" "throws_errors fn (fs_result (fut w f))"
    and "fs_chainedFuture (fut w f) = Some d" "fs_chainedCallback (fut w f) = Some fn" "fs_chainedScheduler (fut w f) = Some me"
  shows "\<exists>w'. resolveChain me f w = Some (Ok (), w') \<and> fs_state (fut w' d) = FReady
     \<and> fs_result (fut w' d) = then_result fn (fs_result (fut w f)) \<and> length (fw_futures w') = length (fw_futures w)"
proof -
  let ?w1 = "fupd f (\<lambda>s. s\<lparr>fs_chainedFuture := None, fs_chainedCallback := None\<rparr>) w"
  have d: "d < length (fw_futures ?w1)" "fs_state (fut ?w1 d) = FEmpty" using assms by (simp_all add: fut_fupd)
  have set: "\<exists>w'. setResult me d r ?w1 = Some (Ok (), w') \<and> fs_state (fut w' d) = FReady \<and> fs_result (fut w' d) = r
     \<and> length (fw_futures w') = length (fw_futures w)" if "\<not> Result_empty r" for r
    using setResult_Empty [OF d that] d(1) by (simp add: fut_fupd)
  show ?thesis
  proof (cases "fs_result (fut w f)")
    case (RError e)
    then show ?thesis using assms set [of "RError e"]
      by (auto simp: resolveChain_def Let_def getError_def fut_fupd)
  next
    case (RValue v)
    then have "resolveChain me f w = run_then me d f fn ?w1"
      using assms by (simp add: resolveChain_def Let_def getError_def fut_fupd no_err_def)
    moreover have "obind (resultValue f ?w1) fn = fn v" using RValue assms(1) by (simp add: resultValue_def fut_fupd)
    ultimately show ?thesis
      using set [of "then_result fn (RValue v)"] RValue assms(7) then_result_not_empty [of "RValue v" fn]
      by (auto simp: run_then_def throws_errors_def split: sum.splits exn.splits)
  qed
qed

lemma new_provider_simps:
  assumes "new_provider w = (d, w1)"
  shows "d = length (fw_futures w)" "length (fw_futures w1) = Suc (length (fw_futures w))"
    "fut w1 d = new_FutureState" "\<And>f. f < length (fw_futures w) \<Longrightarrow> fut w1 f = fut w f"
  using assms by (auto simp: new_provider_def fut_def nth_append)

subsection \<open>Reachable worlds\<close>

text \<open>
  What clients of the futures do: make providers, set results, register callbacks and \<^verbatim>\<open>onReady\<close> functions, await,
  drop a future; an event loop runs a callback posted to it; coroutines and schedulers change meanwhile.
\<close>

inductive future_step :: "'v fworld \<Rightarrow> 'v fworld \<Rightarrow> bool" where
  provider: "new_provider w = (d, w') \<Longrightarrow> future_step w w'"
| set: "f < length (fw_futures w) \<Longrightarrow> setResult me f r w = Some (res, w') \<Longrightarrow> future_step w w'"
| chain: "f < length (fw_futures w) \<Longrightarrow> future_then me f fn w = Some (d, res, w') \<Longrightarrow> future_step w w'"
| posted: "fw_posted w = ps @ (d, f, fn) # qs \<Longrightarrow> run_then me d f fn (w\<lparr>fw_posted := ps @ qs\<rparr>) = Some (res, w') \<Longrightarrow> future_step w w'"
| onReady: "f < length (fw_futures w) \<Longrightarrow> future_step w (future_onReady f fn w)"
| suspend_begin: "f < length (fw_futures w) \<Longrightarrow> future_suspend_begin f h w = Ok (vacant, w') \<Longrightarrow> future_step w w'"
| suspend_end: "f < length (fw_futures w) \<Longrightarrow> future_suspend_end f h (vacant, w) = Ok (n, w') \<Longrightarrow> future_step w w'"
| no_future: "f < length (fw_futures w) \<Longrightarrow> noFuture f w = Ok w' \<Longrightarrow> future_step w w'"
| others: "future_step w (w\<lparr>fw_lc := lc, fw_sched := s\<rparr>)"

definition no_futures :: "'v fworld \<Rightarrow> bool" where
  "no_futures w \<longleftrightarrow> fw_futures w = [] \<and> fw_posted w = []"

definition future_reachable :: "'v fworld \<Rightarrow> bool" where
  "future_reachable w \<longleftrightarrow> (\<exists>w0. no_futures w0 \<and> future_step\<^sup>*\<^sup>* w0 w)"

lemma future_reachable_step: "future_reachable w \<Longrightarrow> future_step w w' \<Longrightarrow> future_reachable w'"
  unfolding future_reachable_def by (meson rtranclp.rtrancl_into_rtrancl)

lemma chains_ok_provider:
  assumes "new_provider w = (d, w')" "chains_ok w"
  shows "chains_ok w'"
proof (rule chains_okI)
  note d = new_provider_simps [OF assms(1)]
  fix f e assume f: "f < length (fw_futures w')" "fs_chainedFuture (fut w' f) = Some e"
  then have "f \<noteq> d" using d(3) by (auto simp: new_FutureState_def)
  with f d have "f < length (fw_futures w)" "fs_chainedFuture (fut w f) = Some e" by auto
  from chains_okD [OF assms(2) this] d(2) show "f < e \<and> e < length (fw_futures w')" by simp
next
  show "\<forall>(d, f, fn) \<in> set (fw_posted w'). f < d \<and> d < length (fw_futures w')"
    using assms by (auto simp: new_provider_def dest: chains_ok_posted)
qed

lemma chains_ok_link:
  assumes "chains_ok w" "f < d" "d < length (fw_futures w)"
  shows "chains_ok (fupd f (\<lambda>s. s\<lparr>fs_chainedFuture := Some d, fs_chainedCallback := cb, fs_chainedScheduler := sc\<rparr>) w)" (is "chains_ok ?w")
proof (rule chains_okI)
  fix f' e assume "f' < length (fw_futures ?w)" "fs_chainedFuture (fut ?w f') = Some e"
  then show "f' < e \<and> e < length (fw_futures ?w)" using assms(2,3) chains_okD [OF assms(1), of f' e]
    by (cases "f' = f") (simp_all add: fut_fupd)
qed (use assms(1) in \<open>auto dest: chains_ok_posted\<close>)

lemma setResult_keeps:
  "chains_ok w \<Longrightarrow> f < length (fw_futures w) \<Longrightarrow> good f w (setResult me f r w)"
  using setResult_good by blast

lemma resolveChain_keeps:
  assumes "chains_ok w" "f < length (fw_futures w)" "fs_state (fut w f) = FReady"
  shows "\<exists>res w'. resolveChain me f w = Some (res, w') \<and> chains_ok w' \<and> length (fw_futures w') = length (fw_futures w)"
  using resolveChain_good [OF setResult_keeps assms, of me] by (simp add: good_def) blast

lemma future_then_keeps:
  assumes "chains_ok w" "f < length (fw_futures w)"
  shows "\<exists>d res w'. future_then me f fn w = Some (d, res, w') \<and> chains_ok w' \<and> length (fw_futures w') = Suc (length (fw_futures w))"
proof -
  obtain d w0 where np: "new_provider w = (d, w0)" by fastforce
  note d = new_provider_simps [OF np]
  let ?w1 = "fupd f (\<lambda>s. s\<lparr>fs_chainedFuture := Some d, fs_chainedCallback := Some fn, fs_chainedScheduler := Some me\<rparr>) w0"
  have f: "f < d" "d < length (fw_futures w0)" "f < length (fw_futures w0)" using assms(2) d(1,2) by simp_all
  have ok: "chains_ok w0" "chains_ok ?w1" "f < length (fw_futures ?w1)"
    using chains_ok_provider [OF np assms(1)] f chains_ok_link by auto
  have st: "fs_state (fut ?w1 f) = fs_state (fut w0 f)" using f(3) by (simp add: fut_fupd)
  have "\<exists>res w'. future_chain me f d fn w0 = Some (res, w') \<and> chains_ok w' \<and> length (fw_futures w') = length (fw_futures w0)"
    using resolveChain_keeps [OF ok(2,3), of me] ok st f(3) chains_ok_fupd [OF ok(2,3)]
    by (cases "fs_state (fut w0 f)") (auto simp: future_chain_def checkEmpty_def changeState_def Let_def)
  then show ?thesis using np d(2) by (auto simp: future_then_def)
qed

lemma wake_waiter_fst: "wake_waiter cur f w = (res, w') \<Longrightarrow> w' = snd (wake_waiter cur f w)"
  by simp

lemma future_step_ok: "future_step w w' \<Longrightarrow> chains_ok w \<Longrightarrow> chains_ok w'"
proof (induction rule: future_step.induct)
  case (provider w d w')
  then show ?case by (rule chains_ok_provider)
next
  case (set f w me r res w')
  then show ?case using setResult_keeps [of w f me r] by (simp add: good_def)
next
  case (chain f w me fn d res w')
  then show ?case using future_then_keeps [of w f me fn] by auto
next
  case (posted w ps d f fn qs me res w')
  let ?w = "w\<lparr>fw_posted := ps @ qs\<rparr>"
  have "\<forall>(d, f, fn) \<in> set (ps @ qs). f < d \<and> d < length (fw_futures w)"
    using posted(1) chains_ok_posted [OF posted.prems] by fastforce
  then have w: "chains_ok ?w" by (rule chains_ok_change_posted [OF posted.prems])
  have "d < length (fw_futures ?w)" using posted(1) chains_ok_posted [OF posted.prems, of d f fn] by simp
  then have "good d ?w (run_then me d f fn ?w)" by (intro run_then_good [OF setResult_keeps w]) simp_all
  then show ?case using posted(2) by (simp add: good_def)
next
  case (onReady f w fn)
  then show ?case by (auto simp: future_onReady_def chains_ok_fupd split: option.split)
next
  case (suspend_begin f w h vacant w')
  then show ?case
    by (auto simp: future_suspend_begin_def obind_eq_Ok assert_that_eq_Ok chains_ok_fupd split: if_splits)
next
  case (suspend_end f w h vacant n w')
  then show ?case
    by (auto simp: future_suspend_end_def changeState_def obind_eq_Ok chains_ok_fupd
        dest!: wake_waiter_fst intro!: chains_ok_wake split: bool.splits if_splits prod.splits sum.splits)
next
  case (no_future f w w')
  then show ?case by (auto simp: noFuture_def obind_eq_Ok chains_ok_fupd split: if_splits)
qed simp

lemma future_reachable_ok:
  assumes "future_reachable w"
  shows "chains_ok w"
proof -
  obtain w0 where w0: "no_futures w0" "future_step\<^sup>*\<^sup>* w0 w" using assms by (auto simp: future_reachable_def)
  have "chains_ok w0" using w0(1) by (simp add: no_futures_def chains_ok_def)
  with w0(2) show ?thesis by (induction rule: rtranclp_induct) (auto intro: future_step_ok)
qed

subsection \<open>Chains\<close>

text \<open>
  \<open>f\<close> has a callback \<open>fn\<close> whose future \<open>d\<close> has in turn the next callback, and so on to a future that nobody
  has used; all were registered on thread \<open>me\<close>.
\<close>

fun chained :: "thread \<Rightarrow> 'v fworld \<Rightarrow> nat \<Rightarrow> ('v \<Rightarrow> 'v outcome) list \<Rightarrow> nat list \<Rightarrow> bool" where
  "chained me w f [] [] \<longleftrightarrow> fs_state (fut w f) = FEmpty"
| "chained me w f (fn # fns) (d # ds) \<longleftrightarrow> fs_state (fut w f) = FChained \<and> fs_chainedFuture (fut w f) = Some d
     \<and> fs_chainedCallback (fut w f) = Some fn \<and> fs_chainedScheduler (fut w f) = Some me \<and> chained me w d fns ds"
| "chained me w f _ _ \<longleftrightarrow> False"

text \<open>What the futures of the chain get when the first one gets \<open>r\<close>, and that the callbacks return or throw real errors on the way.\<close>

fun then_results :: "('v \<Rightarrow> 'v outcome) list \<Rightarrow> 'v Result \<Rightarrow> 'v Result list" where
  "then_results [] r = []"
| "then_results (fn # fns) r = then_result fn r # then_results fns (then_result fn r)"

fun thens_ok :: "('v \<Rightarrow> 'v outcome) list \<Rightarrow> 'v Result \<Rightarrow> bool" where
  "thens_ok [] r \<longleftrightarrow> True"
| "thens_ok (fn # fns) r \<longleftrightarrow> throws_errors fn r \<and> thens_ok fns (then_result fn r)"

definition resolved_to :: "'v fworld \<Rightarrow> nat \<Rightarrow> 'v Result \<Rightarrow> bool" where
  "resolved_to w d q \<longleftrightarrow> hasResult d w \<and> fs_result (fut w d) = q"

lemma chained_cong:
  assumes "chains_ok w" "d < length (fw_futures w)" "\<forall>k \<ge> d. fut w' k = fut w k" "chained me w d fns ds"
  shows "chained me w' d fns ds"
  using assms(2-)
proof (induction fns arbitrary: d ds)
  case Nil
  then show ?case by (cases ds) simp_all
next
  case (Cons fn fns)
  then obtain e es where ds: "ds = e # es" by (cases ds) auto
  with Cons.prems(3) have "fs_chainedFuture (fut w d) = Some e" "chained me w e fns es" by simp_all
  moreover have e: "d < e \<and> e < length (fw_futures w)" using chains_okD [OF assms(1) Cons.prems(1)] calculation(1) .
  moreover have "\<forall>k \<ge> e. fut w' k = fut w k" using Cons.prems(2) e by simp
  ultimately have "chained me w' e fns es" using Cons.IH by blast
  with Cons.prems(2,3) ds show ?case by simp
qed

lemma resolveChain_run:
  assumes "f < length (fw_futures w)" "fs_state (fut w f) = FReady" "\<not> Result_empty (fs_result (fut w f))"
    and "fs_chainedFuture (fut w f) = Some d" "fs_chainedCallback (fut w f) = Some fn" "fs_chainedScheduler (fut w f) = Some me"
    and "throws_errors fn (fs_result (fut w f))"
    and set: "setResult me d (then_result fn (fs_result (fut w f)))
      (fupd f (\<lambda>s. s\<lparr>fs_chainedFuture := None, fs_chainedCallback := None\<rparr>) w) = Some (Ok (), w')"
  shows "resolveChain me f w = Some (Ok (), w')"
proof -
  let ?w1 = "fupd f (\<lambda>s. s\<lparr>fs_chainedFuture := None, fs_chainedCallback := None\<rparr>) w"
  show ?thesis
  proof (cases "fs_result (fut w f)")
    case (RError e)
    then show ?thesis using assms by (auto simp: resolveChain_def Let_def getError_def fut_fupd)
  next
    case (RValue v)
    then have "resolveChain me f w = run_then me d f fn ?w1"
      using assms by (simp add: resolveChain_def Let_def getError_def fut_fupd no_err_def)
    moreover have "obind (resultValue f ?w1) fn = fn v" using RValue assms(1) by (simp add: resultValue_def fut_fupd)
    ultimately show ?thesis using RValue assms(7) set
      by (auto simp: run_then_def throws_errors_def split: sum.splits exn.splits)
  qed
qed

lemma chain_resolves:
  assumes "chains_ok w" "f < length (fw_futures w)" "chained me w f fns ds" "thens_ok fns r" "\<not> Result_empty r"
  shows "\<exists>w'. setResult me f r w = Some (Ok (), w') \<and> list_all2 (resolved_to w') ds (then_results fns r)"
  using assms
proof (induction fns arbitrary: w f ds r)
  case Nil
  then show ?case using setResult_Empty [of f w r me] by (cases ds) simp_all
next
  case (Cons fn fns)
  then obtain d ds' where ds: "ds = d # ds'" by (cases ds) auto
  let ?q = "then_result fn r"
  let ?w1 = "fupd f (\<lambda>s. s\<lparr>fs_result := r\<rparr>) w"
  let ?w2 = "fupd f (\<lambda>s. s\<lparr>fs_state := FReady\<rparr>) ?w1"
  let ?w3 = "fupd f (\<lambda>s. s\<lparr>fs_chainedFuture := None, fs_chainedCallback := None\<rparr>) ?w2"
  have link: "fs_state (fut w f) = FChained" "fs_chainedFuture (fut w f) = Some d" "fs_chainedCallback (fut w f) = Some fn"
      "fs_chainedScheduler (fut w f) = Some me" "chained me w d fns ds'" using Cons.prems(3) ds by simp_all
  have d: "f < d" "d < length (fw_futures w)" using chains_okD [OF Cons.prems(1,2) link(2)] by simp_all
  have w3: "chains_ok ?w3" "d < length (fw_futures ?w3)" using Cons.prems(1,2) d by (simp_all add: chains_ok_fupd)
  have "chained me ?w3 d fns ds'"
    by (rule chained_cong [OF Cons.prems(1) d(2) _ link(5)]) (use d Cons.prems(2) in \<open>auto simp: fut_fupd\<close>)
  moreover have "\<not> Result_empty ?q" using Cons.prems(4,5) by (intro then_result_not_empty) simp_all
  ultimately obtain w4 where w4: "setResult me d ?q ?w3 = Some (Ok (), w4)" "list_all2 (resolved_to w4) ds' (then_results fns ?q)"
    using Cons.IH [OF w3] Cons.prems(4) by auto
  have len: "length (fw_futures w4) = length (fw_futures w)" and q: "resolved_to w4 d ?q"
    using setResult_good [OF w3, of me ?q] w4(1) \<open>\<not> Result_empty ?q\<close> by (auto simp: good_def set_ok_def resolved_to_def hasResult_def)
  have "resolveChain me f ?w2 = Some (Ok (), w4)"
    using link w4(1) Cons.prems(2,4,5) by (intro resolveChain_run) (simp_all add: fut_fupd)
  then have "setResult me f r w = Some (Ok (), fire_onReady f w4)"
    using Cons.prems(2,5) link(1) by (simp add: setResult_eq FutureState_notify_def Let_def fut_fupd)
  moreover have "resolved_to (fire_onReady f w4) = resolved_to w4"
    using len Cons.prems(2) by (simp add: resolved_to_def hasResult_def fun_eq_iff)
  ultimately show ?case using ds w4(2) q by simp
qed

text \<open>
  C33. In every world that the operations of futures can reach, setting the result of a future returns,
  however many futures are chained to it one after the other, because a chained future is always newer
  than the one it is chained to; and so does \<^verbatim>\<open>then\<close>. The future is ready with the result that was set.
  When callbacks were chained to it on this thread, each future down the chain is ready too, with what the
  callbacks up to it make of the result: their values in turn, or the first error, which skips the callbacks
  after it.
\<close>

theorem setResult_returns:
  assumes "future_reachable w" "f < length (fw_futures w)"
  shows "(\<exists>res w'. setResult me f r w = Some (res, w') \<and> length (fw_futures w') = length (fw_futures w)
      \<and> (\<not> Result_empty r \<longrightarrow> resolved_to w' f r
        \<and> (\<forall>fns ds. chained me w f fns ds \<and> thens_ok fns r \<longrightarrow> res = Ok () \<and> list_all2 (resolved_to w') ds (then_results fns r))))
    \<and> (\<exists>d res w'. future_then me f fn w = Some (d, res, w'))"
proof -
  note ok = future_reachable_ok [OF assms(1)]
  obtain res w' where s: "setResult me f r w = Some (res, w')" "length (fw_futures w') = length (fw_futures w)"
      "\<not> Result_empty r \<longrightarrow> resolved_to w' f r"
    using setResult_good [OF ok assms(2), of me r] by (auto simp: good_def set_ok_def resolved_to_def hasResult_def)
  then have "\<not> Result_empty r \<and> chained me w f fns ds \<and> thens_ok fns r \<longrightarrow>
      res = Ok () \<and> list_all2 (resolved_to w') ds (then_results fns r)" for fns ds
    using chain_resolves [OF ok assms(2), of me fns ds r] by auto
  with s future_then_keeps [OF ok assms(2), of me fn] show ?thesis by blast
qed

definition no_world :: "nat fworld" where
  "no_world = \<lparr>fw_futures = [], fw_lc = one_running, fw_sched = new_Scheduler, fw_thread = 0, fw_called = [], fw_posted = []\<rparr>"

text \<open>A future, a callback that adds one, and a callback on that one's future that throws.\<close>

theorem setResult_returns_witness:
  "\<exists>w0 d1 w1 d2 w2 w3. new_provider no_world = (0, w0) \<and> future_then 0 0 (\<lambda>n. Ok (n + 1)) w0 = Some (d1, Ok (), w1)
     \<and> future_then 0 d1 (\<lambda>n. raise_crouton Cancelled) w1 = Some (d2, Ok (), w2)
     \<and> setResult 0 0 (RValue 41) w2 = Some (Ok (), w3) \<and> fs_result (fut w3 d1) = RValue 42
     \<and> Result_value (fs_result (fut w3 d2)) = raise_crouton Cancelled"
proof -
  let ?f1 = "\<lambda>n. Ok (n + 1) :: nat outcome" and ?f2 = "\<lambda>n. raise_crouton Cancelled :: nat outcome"
  define w0 where "w0 = snd (new_provider no_world)"
  define w1 where "w1 = snd (snd (the (future_then 0 0 ?f1 w0)))"
  define w2 where "w2 = snd (snd (the (future_then 0 1 ?f2 w1)))"
  note defs = no_world_def new_provider_def future_then_def future_chain_def checkEmpty_def changeState_def fut_def fupd_def
    new_FutureState_def Let_def
  have 0: "new_provider no_world = (0, w0)" by (simp add: w0_def defs)
  have 1: "future_then 0 0 ?f1 w0 = Some (1, Ok (), w1)" by (simp add: w1_def w0_def defs)
  have 2: "future_then 0 1 ?f2 w1 = Some (2, Ok (), w2)" by (simp add: w2_def w1_def w0_def defs)
  have "future_reachable no_world"
    unfolding future_reachable_def by (rule exI [of _ no_world]) (simp add: no_futures_def no_world_def)
  then have "future_reachable w0" by (rule future_reachable_step) (rule future_step.provider [OF 0])
  then have "future_reachable w1" by (rule future_reachable_step) (rule future_step.chain [OF _ 1], simp add: w0_def defs)
  then have r: "future_reachable w2" by (rule future_reachable_step) (rule future_step.chain [OF _ 2], simp add: w1_def w0_def defs)
  have c: "0 < length (fw_futures w2)" "chained 0 w2 0 [?f1, ?f2] [1, 2]" by (simp_all add: w2_def w1_def w0_def defs)
  have t: "thens_ok [?f1, ?f2] (RValue 41)" "\<not> Result_empty (RValue 41 :: nat Result)"
    by (simp_all add: throws_errors_def)
  obtain w3 where "setResult 0 0 (RValue 41) w2 = Some (Ok (), w3)" "list_all2 (resolved_to w3) [1, 2] (then_results [?f1, ?f2] (RValue 41))"
    using setResult_returns [OF r c(1), of 0 "RValue 41" ?f1] c(2) t by blast
  with 0 1 2 show ?thesis by (auto simp: resolved_to_def)
qed

subsection \<open>Callbacks and awaiting\<close>

lemma then_any_order_parts:
  assumes "f < length (fw_futures w)" "fs_state (fut w f) = FEmpty" "fs_chainedFuture (fut w f) = None"
    and "\<not> Result_empty r" "throws_errors fn r"
  shows "\<exists>d w1 w2. future_then me f fn w = Some (d, Ok (), w1) \<and> setResult me f r w1 = Some (Ok (), w2)
      \<and> hasResult d w2 \<and> fs_result (fut w2 d) = then_result fn r"
    "\<exists>d w1 w2. setResult me f r w = Some (Ok (), w1) \<and> future_then me f fn w1 = Some (d, Ok (), w2)
      \<and> hasResult d w2 \<and> fs_result (fut w2 d) = then_result fn r"
proof -
  obtain d w0 where np: "new_provider w = (d, w0)" by fastforce
  note d = new_provider_simps [OF np]
  let ?g = "\<lambda>s. s\<lparr>fs_chainedFuture := Some d, fs_chainedCallback := Some fn, fs_chainedScheduler := Some me\<rparr>"
  define w1 where "w1 = fupd f (\<lambda>s. (?g s)\<lparr>fs_state := FChained\<rparr>) w0"
  have len: "f < length (fw_futures w0)" "d < length (fw_futures w0)" "d \<noteq> f" using assms(1) d by auto
  have "fupd f (\<lambda>s. s\<lparr>fs_state := FChained\<rparr>) (fupd f ?g w0) = w1" using len(1) by (simp add: fupd_def w1_def)
  then have "future_then me f fn w = Some (d, Ok (), w1)"
    using assms(1-3) d(4) [OF assms(1)] len np
    by (simp add: future_then_def future_chain_def checkEmpty_def changeState_def Let_def fut_fupd)
  moreover obtain w2 where "setResult me f r w1 = Some (Ok (), w2)" "hasResult d w2" "fs_result (fut w2 d) = then_result fn r"
  proof -
    let ?w = "fupd f (\<lambda>s. s\<lparr>fs_state := FReady\<rparr>) (fupd f (\<lambda>s. s\<lparr>fs_result := r\<rparr>) w1)"
    have "\<exists>w'. resolveChain me f ?w = Some (Ok (), w') \<and> fs_state (fut w' d) = FReady
       \<and> fs_result (fut w' d) = then_result fn r \<and> length (fw_futures w') = length (fw_futures ?w)"
      using resolveChain_resolves [of f ?w d fn me] assms(4,5) len d(3) d(4) [OF assms(1)]
      by (simp add: fut_fupd w1_def new_FutureState_def)
    then show ?thesis using that assms(4) len
      by (auto simp: setResult_eq FutureState_notify_def Let_def fut_fupd w1_def hasResult_def)
  qed
  ultimately show "\<exists>d w1 w2. future_then me f fn w = Some (d, Ok (), w1) \<and> setResult me f r w1 = Some (Ok (), w2)
      \<and> hasResult d w2 \<and> fs_result (fut w2 d) = then_result fn r" by blast
next
  let ?w1 = "fire_onReady f (fupd f (\<lambda>s. s\<lparr>fs_result := r, fs_state := FReady\<rparr>) w)"
  have s1: "setResult me f r w = Some (Ok (), ?w1)" by (rule setResult_Empty [OF assms(1,2,4)])
  obtain d w0 where np: "new_provider ?w1 = (d, w0)" by fastforce
  note d = new_provider_simps [OF np]
  have len: "f < length (fw_futures w0)" "d < length (fw_futures w0)" "d \<noteq> f" using assms(1) d by auto
  have f: "fs_state (fut w0 f) = FReady" "fs_result (fut w0 f) = r" "fs_chainedFuture (fut w0 f) = None"
    using d(4) [of f] assms(1,3) by (simp_all add: fut_fupd)
  let ?w2 = "fupd f (\<lambda>s. s\<lparr>fs_chainedFuture := Some d, fs_chainedCallback := Some fn, fs_chainedScheduler := Some me\<rparr>) w0"
  obtain w2 where "resolveChain me f ?w2 = Some (Ok (), w2)" "hasResult d w2" "fs_result (fut w2 d) = then_result fn r"
    using resolveChain_resolves [of f ?w2 d fn me] assms(4,5) len d(3) f
    by (auto simp: fut_fupd new_FutureState_def hasResult_def)
  then have "future_then me f fn ?w1 = Some (d, Ok (), w2)" using np f
    by (simp add: future_then_def future_chain_def checkEmpty_def Let_def)
  with s1 show "\<exists>d w1 w2. setResult me f r w = Some (Ok (), w1) \<and> future_then me f fn w1 = Some (d, Ok (), w2)
      \<and> hasResult d w2 \<and> fs_result (fut w2 d) = then_result fn r"
    using \<open>hasResult d w2\<close> \<open>fs_result (fut w2 d) = then_result fn r\<close> by blast
qed

definition one_future :: "nat fworld" where
  "one_future = \<lparr>fw_futures = [new_FutureState], fw_lc = one_running, fw_sched = new_Scheduler, fw_thread = 0, fw_called = [], fw_posted = []\<rparr>"

text \<open>
  C12. A callback given to \<^verbatim>\<open>then\<close> gets the result whether it comes before or after: registering the callback
  and then setting the result of the future, on the same thread, or doing it the other way round, resolves
  the future that \<^verbatim>\<open>then\<close> returned, in both cases with what the callback returns or throws for the value, or
  with the original error.
\<close>

theorem then_any_order:
  assumes "f < length (fw_futures w)" "fs_state (fut w f) = FEmpty" "fs_chainedFuture (fut w f) = None"
    and "\<not> Result_empty r" "throws_errors fn r"
  shows "(\<exists>d w1 w2. future_then me f fn w = Some (d, Ok (), w1) \<and> setResult me f r w1 = Some (Ok (), w2)
      \<and> hasResult d w2 \<and> fs_result (fut w2 d) = then_result fn r)
    \<and> (\<exists>d w1 w2. setResult me f r w = Some (Ok (), w1) \<and> future_then me f fn w1 = Some (d, Ok (), w2)
      \<and> hasResult d w2 \<and> fs_result (fut w2 d) = then_result fn r)"
  by (rule conjI [OF then_any_order_parts(1) [OF assms] then_any_order_parts(2) [OF assms]])

theorem then_any_order_witness:
  "\<exists>d w1 w2. future_then 0 0 (\<lambda>n. Ok (n + 1)) one_future = Some (d, Ok (), w1) \<and> setResult 0 0 (RValue 41) w1 = Some (Ok (), w2)
     \<and> fs_result (fut w2 d) = RValue 42"
  using then_any_order [of 0 one_future "RValue 41" "\<lambda>n. Ok (n + 1)" 0]
  by (auto simp: one_future_def fut_def new_FutureState_def throws_errors_def)

lemma running_suspends_noop:
  "running lc t h \<Longrightarrow> \<exists>lc'. lc_suspendingTo t h ty to NoopH lc = Ok (NoopH, lc') \<and> alive lc' h"
  by (auto simp: running_def alive_def lc_suspendingTo_def lc_switching_def switchCurrent_def isNoop_def getInfo_def getInfoIter_def
      assertCurrent_def Let_def info_upd)

lemma wake_waiter_ok:
  assumes "f < length (fw_futures w)" "fs_suspension (fut w f) = Some h" "sched_inv (fw_sched w)" "wakeable (fw_lc w) (fw_sched w) h"
  shows "\<exists>w'. wake_waiter cur f w = (Ok (), w') \<and> h \<in> set (wakers (fw_sched w'))
    \<and> fut w' = fut (fupd f (\<lambda>s. s\<lparr>fs_suspension := None\<rparr>) w) \<and> length (fw_futures w') = length (fw_futures w)"
  using wakeUp_wakeable [OF assms(3,4), of cur] assms(2) by (auto simp: wake_waiter_def)

lemma await_future_parts:
  assumes "f < length (fw_futures w)" "fs_state (fut w f) = FEmpty" "fs_suspension (fut w f) = None" "\<not> Result_empty r"
    and "sched_inv (fw_sched w)" "running (fw_lc w) t h" "\<not> isWaiting h (fw_sched w)" "\<not> isReady h (fw_sched w)"
  shows "\<exists>w'. setResult me f r w = Some (Ok (), w') \<and> Future_await_ready f w' \<and> Future_await_resume f w' = Result_value r"
    "\<exists>w1 w2 w3. future_suspend_begin f h w = Ok (True, w1) \<and> setResult me f r w1 = Some (Ok (), w2)
      \<and> future_suspend_end f h (True, w2) = Ok (NoopH, w3) \<and> h \<in> set (wakers (fw_sched w3))
      \<and> Future_await_resume f w3 = Result_value r"
    "\<exists>w1 w2. Future_await_suspend t NullH f h w = Ok (NoopH, w1) \<and> setResult me f r w1 = Some (Ok (), w2)
      \<and> h \<in> set (wakers (fw_sched w2)) \<and> Future_await_resume f w2 = Result_value r"
proof -
  show "\<exists>w'. setResult me f r w = Some (Ok (), w') \<and> Future_await_ready f w' \<and> Future_await_resume f w' = Result_value r"
    using setResult_Empty [OF assms(1,2,4)] assms(1)
    by (simp add: Future_await_ready_def hasResult_def Future_await_resume_def resultValue_def fut_fupd)
  obtain s1 where s1: "suspend True h (fw_sched w) = Ok (Some h, s1)" "sched_inv s1" "\<And>lc. alive lc h \<Longrightarrow> wakeable lc s1 h"
    using suspend_succeeds [OF assms(5) running_not_null [OF assms(6)] assms(7,8)] by blast
  let ?w1 = "(fupd f (\<lambda>s. s\<lparr>fs_suspension := Some h\<rparr>) w)\<lparr>fw_sched := s1\<rparr>"
  have beg: "future_suspend_begin f h w = Ok (True, ?w1)"
    using assms(2,3) s1(1) by (simp add: future_suspend_begin_def checkEmpty_def)
  have f1: "f < length (fw_futures ?w1)" "fs_state (fut ?w1 f) = FEmpty" "fs_suspension (fut ?w1 f) = Some h"
    using assms(1,2) by (simp_all add: fut_fupd)
  let ?w2 = "fire_onReady f (fupd f (\<lambda>s. s\<lparr>fs_result := r, fs_state := FReady\<rparr>) ?w1)"
  have set1: "setResult me f r ?w1 = Some (Ok (), ?w2)" by (rule setResult_Empty [OF f1(1,2) assms(4)])
  have f2: "f < length (fw_futures ?w2)" "fs_state (fut ?w2 f) = FReady" "fs_suspension (fut ?w2 f) = Some h" "fs_result (fut ?w2 f) = r"
      "wakeable (fw_lc ?w2) (fw_sched ?w2) h" "sched_inv (fw_sched ?w2)"
    using f1 s1(2) s1(3) [OF running_alive [OF assms(6)]] by (simp_all add: fut_fupd)
  obtain w3 where "wake_waiter True f ?w2 = (Ok (), w3)" "h \<in> set (wakers (fw_sched w3))"
      "fut w3 = fut (fupd f (\<lambda>s. s\<lparr>fs_suspension := None\<rparr>) ?w2)"
    using wake_waiter_ok [OF f2(1,3,6,5), of True] by blast
  with f2 have "future_suspend_end f h (True, ?w2) = Ok (NoopH, w3)" "Future_await_resume f w3 = Result_value r"
    by (simp_all add: future_suspend_end_def changeState_def Future_await_resume_def resultValue_def fut_fupd)
  with beg set1 \<open>h \<in> set (wakers (fw_sched w3))\<close>
  show "\<exists>w1 w2 w3. future_suspend_begin f h w = Ok (True, w1) \<and> setResult me f r w1 = Some (Ok (), w2)
      \<and> future_suspend_end f h (True, w2) = Ok (NoopH, w3) \<and> h \<in> set (wakers (fw_sched w3))
      \<and> Future_await_resume f w3 = Result_value r" by blast
  obtain lc1 where lc1: "lc_suspendingTo t h ''Future'' (Some f) NoopH (fw_lc w) = Ok (NoopH, lc1)" "alive lc1 h"
    using running_suspends_noop [OF assms(6)] by blast
  let ?w4 = "(fupd f (\<lambda>s. s\<lparr>fs_state := FWaiting\<rparr>) ?w1)\<lparr>fw_lc := lc1\<rparr>"
  have aw: "Future_await_suspend t NullH f h w = Ok (NoopH, ?w4)"
    using beg f1 lc1(1) by (simp add: Future_await_suspend_def future_suspend_def future_suspend_end_def changeState_def)
  let ?w5 = "fupd f (\<lambda>s. s\<lparr>fs_state := FReady\<rparr>) (fupd f (\<lambda>s. s\<lparr>fs_result := r\<rparr>) ?w4)"
  obtain w6 where w6: "wake_waiter (me = fw_thread w) f ?w5 = (Ok (), w6)" "h \<in> set (wakers (fw_sched w6))"
      "fut w6 = fut (fupd f (\<lambda>s. s\<lparr>fs_suspension := None\<rparr>) ?w5)" "length (fw_futures w6) = length (fw_futures ?w5)"
    using wake_waiter_ok [of f ?w5 h "me = fw_thread w"] f1 s1(2) s1(3) [OF lc1(2)] assms(1) by (auto simp: fut_fupd)
  have "setResult me f r ?w4 = Some (Ok (), fire_onReady f w6)"
    using f1 assms(1,4) w6(1) by (simp add: setResult_eq FutureState_notify_def Let_def fut_fupd)
  moreover have "Future_await_resume f (fire_onReady f w6) = Result_value r"
    using w6(3,4) assms(1) by (simp add: Future_await_resume_def resultValue_def fut_fupd)
  ultimately show "\<exists>w1 w2. Future_await_suspend t NullH f h w = Ok (NoopH, w1) \<and> setResult me f r w1 = Some (Ok (), w2)
      \<and> h \<in> set (wakers (fw_sched w2)) \<and> Future_await_resume f w2 = Result_value r"
    using aw w6(2) by (intro exI [of _ ?w4] exI [of _ "fire_onReady f w6"]) simp
qed

text \<open>The result is set after \<^verbatim>\<open>await_ready\<close> and before \<^verbatim>\<open>suspend\<close> looks: \<^verbatim>\<open>suspend\<close> returns the coroutine itself.\<close>

lemma await_future_late:
  assumes "f < length (fw_futures w)" "fs_state (fut w f) = FEmpty" "\<not> Result_empty r" "running (fw_lc w) t h"
  shows "\<not> Future_await_ready f w \<and> (\<exists>w1. setResult me f r w = Some (Ok (), w1)
      \<and> Future_await_suspend t own f h w1 = Ok (h, w1) \<and> Future_await_resume f w1 = Result_value r)"
proof -
  let ?w1 = "fire_onReady f (fupd f (\<lambda>s. s\<lparr>fs_result := r, fs_state := FReady\<rparr>) w)"
  have w1: "fs_state (fut ?w1 f) = FReady" "fs_result (fut ?w1 f) = r" using assms(1) by (simp_all add: fut_fupd)
  have lc: "lc_suspendingTo t h ''Future'' (Some f) h (fw_lc w) = Ok (h, fw_lc w)" "lc_suspendingToCoro t h own h (fw_lc w) = Ok (h, fw_lc w)"
    using assms(4) by (auto simp: running_def alive_def lc_suspendingTo_def lc_suspendingToCoro_def getInfo_def getInfoIter_def assertCurrent_def)
  have "?w1\<lparr>fw_lc := fw_lc w\<rparr> = ?w1" by (simp add: fire_onReady_def fupd_def)
  then have "Future_await_suspend t own f h ?w1 = Ok (h, ?w1)" using w1(1) lc
    by (simp add: Future_await_suspend_def future_suspend_def future_suspend_begin_def future_suspend_end_def checkEmpty_def)
  with setResult_Empty [OF assms(1-3), of me] w1(2) assms(2) show ?thesis
    by (simp add: Future_await_ready_def hasResult_def Future_await_resume_def resultValue_def)
qed

text \<open>
  C11. A coroutine that awaits a future gets its result, at whichever of the awaiting's steps the provider
  sets it and on whichever thread. If it is set before, the await does not block. If it is set after
  \<^verbatim>\<open>await_ready\<close> found none and before \<^verbatim>\<open>suspend\<close> looks again, the coroutine goes on at once. If it is set while the
  coroutine suspends, between the suspension and the change to \<^verbatim>\<open>Waiting\<close>, or when it is waiting, the coroutine is
  made ready to run. In each case the await returns the value or throws the error that was set.
\<close>

theorem await_future:
  assumes "f < length (fw_futures w)" "fs_state (fut w f) = FEmpty" "fs_suspension (fut w f) = None" "\<not> Result_empty r"
    and "sched_inv (fw_sched w)" "running (fw_lc w) t h" "\<not> isWaiting h (fw_sched w)" "\<not> isReady h (fw_sched w)"
  shows "(\<exists>w'. setResult me f r w = Some (Ok (), w') \<and> Future_await_ready f w' \<and> Future_await_resume f w' = Result_value r)
    \<and> (\<not> Future_await_ready f w \<and> (\<exists>w1. setResult me f r w = Some (Ok (), w1)
      \<and> Future_await_suspend t own f h w1 = Ok (h, w1) \<and> Future_await_resume f w1 = Result_value r))
    \<and> (\<exists>w1 w2 w3. future_suspend_begin f h w = Ok (True, w1) \<and> setResult me f r w1 = Some (Ok (), w2)
      \<and> future_suspend_end f h (True, w2) = Ok (NoopH, w3) \<and> h \<in> set (wakers (fw_sched w3))
      \<and> Future_await_resume f w3 = Result_value r)
    \<and> (\<exists>w1 w2. Future_await_suspend t NullH f h w = Ok (NoopH, w1) \<and> setResult me f r w1 = Some (Ok (), w2)
      \<and> h \<in> set (wakers (fw_sched w2)) \<and> Future_await_resume f w2 = Result_value r)"
  by (rule conjI [OF await_future_parts(1) [OF assms] conjI [OF await_future_late [OF assms(1,2,4,6)]
        conjI [OF await_future_parts(2) [OF assms] await_future_parts(3) [OF assms]]]])

theorem await_future_witness:
  "\<exists>w1 w2. Future_await_suspend 0 NullH 0 (H 3) one_future = Ok (NoopH, w1) \<and> setResult 1 0 (RValue 7) w1 = Some (Ok (), w2)
     \<and> H 3 \<in> set (wakers (fw_sched w2)) \<and> Future_await_resume 0 w2 = Ok 7"
  using await_future [of 0 one_future "RValue 7" 0 "H 3" 1 NullH] new_Scheduler_inv one_running
  by (auto simp: one_future_def fut_def new_FutureState_def new_Scheduler_def)

text \<open>
  A future can be set once: setting it again throws \<^verbatim>\<open>LogicError\<close>. But the result is assigned before the state
  is checked, so the second value replaces the first.
\<close>

lemma second_setResult:
  assumes "f < length (fw_futures w)" "fs_state (fut w f) = FReady" "\<not> Result_empty r"
  shows "\<exists>w'. setResult me f r w = Some (raise_crouton LogicError, w') \<and> fs_result (fut w' f) = r"
  using assms by (simp add: setResult_eq FutureState_notify_def Let_def fut_fupd)

end
