(* ===== verification/Queue.thy ===== *)
theory Queue
  imports CoCondition Errors "HOL-Library.Sublist"
begin

text \<open>
  Producer-consumer queues: \<^verbatim>\<open>AsyncQueue\<close> and \<^verbatim>\<open>BoundedAsyncQueue\<close> of \<^verbatim>\<open>include/crouton/Queue.hh\<close>. The conditions
  \<^verbatim>\<open>_pullCond\<close> and \<^verbatim>\<open>_pushCond\<close> are used through the specification of theory \<open>CoCondition\<close>. Both classes share a
  record; \<open>aq_max\<close> is \<^verbatim>\<open>_maxSize\<close>, or \<open>None\<close> in the base class, and selects the overridden methods. The coroutines
  \<^verbatim>\<open>generate()\<close> and \<^verbatim>\<open>asyncPush()\<close> are functions that run from one suspension to the next.
\<close>

subsection \<open>AsyncQueue\<close>

datatype AQState = AQOpen | AQClosing | AQClosed

record 'v aqueue =
  aq_queue :: "'v list"
  aq_pullCond :: cond_spec
  aq_closeError :: err
  aq_state :: AQState
  aq_generating :: bool
  aq_closeWhenEmpty :: bool
  aq_max :: "nat option"
  aq_pushCond :: cond_spec

definition new_aqueue :: "nat option \<Rightarrow> 'v aqueue" where
  "new_aqueue m = \<lparr>aq_queue = [], aq_pullCond = ([], {}), aq_closeError = no_err, aq_state = AQOpen, aq_generating = False,
     aq_closeWhenEmpty = False, aq_max = m, aq_pushCond = ([], {})\<rparr>"

definition set_closeError :: "err \<Rightarrow> 'v aqueue \<Rightarrow> 'v aqueue" where
  "set_closeError e q = (if \<not> err_true (aq_closeError q) then q\<lparr>aq_closeError := e\<rparr> else q)"

definition super_closePush :: "err \<Rightarrow> 'v aqueue \<Rightarrow> 'v aqueue" where
  "super_closePush e q =
     (if aq_state q = AQOpen then set_closeError e (q\<lparr>aq_state := AQClosing, aq_closeWhenEmpty := True\<rparr>) else q)"

definition super_close :: "err \<Rightarrow> 'v aqueue \<Rightarrow> 'v aqueue" where
  "super_close e q =
     (if aq_state q \<noteq> AQClosed then
        (let q1 = set_closeError e (q\<lparr>aq_state := AQClosed\<rparr>)
         in q1\<lparr>aq_queue := [], aq_pullCond := spec_notifyOne (aq_pullCond q1)\<rparr>)
      else q)"

definition notifyAll_pushers :: "'v aqueue \<Rightarrow> 'v aqueue" where
  "notifyAll_pushers q = q\<lparr>aq_pushCond := spec_notifyAll (aq_pushCond q)\<rparr>"

definition aq_closePush :: "err \<Rightarrow> 'v aqueue \<Rightarrow> 'v aqueue" where
  "aq_closePush e q = (if aq_max q = None then super_closePush e q else notifyAll_pushers (super_closePush e q))"

definition aq_close :: "err \<Rightarrow> 'v aqueue \<Rightarrow> 'v aqueue" where
  "aq_close e q = (if aq_max q = None then super_close e q else notifyAll_pushers (super_close e q))"

definition aq_closeWhenEmpty_call :: "err \<Rightarrow> 'v aqueue \<Rightarrow> 'v aqueue" where
  "aq_closeWhenEmpty_call e q =
     (if aq_queue q = [] then aq_close e q else set_closeError e (q\<lparr>aq_closeWhenEmpty := True\<rparr>))"

definition aq_error :: "'v aqueue \<Rightarrow> err" where
  "aq_error q = (if aq_queue q = [] then aq_closeError q else no_err)"

definition aq_contains :: "'v \<Rightarrow> 'v aqueue \<Rightarrow> bool" where
  "aq_contains x q \<longleftrightarrow> List.find (\<lambda>y. y = x) (aq_queue q) \<noteq> None"

definition aq_find_if :: "('v \<Rightarrow> bool) \<Rightarrow> 'v aqueue \<Rightarrow> 'v option" where
  "aq_find_if P q = List.find P (aq_queue q)"

definition notify_first_item :: "'v aqueue \<Rightarrow> 'v aqueue" where
  "notify_first_item q = (if length (aq_queue q) = 1 then q\<lparr>aq_pullCond := spec_notifyOne (aq_pullCond q)\<rparr> else q)"

definition super_push :: "'v \<Rightarrow> 'v aqueue \<Rightarrow> bool \<times> 'v aqueue" where
  "super_push x q =
     (if aq_state q \<noteq> AQOpen then (False, q) else (True, notify_first_item (q\<lparr>aq_queue := aq_queue q @ [x]\<rparr>)))"

text \<open>The iterator is a position.\<close>

definition super_pushBefore :: "nat \<Rightarrow> 'v \<Rightarrow> 'v aqueue \<Rightarrow> bool \<times> 'v aqueue" where
  "super_pushBefore i x q =
     (if aq_state q \<noteq> AQOpen then (False, q)
      else (True, notify_first_item (q\<lparr>aq_queue := take i (aq_queue q) @ x # drop i (aq_queue q)\<rparr>)))"

definition aq_peek :: "'v aqueue \<Rightarrow> 'v option" where
  "aq_peek q = (case aq_queue q of [] \<Rightarrow> None | x # _ \<Rightarrow> Some x)"

definition super_pop :: "'v aqueue \<Rightarrow> ('v \<times> 'v aqueue) outcome" where
  "super_pop q =
     (case aq_queue q of
        [] \<Rightarrow> Throw Terminated
      | x # xs \<Rightarrow>
          (let q1 = q\<lparr>aq_queue := xs\<rparr>
           in Ok (x, if aq_closeWhenEmpty q1 \<and> xs = [] then aq_close no_err q1 else q1)))"

definition super_remove :: "'v \<Rightarrow> 'v aqueue \<Rightarrow> (bool \<times> 'v aqueue) outcome" where
  "super_remove x q = assert_that (aq_state q = AQOpen)
     (if x \<in> set (aq_queue q) then Ok (True, q\<lparr>aq_queue := remove1 x (aq_queue q)\<rparr>) else Ok (False, q))"

subsection \<open>BoundedAsyncQueue\<close>

definition new_BoundedAsyncQueue :: "nat \<Rightarrow> 'v aqueue outcome" where
  "new_BoundedAsyncQueue m = assert_that (m > 0) (Ok (new_aqueue (Some m)))"

definition aq_full :: "'v aqueue \<Rightarrow> bool" where
  "aq_full q \<longleftrightarrow> (case aq_max q of None \<Rightarrow> False | Some m \<Rightarrow> length (aq_queue q) \<ge> m)"

definition aq_push :: "'v \<Rightarrow> 'v aqueue \<Rightarrow> bool \<times> 'v aqueue" where
  "aq_push x q = (if aq_full q then (False, q) else super_push x q)"

definition aq_pushBefore :: "nat \<Rightarrow> 'v \<Rightarrow> 'v aqueue \<Rightarrow> bool \<times> 'v aqueue" where
  "aq_pushBefore i x q = (if aq_full q then (False, q) else super_pushBefore i x q)"

definition aq_push_result :: "'v Result \<Rightarrow> 'v aqueue \<Rightarrow> bool \<times> 'v aqueue" where
  "aq_push_result r q = (case r of RValue x \<Rightarrow> aq_push x q | RError e \<Rightarrow> (True, aq_closePush e q))"

definition aq_pop :: "'v aqueue \<Rightarrow> ('v \<times> 'v aqueue) outcome" where
  "aq_pop q =
     (if aq_full q
      then obind (super_pop q) (\<lambda>(x, q1). Ok (x, q1\<lparr>aq_pushCond := spec_notifyOne (aq_pushCond q1)\<rparr>))
      else super_pop q)"

definition aq_maybePop :: "'v aqueue \<Rightarrow> ('v option \<times> 'v aqueue) outcome" where
  "aq_maybePop q = (if aq_queue q \<noteq> [] then obind (aq_pop q) (\<lambda>(x, q1). Ok (Some x, q1)) else Ok (None, q))"

definition aq_remove :: "'v \<Rightarrow> 'v aqueue \<Rightarrow> (bool \<times> 'v aqueue) outcome" where
  "aq_remove x q =
     (let wasFull = aq_full q
      in obind (super_remove x q) (\<lambda>(removed, q1).
           Ok (removed, if wasFull \<and> removed then q1\<lparr>aq_pushCond := spec_notifyOne (aq_pushCond q1)\<rparr> else q1)))"

subsection \<open>The coroutines\<close>

text \<open>
  \<^verbatim>\<open>generate()\<close>: where it is, and what it does when it runs. \<open>g\<close> is its handle.
\<close>

datatype gen_pc = GStart | GAwaiting | GYielded | GYieldedError | GDone

datatype 'v gen_event = GenItem 'v | GenError err | GenBlocked | GenFinished

definition gen_tail :: "'v aqueue \<Rightarrow> 'v gen_event \<times> gen_pc \<times> 'v aqueue" where
  "gen_tail q = (if err_true (aq_closeError q) then (GenError (aq_closeError q), GYieldedError, q) else (GenFinished, GDone, q))"

definition gen_pop :: "'v aqueue \<Rightarrow> ('v gen_event \<times> gen_pc \<times> 'v aqueue) outcome" where
  "gen_pop q = obind (aq_pop q) (\<lambda>(x, q1). Ok (GenItem x, GYielded, q1))"

definition gen_loop :: "coro_handle \<Rightarrow> 'v aqueue \<Rightarrow> ('v gen_event \<times> gen_pc \<times> 'v aqueue) outcome" where
  "gen_loop g q =
     (if aq_state q \<noteq> AQClosed then
        (if aq_queue q = [] then
           (if aq_closeWhenEmpty q then Ok (gen_tail (aq_close no_err q))
            else Ok (GenBlocked, GAwaiting, q\<lparr>aq_pullCond := spec_wait g (aq_pullCond q)\<rparr>))
         else gen_pop q)
      else Ok (gen_tail q))"

fun gen_run :: "coro_handle \<Rightarrow> gen_pc \<Rightarrow> 'v aqueue \<Rightarrow> ('v gen_event \<times> gen_pc \<times> 'v aqueue) outcome" where
  "gen_run g GStart q = assert_that (\<not> aq_generating q) (gen_loop g (q\<lparr>aq_generating := True\<rparr>))"
| "gen_run g GAwaiting q = (if aq_queue q = [] then Ok (gen_tail q) else gen_pop q)"
| "gen_run g GYielded q = gen_loop g q"
| "gen_run g GYieldedError q = Ok (GenFinished, GDone, q)"
| "gen_run g GDone q = Throw UndefinedBehavior"

text \<open>\<^verbatim>\<open>asyncPush(t)\<close>: one run of coroutine \<open>h\<close>, up to the push or to the next wait.\<close>

definition asyncPush_run :: "coro_handle \<Rightarrow> 'v \<Rightarrow> 'v aqueue \<Rightarrow> bool option \<times> 'v aqueue" where
  "asyncPush_run h x q =
     (if aq_full q \<and> aq_state q = AQOpen then (None, q\<lparr>aq_pushCond := spec_wait h (aq_pushCond q)\<rparr>)
      else (case aq_push x q of (ok, q1) \<Rightarrow> (Some ok, q1)))"

definition asyncPush_result :: "coro_handle \<Rightarrow> 'v Result \<Rightarrow> 'v aqueue \<Rightarrow> bool option \<times> 'v aqueue" where
  "asyncPush_result h r q = (case r of RValue x \<Rightarrow> asyncPush_run h x q | RError e \<Rightarrow> (Some True, aq_closePush e q))"

text \<open>
  \<^verbatim>\<open>pushGenerator(gen)\<close>: the task \<open>h\<close> starts, gets a result of the generator, or runs again after waiting for room, or
  after \<^verbatim>\<open>YIELD 0\<close>, which returns whether the task is to go on. \<open>PGNext\<close> is waiting for the generator.
\<close>

datatype 'v pg_pc = PGNext | PGPushing 'v | PGYield | PGDone

datatype 'v pg_event = PGStarted | PGResult "'v Result" | PGWoken | PGYielded bool

definition pg_loop :: "'v aqueue \<Rightarrow> 'v pg_pc \<times> 'v aqueue" where
  "pg_loop q = (if aq_state q = AQOpen then (PGNext, q) else (PGDone, q))"

definition pg_push :: "coro_handle \<Rightarrow> 'v \<Rightarrow> 'v aqueue \<Rightarrow> 'v pg_pc \<times> 'v aqueue" where
  "pg_push h x q =
     (case asyncPush_run h x q of
        (None, q1) \<Rightarrow> (PGPushing x, q1)
      | (Some ok, q1) \<Rightarrow> (if ok then PGYield else PGDone, q1))"

fun pushGenerator_run :: "coro_handle \<Rightarrow> 'v pg_pc \<Rightarrow> 'v pg_event \<Rightarrow> 'v aqueue \<Rightarrow> 'v pg_pc \<times> 'v aqueue" where
  "pushGenerator_run h pc PGStarted q = pg_loop q"
| "pushGenerator_run h PGNext (PGResult (RValue x)) q = pg_push h x q"
| "pushGenerator_run h PGNext (PGResult (RError e)) q = (PGDone, aq_closeWhenEmpty_call no_err q)"
| "pushGenerator_run h (PGPushing x) PGWoken q = pg_push h x q"
| "pushGenerator_run h PGYield (PGYielded ok) q = (if ok then pg_loop q else (PGDone, q))"
| "pushGenerator_run h pc ev q = (pc, q)"

subsection \<open>A queue with its consumer and its producers\<close>

text \<open>
  A queue whose generator \<open>g\<close> is being consumed, while others push, pop and close it in any order, and \<^verbatim>\<open>asyncPush\<close>
  coroutines wait for room. \<open>qs_in\<close> collects the items accepted and \<open>qs_out\<close> the items delivered; \<open>qs_pending\<close> is what
  the waiting coroutines have to push.
\<close>

record 'v qsys =
  qs_q :: "'v aqueue"
  qs_pc :: gen_pc
  qs_in :: "'v list"
  qs_out :: "'v list"
  qs_pending :: "coro_handle \<Rightarrow> 'v option"

definition qs_init :: "nat option \<Rightarrow> 'v qsys" where
  "qs_init m = \<lparr>qs_q = new_aqueue m, qs_pc = GStart, qs_in = [], qs_out = [], qs_pending = (\<lambda>_. None)\<rparr>"

fun gen_items :: "'v gen_event \<Rightarrow> 'v list" where
  "gen_items (GenItem x) = [x]"
| "gen_items _ = []"

definition unwake :: "coro_handle \<Rightarrow> cond_spec \<Rightarrow> cond_spec" where
  "unwake h c = (fst c, snd c - {h})"

inductive q_step :: "coro_handle \<Rightarrow> 'v qsys \<Rightarrow> 'v qsys \<Rightarrow> bool" for g where
  push: "aq_push x (qs_q s) = (ok, q') \<Longrightarrow>
     q_step g s (s\<lparr>qs_q := q', qs_in := qs_in s @ (if ok then [x] else [])\<rparr>)"
| pop: "aq_pop (qs_q s) = Ok (x, q') \<Longrightarrow> q_step g s (s\<lparr>qs_q := q', qs_out := qs_out s @ [x]\<rparr>)"
| closePush: "q_step g s (s\<lparr>qs_q := aq_closePush e (qs_q s)\<rparr>)"
| close: "q_step g s (s\<lparr>qs_q := aq_close e (qs_q s)\<rparr>)"
| closeWhenEmpty: "q_step g s (s\<lparr>qs_q := aq_closeWhenEmpty_call e (qs_q s)\<rparr>)"
| generate: "qs_pc s \<in> {GStart, GYielded, GYieldedError} \<Longrightarrow> gen_run g (qs_pc s) (qs_q s) = Ok (ev, pc', q') \<Longrightarrow>
     q_step g s (s\<lparr>qs_q := q', qs_pc := pc', qs_out := qs_out s @ gen_items ev\<rparr>)"
| resume: "qs_pc s = GAwaiting \<Longrightarrow> g \<in> snd (aq_pullCond (qs_q s)) \<Longrightarrow>
     gen_run g GAwaiting (qs_q s\<lparr>aq_pullCond := unwake g (aq_pullCond (qs_q s))\<rparr>) = Ok (ev, pc', q') \<Longrightarrow>
     q_step g s (s\<lparr>qs_q := q', qs_pc := pc', qs_out := qs_out s @ gen_items ev\<rparr>)"
| asyncPush: "qs_pending s h = None \<Longrightarrow> asyncPush_run h x (qs_q s) = (r, q') \<Longrightarrow>
     q_step g s (s\<lparr>qs_q := q', qs_in := qs_in s @ (if r = Some True then [x] else []),
                  qs_pending := (qs_pending s)(h := if r = None then Some x else None)\<rparr>)"
| retry: "qs_pending s h = Some x \<Longrightarrow> h \<in> snd (aq_pushCond (qs_q s)) \<Longrightarrow>
     asyncPush_run h x (qs_q s\<lparr>aq_pushCond := unwake h (aq_pushCond (qs_q s))\<rparr>) = (r, q') \<Longrightarrow>
     q_step g s (s\<lparr>qs_q := q', qs_in := qs_in s @ (if r = Some True then [x] else []),
                  qs_pending := (qs_pending s)(h := if r = None then Some x else None)\<rparr>)"

text \<open>
  The invariant: until the queue is closed, what was accepted is what was delivered and what is queued, in order; a bounded
  queue is within its bound; and the generator waits on \<^verbatim>\<open>_pullCond\<close> exactly while it is suspended there, not woken only
  while the queue is empty and not closed.
\<close>

definition pull_ok :: "coro_handle \<Rightarrow> gen_pc \<Rightarrow> 'v aqueue \<Rightarrow> bool" where
  "pull_ok g pc q \<longleftrightarrow>
     (if pc = GAwaiting
      then aq_pullCond q = ([g], {}) \<and> aq_queue q = [] \<and> aq_state q \<noteq> AQClosed \<or> aq_pullCond q = ([], {g})
      else aq_pullCond q = ([], {}))"

definition order_ok :: "'v list \<Rightarrow> 'v list \<Rightarrow> 'v aqueue \<Rightarrow> bool" where
  "order_ok ins outs q \<longleftrightarrow>
     (if aq_state q = AQClosed then aq_queue q = [] \<and> prefix outs ins else outs @ aq_queue q = ins)"

definition bound_ok :: "'v aqueue \<Rightarrow> bool" where
  "bound_ok q \<longleftrightarrow> (case aq_max q of None \<Rightarrow> True | Some m \<Rightarrow> length (aq_queue q) \<le> m)"

definition q_ok :: "coro_handle \<Rightarrow> gen_pc \<Rightarrow> 'v list \<Rightarrow> 'v list \<Rightarrow> 'v aqueue \<Rightarrow> bool" where
  "q_ok g pc ins outs q \<longleftrightarrow> pull_ok g pc q \<and> order_ok ins outs q \<and> bound_ok q"

lemmas q_ok_defs = q_ok_def pull_ok_def order_ok_def bound_ok_def

lemma q_ok_pushCond [simp]: "q_ok g pc i outs (q\<lparr>aq_pushCond := c\<rparr>) = q_ok g pc i outs q"
  by (simp add: q_ok_defs cong: option.case_cong)

lemma q_ok_closeError [simp]: "q_ok g pc i outs (q\<lparr>aq_closeError := e\<rparr>) = q_ok g pc i outs q"
  by (simp add: q_ok_defs cong: option.case_cong)

lemma q_ok_flags [simp]:
  "q_ok g pc i outs (q\<lparr>aq_closeWhenEmpty := b\<rparr>) = q_ok g pc i outs q"
  "q_ok g pc i outs (q\<lparr>aq_generating := b\<rparr>) = q_ok g pc i outs q"
  by (simp_all add: q_ok_defs cong: option.case_cong)

lemma q_ok_set_closeError [simp]: "q_ok g pc i outs (set_closeError e q) = q_ok g pc i outs q"
  by (simp add: set_closeError_def)

lemma super_push_ok:
  assumes "q_ok g pc i outs q" "\<not> aq_full q" "super_push x q = (ok, q')"
  shows "q_ok g pc (i @ (if ok then [x] else [])) outs q'"
  using assms
  by (auto simp: q_ok_defs super_push_def notify_first_item_def spec_notifyOne_def aq_full_def
      split: if_splits option.splits)

lemma aq_push_ok: "q_ok g pc i outs q \<Longrightarrow> aq_push x q = (ok, q') \<Longrightarrow> q_ok g pc (i @ (if ok then [x] else [])) outs q'"
  by (auto simp: aq_push_def split: if_splits dest: super_push_ok)

lemma super_close_ok: "q_ok g pc i outs q \<Longrightarrow> q_ok g pc i outs (super_close e q)"
  by (auto simp: q_ok_defs super_close_def set_closeError_def spec_notifyOne_def Let_def split: if_splits option.splits)

lemma aq_close_ok: "q_ok g pc i outs q \<Longrightarrow> q_ok g pc i outs (aq_close e q)"
  by (simp add: aq_close_def notifyAll_pushers_def super_close_ok)

lemma aq_closePush_ok: "q_ok g pc i outs q \<Longrightarrow> q_ok g pc i outs (aq_closePush e q)"
  by (auto simp: aq_closePush_def notifyAll_pushers_def super_closePush_def) (auto simp: q_ok_defs split: option.splits if_splits)

lemma aq_closeWhenEmpty_ok: "q_ok g pc i outs q \<Longrightarrow> q_ok g pc i outs (aq_closeWhenEmpty_call e q)"
  by (simp add: aq_closeWhenEmpty_call_def aq_close_ok)

lemma super_pop_ok: "q_ok g pc i outs q \<Longrightarrow> super_pop q = Ok (x, q') \<Longrightarrow> q_ok g pc i (outs @ [x]) q'"
proof -
  assume q: "q_ok g pc i outs q" "super_pop q = Ok (x, q')"
  then obtain xs where xs: "aq_queue q = x # xs" by (auto simp: super_pop_def Let_def split: list.splits)
  with q(1) have "q_ok g pc i (outs @ [x]) (q\<lparr>aq_queue := xs\<rparr>)" by (auto simp: q_ok_defs split: if_splits option.splits)
  with q(2) xs show ?thesis by (auto simp: super_pop_def Let_def aq_close_ok split: if_splits)
qed

lemma aq_pop_ok: "q_ok g pc i outs q \<Longrightarrow> aq_pop q = Ok (x, q') \<Longrightarrow> q_ok g pc i (outs @ [x]) q'"
  by (auto simp: aq_pop_def obind_eq_Ok split: if_splits dest: super_pop_ok)

lemma q_ok_pc: "pc \<noteq> GAwaiting \<Longrightarrow> pc' \<noteq> GAwaiting \<Longrightarrow> q_ok g pc i outs q = q_ok g pc' i outs q"
  by (simp add: q_ok_defs)

lemma gen_tail_ok:
  assumes "q_ok g pc i outs q" "pc \<noteq> GAwaiting" "gen_tail q = (ev, pc', q')"
  shows "q_ok g pc' i (outs @ gen_items ev) q'"
  using assms q_ok_pc [of pc pc' g i outs q] by (auto simp: gen_tail_def split: if_splits)

lemma gen_pop_ok:
  assumes "q_ok g pc i outs q" "pc \<noteq> GAwaiting" "gen_pop q = Ok (ev, pc', q')"
  shows "q_ok g pc' i (outs @ gen_items ev) q'"
  using assms aq_pop_ok [of g pc' i outs q] q_ok_pc [of pc pc' g i outs q] by (auto simp: gen_pop_def obind_eq_Ok)

lemma gen_loop_ok:
  assumes "q_ok g pc i outs q" "pc \<noteq> GAwaiting" "gen_loop g q = Ok (ev, pc', q')"
  shows "q_ok g pc' i (outs @ gen_items ev) q'"
proof (cases "aq_state q \<noteq> AQClosed \<and> aq_queue q = [] \<and> \<not> aq_closeWhenEmpty q")
  case True
  with assms show ?thesis by (auto simp: gen_loop_def q_ok_defs spec_wait_def split: if_splits option.splits)
next
  case False
  with assms gen_tail_ok [OF assms(1,2)] gen_tail_ok [OF aq_close_ok [OF assms(1)] assms(2)] gen_pop_ok [OF assms(1,2)]
  show ?thesis by (auto simp: gen_loop_def split: if_splits)
qed

lemma gen_run_ok:
  assumes "q_ok g pc i outs q" "pc \<noteq> GAwaiting" "gen_run g pc q = Ok (ev, pc', q')"
  shows "q_ok g pc' i (outs @ gen_items ev) q'"
proof (cases pc)
  case GStart
  with assms(3) have "gen_loop g (q\<lparr>aq_generating := True\<rparr>) = Ok (ev, pc', q')" by (simp add: assert_that_eq_Ok)
  with gen_loop_ok [of g pc i outs "q\<lparr>aq_generating := True\<rparr>"] assms(1,2) show ?thesis by simp
next
  case GYielded
  with assms gen_loop_ok [OF assms(1,2)] show ?thesis by simp
next
  case GYieldedError
  with assms q_ok_pc [of pc GDone g i outs q] show ?thesis by auto
qed (use assms in auto)

lemma gen_resume_ok:
  assumes "q_ok g GAwaiting i outs q" "g \<in> snd (aq_pullCond q)"
    and "gen_run g GAwaiting (q\<lparr>aq_pullCond := unwake g (aq_pullCond q)\<rparr>) = Ok (ev, pc', q')"
  shows "q_ok g pc' i (outs @ gen_items ev) q'"
proof -
  let ?q = "q\<lparr>aq_pullCond := unwake g (aq_pullCond q)\<rparr>"
  from assms(1,2) have ok: "q_ok g GYielded i outs ?q" by (auto simp: q_ok_defs unwake_def split: option.splits)
  from gen_tail_ok [OF ok] gen_pop_ok [OF ok] assms(3) show ?thesis by (auto split: if_splits)
qed

lemma asyncPush_ok:
  "q_ok g pc i outs q \<Longrightarrow> asyncPush_run h x q = (r, q') \<Longrightarrow> q_ok g pc (i @ (if r = Some True then [x] else [])) outs q'"
  by (auto simp: asyncPush_run_def split: if_splits prod.splits dest: aq_push_ok)

abbreviation qs_ok :: "coro_handle \<Rightarrow> 'v qsys \<Rightarrow> bool" where
  "qs_ok g s \<equiv> q_ok g (qs_pc s) (qs_in s) (qs_out s) (qs_q s)"

lemma q_step_ok: "q_step g s s' \<Longrightarrow> qs_ok g s \<Longrightarrow> qs_ok g s'"
proof (induction rule: q_step.induct)
  case (generate s ev pc' q')
  then show ?case using gen_run_ok [of g "qs_pc s" "qs_in s" "qs_out s" "qs_q s" ev pc' q'] by auto
next
  case (resume s ev pc' q')
  then show ?case using gen_resume_ok [of g "qs_in s" "qs_out s" "qs_q s" ev pc' q'] by simp
next
  case (retry s h x r q')
  then show ?case
    using asyncPush_ok [of g "qs_pc s" "qs_in s" "qs_out s" "qs_q s\<lparr>aq_pushCond := unwake h (aq_pushCond (qs_q s))\<rparr>" h x r q']
    by simp
qed (simp_all add: aq_push_ok aq_pop_ok aq_closePush_ok aq_close_ok aq_closeWhenEmpty_ok asyncPush_ok)

lemma q_step_max: "q_step g s s' \<Longrightarrow> aq_max (qs_q s') = aq_max (qs_q s)"
proof -
  have close: "aq_max (aq_close e q) = aq_max q" for e and q :: "'v aqueue"
    by (simp add: aq_close_def super_close_def set_closeError_def notifyAll_pushers_def Let_def)
  have push: "aq_push x q = (ok, q') \<Longrightarrow> aq_max q' = aq_max q" for x ok and q q' :: "'v aqueue"
    by (auto simp: aq_push_def super_push_def notify_first_item_def split: if_splits)
  have pop: "aq_pop q = Ok (x, q') \<Longrightarrow> aq_max q' = aq_max q" for x and q q' :: "'v aqueue"
    by (auto simp: aq_pop_def super_pop_def obind_eq_Ok Let_def close split: if_splits list.splits)
  have tail: "gen_tail q = (ev, pc', q') \<Longrightarrow> aq_max q' = aq_max q" for ev pc' and q q' :: "'v aqueue"
    by (auto simp: gen_tail_def split: if_splits)
  have gpop: "gen_pop q = Ok (ev, pc', q') \<Longrightarrow> aq_max q' = aq_max q" for ev pc' and q q' :: "'v aqueue"
    by (auto simp: gen_pop_def obind_eq_Ok dest: pop)
  have loop: "gen_loop g q = Ok (ev, pc', q') \<Longrightarrow> aq_max q' = aq_max q" for ev pc' and q q' :: "'v aqueue"
    by (auto simp: gen_loop_def close split: if_splits dest: gpop dest!: tail)
  have run: "gen_run g pc q = Ok (ev, pc', q') \<Longrightarrow> aq_max q' = aq_max q" for pc ev pc' and q q' :: "'v aqueue"
    by (cases pc) (auto simp: assert_that_eq_Ok split: if_splits dest!: tail gpop loop)
  have async: "asyncPush_run h x q = (r, q') \<Longrightarrow> aq_max q' = aq_max q" for h x r and q q' :: "'v aqueue"
    by (auto simp: asyncPush_run_def split: if_splits prod.splits dest!: push)
  show "q_step g s s' \<Longrightarrow> ?thesis"
    by (induction rule: q_step.induct)
       (auto simp: close aq_closePush_def super_closePush_def set_closeError_def notifyAll_pushers_def
          aq_closeWhenEmpty_call_def split: if_splits dest!: push pop run async tail gpop)
qed

lemma qs_reachable:
  assumes "(q_step g)\<^sup>*\<^sup>* (qs_init m) s"
  shows "qs_ok g s \<and> aq_max (qs_q s) = m"
  using assms
proof (induction rule: rtranclp_induct)
  case base
  show ?case by (simp add: qs_init_def new_aqueue_def q_ok_defs split: option.split)
next
  case (step s s')
  then show ?case using q_step_ok q_step_max by metis
qed

text \<open>
  C13. Items come out of a queue in the order they were accepted, however pushes, pops, closes and the generator
  interleave: what was delivered is a prefix of what was accepted, and until the queue is closed the rest is what is
  queued. A bounded queue never holds more than its bound, and a generator suspended on a queue that has items or is
  closed has been woken.
\<close>
theorem queue_in_order:
  assumes "(q_step g)\<^sup>*\<^sup>* (qs_init m) s"
  shows "prefix (qs_out s) (qs_in s)
    \<and> (aq_state (qs_q s) \<noteq> AQClosed \<longrightarrow> qs_out s @ aq_queue (qs_q s) = qs_in s)
    \<and> (\<forall>n. m = Some n \<longrightarrow> length (aq_queue (qs_q s)) \<le> n)
    \<and> (qs_pc s = GAwaiting \<and> (aq_queue (qs_q s) \<noteq> [] \<or> aq_state (qs_q s) = AQClosed) \<longrightarrow> g \<in> snd (aq_pullCond (qs_q s)))"
  using qs_reachable [OF assms] by (auto simp: q_ok_defs split: if_splits intro: prefixI [OF sym])

theorem queue_in_order_witness:
  "\<exists>s. (q_step (H 0))\<^sup>*\<^sup>* (qs_init (Some 2)) s \<and> qs_in s = [7 :: nat] \<and> aq_queue (qs_q s) = [7] \<and> prefix (qs_out s) [7]"
proof -
  let ?s = "qs_init (Some 2) :: nat qsys"
  let ?s' = "?s\<lparr>qs_q := snd (aq_push 7 (qs_q ?s)), qs_in := [7]\<rparr>"
  have "q_step (H 0) ?s ?s'"
    using q_step.push [of 7 ?s True "snd (aq_push 7 (qs_q ?s))" "H 0"]
    by (simp add: qs_init_def new_aqueue_def aq_push_def aq_full_def super_push_def notify_first_item_def)
  then have r: "(q_step (H 0))\<^sup>*\<^sup>* (qs_init (Some 2)) ?s'" by blast
  moreover have "aq_queue (qs_q ?s') = [7]"
    by (simp add: qs_init_def new_aqueue_def aq_push_def aq_full_def super_push_def notify_first_item_def)
  ultimately show ?thesis using queue_in_order [OF r] by (intro exI [of _ ?s']) simp
qed

subsection \<open>Closing\<close>

text \<open>The events of \<open>n\<close> runs of the generator, none of which has to wait.\<close>

fun gen_runs :: "nat \<Rightarrow> coro_handle \<Rightarrow> gen_pc \<Rightarrow> 'v aqueue \<Rightarrow> 'v gen_event list outcome" where
  "gen_runs 0 g pc q = Ok []"
| "gen_runs (Suc n) g pc q =
     obind (gen_run g pc q) (\<lambda>(ev, pc', q'). obind (gen_runs n g pc' q') (\<lambda>evs. Ok (ev # evs)))"

definition eof_events :: "err \<Rightarrow> 'v gen_event list" where
  "eof_events e = (if err_true e then [GenError e] else []) @ [GenFinished]"

lemma length_eof_events: "length (eof_events e) = (if err_true e then 2 else 1)"
  by (simp add: eof_events_def)

lemma closed_eof:
  assumes "aq_state q = AQClosed" "aq_closeError q = e"
  shows "gen_runs (length (eof_events e :: 'v gen_event list)) g GYielded (q :: 'v aqueue) = Ok (eof_events e)"
  using assms by (simp add: eof_events_def gen_loop_def gen_tail_def numeral_2_eq_2)

lemma aq_close_fields:
  "aq_state (aq_close e q) = AQClosed"
  "aq_state q \<noteq> AQClosed \<Longrightarrow> aq_closeError (aq_close e q) = (if err_true (aq_closeError q) then aq_closeError q else e)"
  "aq_state q \<noteq> AQClosed \<Longrightarrow> aq_queue (aq_close e q) = []"
  by (auto simp: aq_close_def super_close_def notifyAll_pushers_def set_closeError_def Let_def)

definition closing :: "err \<Rightarrow> 'v list \<Rightarrow> 'v aqueue \<Rightarrow> bool" where
  "closing e xs q \<longleftrightarrow> aq_state q = AQClosing \<and> aq_closeWhenEmpty q \<and> aq_queue q = xs
     \<and> (aq_closeError q = e \<or> \<not> err_true (aq_closeError q) \<and> \<not> err_true e)"

lemma eof_events_cong: "e = e' \<or> \<not> err_true e \<and> \<not> err_true e' \<Longrightarrow> eof_events e = eof_events e'"
  by (auto simp: eof_events_def)

lemma closing_pop:
  assumes "closing e (x # xs) (q :: 'v aqueue)"
  shows "\<exists>q'. gen_run g GYielded q = Ok (GenItem x, GYielded, q')
    \<and> (if xs = [] then aq_state q' = AQClosed \<and> eof_events (aq_closeError q') = (eof_events e :: 'v gen_event list) else closing e xs q')"
proof -
  have "eof_events (if err_true (aq_closeError q) then aq_closeError q else no_err) = (eof_events e :: 'v gen_event list)"
    using assms by (intro eof_events_cong) (auto simp: closing_def no_err_def)
  then show ?thesis using assms
    by (auto simp: closing_def gen_loop_def gen_pop_def aq_pop_def super_pop_def aq_close_fields Let_def)
qed

lemma closing_drains:
  "closing e xs (q :: 'v aqueue) \<Longrightarrow>
    gen_runs (length xs + length (eof_events e :: 'v gen_event list)) g GYielded q = Ok (map GenItem xs @ eof_events e)"
proof (induction xs arbitrary: q)
  case Nil
  let ?q = "aq_close no_err q"
  from Nil have st: "aq_state q = AQClosing" "aq_queue q = []" "aq_closeWhenEmpty q" by (simp_all add: closing_def)
  have "eof_events (aq_closeError ?q) = (eof_events e :: 'v gen_event list)"
    using Nil by (intro eof_events_cong) (auto simp: closing_def aq_close_fields no_err_def)
  moreover have "gen_runs n g GYielded q = gen_runs n g GYielded ?q" for n
    using st by (cases n) (simp_all add: gen_loop_def aq_close_fields)
  ultimately show ?case using closed_eof [of ?q "aq_closeError ?q" g] by (simp add: aq_close_fields)
next
  case (Cons x xs)
  from closing_pop [OF Cons.prems, of g] obtain q'
    where q': "gen_run g GYielded q = Ok (GenItem x, GYielded, q')"
      "if xs = [] then aq_state q' = AQClosed \<and> eof_events (aq_closeError q') = (eof_events e :: 'v gen_event list) else closing e xs q'"
    by blast
  have "gen_runs (length xs + length (eof_events e :: 'v gen_event list)) g GYielded q' = Ok (map GenItem xs @ eof_events e)"
    using q'(2) Cons.IH [of q'] closed_eof [of q' "aq_closeError q'" g] by (auto split: if_splits)
  then show ?case using q'(1) by simp
qed

text \<open>
  C14. After \<^verbatim>\<open>closePush(err)\<close> the generator still yields every queued item, in order, and then \<open>err\<close> if there is one,
  and ends: it is neither blocked nor fails. (The generator is one that is not waiting for an item.)
\<close>
theorem closePush_drains:
  fixes q :: "'v aqueue"
  assumes "aq_state q = AQOpen" "\<not> err_true (aq_closeError q)" "aq_queue q = xs"
  shows "gen_runs (length xs + length (eof_events e :: 'v gen_event list)) g GYielded (aq_closePush e q)
    = Ok (map GenItem xs @ eof_events e)"
  by (rule closing_drains)
     (use assms in \<open>simp add: closing_def aq_closePush_def super_closePush_def set_closeError_def notifyAll_pushers_def\<close>)

theorem closePush_drains_witness:
  "gen_runs 4 (H 0) GYielded (aq_closePush (DCrouton, 5) (new_aqueue None\<lparr>aq_queue := [1, 2 :: nat]\<rparr>))
    = Ok [GenItem 1, GenItem 2, GenError (DCrouton, 5), GenFinished]"
  using closePush_drains [of "new_aqueue None\<lparr>aq_queue := [1, 2 :: nat]\<rparr>" "[1, 2]" "(DCrouton, 5)" "H 0"]
  by (simp add: new_aqueue_def no_err_def eof_events_def numeral_eq_Suc)

text \<open>
  C15. A generator that is waiting on an empty queue does not learn of \<^verbatim>\<open>closePush\<close>: it stays suspended, and from then on
  every push is refused, so neither an item nor the end of the queue reaches it.
\<close>
theorem closePush_leaves_waiter:
  fixes x :: 'v
  assumes "aq_state q = AQOpen" "aq_queue q = []" "aq_pullCond q = ([g], {})"
  shows "\<exists>q'. aq_closePush e q = q' \<and> aq_state q' = AQClosing \<and> aq_pullCond q' = ([g], {})
    \<and> aq_push x q' = (False, q') \<and> super_closePush e' q' = q'"
  using assms
  by (auto simp: aq_closePush_def super_closePush_def set_closeError_def notifyAll_pushers_def aq_push_def super_push_def)

theorem closePush_leaves_waiter_witness:
  "\<exists>ev pc q' q''. gen_run (H 0) GStart (new_aqueue None :: nat aqueue) = Ok (ev, pc, q') \<and> pc = GAwaiting
    \<and> aq_closePush no_err q' = q'' \<and> aq_pullCond q'' = ([H 0], {}) \<and> aq_push 7 q'' = (False, q'')"
  using closePush_leaves_waiter [of "new_aqueue None\<lparr>aq_pullCond := ([H 0], {}), aq_generating := True\<rparr> :: nat aqueue" "H 0" no_err 7]
  by (simp add: new_aqueue_def gen_loop_def spec_wait_def)

subsection \<open>A push that is never resumed\<close>

text \<open>
  C16. \<^verbatim>\<open>BoundedAsyncQueue::pop\<close> notifies a waiting \<^verbatim>\<open>asyncPush\<close> only if the queue was full, so a waiter can be left behind:
  a state can be reached where the queue is open and empty, a coroutine still waits for room, and nothing will wake it.
\<close>
theorem asyncPush_left_behind:
  "\<exists>s. (q_step (H 0))\<^sup>*\<^sup>* (qs_init (Some 2)) s \<and> aq_queue (qs_q s) = [] \<and> aq_state (qs_q s) = AQOpen
     \<and> qs_pending s (H 2) = Some (4 :: int) \<and> aq_pushCond (qs_q s) = ([H 2], {})"
proof -
  let ?st = "\<lambda>xs c i outs pend. (qs_init (Some 2) :: int qsys)\<lparr>qs_q := (new_aqueue (Some 2))\<lparr>aq_queue := xs, aq_pushCond := c\<rparr>,
    qs_in := i, qs_out := outs, qs_pending := pend\<rparr>"
  note simps = qs_init_def new_aqueue_def aq_push_def aq_full_def super_push_def notify_first_item_def asyncPush_run_def
    aq_pop_def super_pop_def spec_notifyOne_def spec_wait_def unwake_def Let_def
  let ?p1 = "(\<lambda>_. None)(H 1 \<mapsto> 3)" let ?p2 = "?p1(H 2 \<mapsto> 4)" let ?p3 = "(?p2)(H 1 := None)"
  have 1: "q_step (H 0) (qs_init (Some 2)) (?st [1] ([], {}) [1] [] (\<lambda>_. None))"
    using q_step.push [of 1 "qs_init (Some 2)" True _ "H 0"] by (simp add: simps)
  have 2: "q_step (H 0) (?st [1] ([], {}) [1] [] (\<lambda>_. None)) (?st [1, 2] ([], {}) [1, 2] [] (\<lambda>_. None))"
    using q_step.push [of 2 "?st [1] ([], {}) [1] [] (\<lambda>_. None)" True _ "H 0"] by (simp add: simps)
  have 3: "q_step (H 0) (?st [1, 2] ([], {}) [1, 2] [] (\<lambda>_. None)) (?st [1, 2] ([H 1], {}) [1, 2] [] ?p1)"
    using q_step.asyncPush [of "?st [1, 2] ([], {}) [1, 2] [] (\<lambda>_. None)" "H 1" 3 None _ "H 0"] by (simp add: simps)
  have 4: "q_step (H 0) (?st [1, 2] ([H 1], {}) [1, 2] [] ?p1) (?st [1, 2] ([H 1, H 2], {}) [1, 2] [] ?p2)"
    using q_step.asyncPush [of "?st [1, 2] ([H 1], {}) [1, 2] [] ?p1" "H 2" 4 None _ "H 0"] by (simp add: simps)
  have 5: "q_step (H 0) (?st [1, 2] ([H 1, H 2], {}) [1, 2] [] ?p2) (?st [2] ([H 2], {H 1}) [1, 2] [1] ?p2)"
    using q_step.pop [of "?st [1, 2] ([H 1, H 2], {}) [1, 2] [] ?p2" 1 _ "H 0"] by (simp add: simps)
  have 6: "q_step (H 0) (?st [2] ([H 2], {H 1}) [1, 2] [1] ?p2) (?st [] ([H 2], {H 1}) [1, 2] [1, 2] ?p2)"
    using q_step.pop [of "?st [2] ([H 2], {H 1}) [1, 2] [1] ?p2" 2 _ "H 0"] by (simp add: simps)
  have 7: "q_step (H 0) (?st [] ([H 2], {H 1}) [1, 2] [1, 2] ?p2) (?st [3] ([H 2], {}) [1, 2, 3] [1, 2] ?p3)"
    using q_step.retry [of "?st [] ([H 2], {H 1}) [1, 2] [1, 2] ?p2" "H 1" 3 "Some True" _ "H 0"] by (simp add: simps)
  have 8: "q_step (H 0) (?st [3] ([H 2], {}) [1, 2, 3] [1, 2] ?p3) (?st [] ([H 2], {}) [1, 2, 3] [1, 2, 3] ?p3)"
    using q_step.pop [of "?st [3] ([H 2], {}) [1, 2, 3] [1, 2] ?p3" 3 _ "H 0"] by (simp add: simps)
  from 1 2 3 4 5 6 7 8 have "(q_step (H 0))\<^sup>*\<^sup>* (qs_init (Some 2)) (?st [] ([H 2], {}) [1, 2, 3] [1, 2, 3] ?p3)"
    by (meson converse_rtranclp_into_rtranclp rtranclp.rtrancl_refl)
  then show ?thesis
    by (intro exI [of _ "?st [] ([H 2], {}) [1, 2, 3] [1, 2, 3] ?p3"] conjI) (simp_all add: qs_init_def new_aqueue_def)
qed

end
