(* ===== verification/Masking.thy ===== *)
theory Masking
  imports Crouton_Prelude
begin

text \<open>
  The payload masking of \<^verbatim>\<open>src/io/WebSocketProtocol.hh\<close>: the loops that unmask into and inside a buffer, the rotation of
  the mask between chunks, and the aligned loop of \<^verbatim>\<open>formatMessage\<close>. A buffer is the list of its bytes and a pointer an
  index into it, so that the overlap of source and destination is part of the model. Each loop is proved equal to the
  definition of the WebSocket protocol, \<open>xor_mask\<close>: byte \<open>i\<close> is combined with byte \<open>i mod 4\<close> of the mask.
\<close>

type_synonym bytes = "byte list"

subsection \<open>The loops\<close>

text \<open>One assignment \<^verbatim>\<open>*(dst++) = *(src++) ^ k\<close>.\<close>

definition xor_byte :: "nat \<Rightarrow> nat \<Rightarrow> byte \<Rightarrow> bytes \<Rightarrow> bytes" where
  "xor_byte d s k buf = buf[d := buf ! s XOR k]"

fun unmask_tail :: "bytes \<Rightarrow> nat \<Rightarrow> nat \<Rightarrow> bytes \<Rightarrow> nat \<Rightarrow> bytes" where
  "unmask_tail buf d s m 0 = buf"
| "unmask_tail buf d s m (Suc n) = unmask_tail (xor_byte d s (hd m) buf) (d + 1) (s + 1) (tl m) n"

fun unmaskPrecise :: "bytes \<Rightarrow> nat \<Rightarrow> nat \<Rightarrow> bytes \<Rightarrow> nat \<Rightarrow> bytes" where
  "unmaskPrecise buf d s m n =
     (if n \<ge> 4 then
        unmaskPrecise
          (xor_byte (d + 3) (s + 3) (m ! 3) (xor_byte (d + 2) (s + 2) (m ! 2)
            (xor_byte (d + 1) (s + 1) (m ! 1) (xor_byte d s (m ! 0) buf)))) (d + 4) (s + 4) m (n - 4)
      else unmask_tail buf d s m n)"

declare unmaskPrecise.simps [simp del]

text \<open>The mask is read from the buffer, at \<open>p\<close>, before it is overwritten.\<close>

definition unmaskPreciseCopyMask :: "bytes \<Rightarrow> nat \<Rightarrow> nat \<Rightarrow> nat \<Rightarrow> nat \<Rightarrow> bytes" where
  "unmaskPreciseCopyMask buf d s p n = unmaskPrecise buf d s [buf ! p, buf ! (p + 1), buf ! (p + 2), buf ! (p + 3)] n"

definition rotateMask :: "nat \<Rightarrow> bytes \<Rightarrow> bytes" where
  "rotateMask offset m =
     m[(0 + offset) mod 4 := m ! 0, (1 + offset) mod 4 := m ! 1, (2 + offset) mod 4 := m ! 2, (3 + offset) mod 4 := m ! 3]"

text \<open>\<^verbatim>\<open>unmaskInplace(data, stop, mask)\<close>: while at least four bytes are left, four at a time.\<close>

function unmaskInplace :: "bytes \<Rightarrow> nat \<Rightarrow> nat \<Rightarrow> bytes \<Rightarrow> bytes" where
  "unmaskInplace buf data stop m =
     (if data + 3 < stop then
        unmaskInplace
          (xor_byte (data + 3) (data + 3) (m ! 3) (xor_byte (data + 2) (data + 2) (m ! 2)
            (xor_byte (data + 1) (data + 1) (m ! 1) (xor_byte data data (m ! 0) buf)))) (data + 4) stop m
      else unmask_tail buf data data m (stop - data))"
  by pat_completeness auto

termination by (relation "measure (\<lambda>(_, data, stop, _). stop - data)") auto

declare unmaskInplace.simps [simp del]

text \<open>The last one to three bytes of a frame in \<^verbatim>\<open>consumeContinuation\<close>: \<^verbatim>\<open>src[n * 4 + i] ^= mask[i]\<close>.\<close>

fun unmask_rest :: "bytes \<Rightarrow> nat \<Rightarrow> bytes \<Rightarrow> nat \<Rightarrow> nat \<Rightarrow> bytes" where
  "unmask_rest buf p m i 0 = buf"
| "unmask_rest buf p m i (Suc k) = unmask_rest (xor_byte (p + i) (p + i) (m ! i) buf) p m (i + 1) k"

definition unmask_final :: "bytes \<Rightarrow> nat \<Rightarrow> bytes \<Rightarrow> bytes" where
  "unmask_final buf remaining m =
     (let n = remaining div 4
      in unmask_rest (unmaskInplace buf 0 (n * 4) m) (n * 4) m 0 (remaining mod 4))"

text \<open>
  The loops of \<^verbatim>\<open>formatMessage\<close> over the payload at \<open>start\<close>: byte by byte up to the first aligned address (\<open>addr\<close> is the
  address of \<open>start\<close>), \<^verbatim>\<open>std::rotate\<close> of the mask, four bytes at a time, and byte by byte to the end.
\<close>

fun mask_unaligned :: "nat \<Rightarrow> nat \<Rightarrow> nat \<Rightarrow> bytes \<Rightarrow> bytes \<Rightarrow> nat \<times> bytes" where
  "mask_unaligned addr start offset m [] = (offset, [])"
| "mask_unaligned addr start offset m (b # bs) =
     (if (addr + start) mod 4 \<noteq> 0
      then (case mask_unaligned addr (start + 1) (offset + 1) m bs of
              (n, out) \<Rightarrow> (n, (b XOR m ! (offset mod 4)) # out))
      else (offset, b # bs))"

definition std_rotate :: "nat \<Rightarrow> bytes \<Rightarrow> bytes" where
  "std_rotate n m = drop n m @ take n m"

fun mask_words :: "bytes \<Rightarrow> bytes \<Rightarrow> bytes" where
  "mask_words m (b0 # b1 # b2 # b3 # bs) = (b0 XOR m ! 0) # (b1 XOR m ! 1) # (b2 XOR m ! 2) # (b3 XOR m ! 3) # mask_words m bs"
| "mask_words m [] = []"
| "mask_words m [b0] = [b0 XOR m ! 0]"
| "mask_words m [b0, b1] = [b0 XOR m ! 0, b1 XOR m ! 1]"
| "mask_words m [b0, b1, b2] = [b0 XOR m ! 0, b1 XOR m ! 1, b2 XOR m ! 2]"

definition mask_payload :: "nat \<Rightarrow> bytes \<Rightarrow> bytes \<Rightarrow> bytes" where
  "mask_payload addr m bs =
     (let (n, bs1) = mask_unaligned addr 0 0 m bs
      in take n bs1 @ mask_words (std_rotate n m) (drop n bs1))"

subsection \<open>The protocol's definition\<close>

definition xor_mask :: "bytes \<Rightarrow> bytes \<Rightarrow> bytes" where
  "xor_mask m xs = map (\<lambda>i. xs ! i XOR m ! (i mod 4)) [0..<length xs]"

lemma length_xor_mask [simp]: "length (xor_mask m xs) = length xs"
  by (simp add: xor_mask_def)

lemma xor_mask_Nil [simp]: "xor_mask m [] = []"
  by (simp add: xor_mask_def)

lemma nth_xor_mask [simp]: "i < length xs \<Longrightarrow> xor_mask m xs ! i = xs ! i XOR m ! (i mod 4)"
  by (simp add: xor_mask_def)

lemma xor_mask_involution: "xor_mask m (xor_mask m xs) = xs"
  by (rule nth_equalityI) (simp_all add: xor.assoc)

lemma xor_mask_append:
  assumes "length m = 4"
  shows "xor_mask m (xs @ ys) = xor_mask m xs @ xor_mask (rotate (length xs) m) ys"
proof (rule nth_equalityI)
  fix i
  assume i: "i < length (xor_mask m (xs @ ys))"
  show "xor_mask m (xs @ ys) ! i = (xor_mask m xs @ xor_mask (rotate (length xs) m) ys) ! i"
  proof (cases "i < length xs")
    case False
    then have "i mod 4 = (i - length xs + length xs) mod 4" by simp
    then have "m ! (i mod 4) = rotate (length xs) m ! ((i - length xs) mod 4)"
      using assms by (simp add: nth_rotate mod_add_left_eq mod_add_right_eq add.commute)
    with False i show ?thesis by (simp add: nth_append)
  qed (use i in \<open>simp add: nth_append\<close>)
qed simp

lemma xor_mask_Cons:
  assumes "length m = 4"
  shows "xor_mask m (x # xs) = (x XOR m ! 0) # xor_mask (rotate1 m) xs"
proof -
  have "xor_mask m [x] = [x XOR m ! 0]" by (simp add: xor_mask_def)
  with xor_mask_append [OF assms, of "[x]" xs] show ?thesis by simp
qed

lemma xor_mask_append4: "length m = 4 \<Longrightarrow> length xs = 4 \<Longrightarrow> xor_mask m (xs @ ys) = xor_mask m xs @ xor_mask m ys"
  using rotate_length01 [of m] by (simp add: xor_mask_append rotate_conv_mod [of 4 m])

subsection \<open>The loops compute it\<close>

text \<open>All the unmasking loops are a forward copy with a list of keys, possibly onto an earlier part of the same buffer.\<close>

fun key_copy :: "bytes \<Rightarrow> nat \<Rightarrow> nat \<Rightarrow> bytes \<Rightarrow> bytes" where
  "key_copy buf d s [] = buf"
| "key_copy buf d s (k # ks) = key_copy (xor_byte d s k buf) (d + 1) (s + 1) ks"

lemma key_copy_append: "key_copy buf d s (ks @ ls) = key_copy (key_copy buf d s ks) (d + length ks) (s + length ks) ls"
  by (induction ks arbitrary: buf d s) simp_all

lemma key_copy_eq:
  "d \<le> s \<Longrightarrow> s + length ks \<le> length buf \<Longrightarrow>
    key_copy buf d s ks = take d buf @ map2 (XOR) (take (length ks) (drop s buf)) ks @ drop (d + length ks) buf"
proof (induction ks arbitrary: buf d s)
  case (Cons k ks)
  let ?b = "xor_byte d s k buf"
  have "take (Suc d) ?b = take d buf @ [buf ! s XOR k]" and "drop (s + 1) ?b = drop (s + 1) buf"
    and "drop (d + 1 + length ks) ?b = drop (d + 1 + length ks) buf"
    using Cons.prems by (simp_all add: xor_byte_def take_Suc_conv_app_nth)
  moreover have "take (length (k # ks)) (drop s buf) = buf ! s # take (length ks) (drop (s + 1) buf)"
    using Cons.prems by (simp add: Cons_nth_drop_Suc [symmetric])
  ultimately show ?case using Cons.IH [of "d + 1" "s + 1" ?b] Cons.prems by (simp add: xor_byte_def)
qed simp

definition keys :: "bytes \<Rightarrow> nat \<Rightarrow> bytes" where
  "keys m n = map (\<lambda>i. m ! (i mod 4)) [0..<n]"

lemma length_keys [simp]: "length (keys m n) = n"
  by (simp add: keys_def)

lemma map2_keys: "length xs = n \<Longrightarrow> map2 (XOR) xs (keys m n) = xor_mask m xs"
  by (rule nth_equalityI) (simp_all add: keys_def)

lemma keys_add4: "keys m (4 + n) = [m ! 0, m ! 1, m ! 2, m ! 3] @ keys m n"
proof (rule nth_equalityI)
  fix i
  assume "i < length (keys m (4 + n))"
  then consider "i < 4" | j where "i = 4 + j" "j < n" by (metis add_diff_inverse_nat length_keys nat_add_left_cancel_less)
  then show "keys m (4 + n) ! i = ([m ! 0, m ! 1, m ! 2, m ! 3] @ keys m n) ! i"
  proof cases
    case 1
    then have "i = 0 \<or> i = 1 \<or> i = 2 \<or> i = 3" by linarith
    with 1 show ?thesis by (auto simp: keys_def simp del: upt_Suc)
  qed (simp add: keys_def nth_append)
qed simp

lemma key_copy_add4:
  "key_copy buf d s (keys m (4 + n)) =
     key_copy (xor_byte (d + 3) (s + 3) (m ! 3) (xor_byte (d + 2) (s + 2) (m ! 2)
       (xor_byte (d + 1) (s + 1) (m ! 1) (xor_byte d s (m ! 0) buf)))) (d + 4) (s + 4) (keys m n)"
  unfolding keys_add4 by (simp add: numeral_eq_Suc)

lemma keys_less4: "n \<le> 4 \<Longrightarrow> length m = 4 \<Longrightarrow> keys m n = take n m"
  by (rule nth_equalityI) (auto simp: keys_def)

lemma unmask_tail_keys: "n \<le> length m \<Longrightarrow> unmask_tail buf d s m n = key_copy buf d s (take n m)"
proof (induction n arbitrary: buf d s m)
  case (Suc n)
  then show ?case by (cases m) simp_all
qed simp

lemma unmaskPrecise_keys: "length m = 4 \<Longrightarrow> unmaskPrecise buf d s m n = key_copy buf d s (keys m n)"
proof (induction buf d s m n rule: unmaskPrecise.induct)
  case (1 buf d s m n)
  show ?case
  proof (cases "n \<ge> 4")
    case True
    then obtain k where "n = 4 + k" using le_Suc_ex by blast
    with 1 True show ?thesis by (subst unmaskPrecise.simps) (simp only: key_copy_add4 simp_thms if_True add_diff_cancel_left')
  next
    case False
    with 1 show ?thesis by (subst unmaskPrecise.simps) (simp add: unmask_tail_keys keys_less4)
  qed
qed

lemma unmaskInplace_keys:
  "length m = 4 \<Longrightarrow> p \<le> stop \<Longrightarrow> unmaskInplace buf p stop m = key_copy buf p p (keys m (stop - p))"
proof (induction buf p stop m rule: unmaskInplace.induct)
  case (1 buf p stop m)
  show ?case
  proof (cases "p + 3 < stop")
    case True
    then have "stop - p = 4 + (stop - (p + 4))" by simp
    moreover have "p + 4 \<le> stop" using True by simp
    ultimately show ?thesis using 1 True by (subst unmaskInplace.simps) (simp only: key_copy_add4 simp_thms if_True)
  next
    case False
    with 1 show ?thesis by (subst unmaskInplace.simps) (simp add: unmask_tail_keys keys_less4)
  qed
qed

lemma unmask_rest_keys:
  "i + k \<le> length m \<Longrightarrow> unmask_rest buf p m i k = key_copy buf (p + i) (p + i) (take k (drop i m))"
proof (induction k arbitrary: buf i)
  case (Suc k)
  then have "take (Suc k) (drop i m) = m ! i # take k (drop (i + 1) m)" by (simp add: Cons_nth_drop_Suc [symmetric])
  with Suc.IH [of "i + 1" "xor_byte (p + i) (p + i) (m ! i) buf"] Suc.prems show ?case by simp
qed simp

lemma keys_mult4: "keys m (4 * n + k) = concat (replicate n [m ! 0, m ! 1, m ! 2, m ! 3]) @ keys m k"
  by (induction n) (simp_all add: keys_add4 [of m, simplified] add.assoc)

lemma unmask_final_keys:
  assumes "length m = 4"
  shows "unmask_final buf n m = key_copy buf 0 0 (keys m n)"
proof -
  have "keys m n = keys m (n div 4 * 4) @ keys m (n mod 4)"
    using keys_mult4 [of m "n div 4" 0] keys_mult4 [of m "n div 4" "n mod 4"] by (simp add: keys_def mult.commute)
  then show ?thesis
    using assms unmask_rest_keys [of 0 "n mod 4" m]
    by (simp add: unmask_final_def Let_def unmaskInplace_keys key_copy_append keys_less4 [of "n mod 4" m])
qed

text \<open>What the parser relies on: the unmasked bytes, and the rest of the buffer as it was.\<close>

lemma unmaskPrecise_eq:
  assumes "length m = 4" "d \<le> s" "s + n \<le> length buf"
  shows "unmaskPrecise buf d s m n = take d buf @ xor_mask m (take n (drop s buf)) @ drop (d + n) buf"
  using assms by (simp add: unmaskPrecise_keys key_copy_eq map2_keys)

lemma unmaskPreciseCopyMask_eq:
  assumes "d \<le> s" "s + n \<le> length buf" "p + 4 \<le> length buf"
  shows "unmaskPreciseCopyMask buf d s p n = take d buf @ xor_mask (take 4 (drop p buf)) (take n (drop s buf)) @ drop (d + n) buf"
proof -
  have "take 4 (drop p buf) = [buf ! p, buf ! (p + 1), buf ! (p + 2), buf ! (p + 3)]"
    using assms(3) by (simp add: numeral_eq_Suc Cons_nth_drop_Suc [symmetric])
  then show ?thesis using assms by (simp add: unmaskPreciseCopyMask_def unmaskPrecise_eq)
qed

lemma unmaskInplace_eq:
  "length m = 4 \<Longrightarrow> stop \<le> length buf \<Longrightarrow> unmaskInplace buf 0 stop m = xor_mask m (take stop buf) @ drop stop buf"
  by (simp add: unmaskInplace_keys key_copy_eq map2_keys)

lemma unmask_final_eq:
  "length m = 4 \<Longrightarrow> n \<le> length buf \<Longrightarrow> unmask_final buf n m = xor_mask m (take n buf) @ drop n buf"
  by (simp add: unmask_final_keys key_copy_eq map2_keys)

lemma mask_unaligned_eq:
  assumes "length m = 4" "mask_unaligned addr start offset m bs = (n, out)"
  shows "offset \<le> n \<and> n - offset \<le> length bs
    \<and> out = xor_mask (rotate offset m) (take (n - offset) bs) @ drop (n - offset) bs
    \<and> n - offset + (addr + start) mod 4 \<le> (if (addr + start) mod 4 = 0 then 0 else 4)"
  using assms(2)
proof (induction bs arbitrary: start offset n out)
  case (Cons b bs)
  show ?case
  proof (cases "(addr + start) mod 4 = 0")
    case False
    then obtain out' where r: "mask_unaligned addr (start + 1) (offset + 1) m bs = (n, out')"
      and out: "out = (b XOR m ! (offset mod 4)) # out'"
      using Cons.prems by (auto split: prod.splits)
    note ih = Cons.IH [OF r]
    then obtain k where n: "n = offset + 1 + k" using le_Suc_ex by blast
    have "rotate offset m ! 0 = m ! (offset mod 4)" using assms(1) nth_rotate [of 0 m offset] by simp
    moreover have "k + 1 + (addr + start) mod 4 \<le> 4" using ih n False by (auto simp: mod_Suc split: if_splits)
    ultimately show ?thesis
      using ih n out False assms(1) by (simp add: xor_mask_Cons)
  qed (use Cons.prems in auto)
qed simp

lemma xor_mask_short:
  "xor_mask m [b0] = [b0 XOR m ! 0]" "xor_mask m [b0, b1] = [b0 XOR m ! 0, b1 XOR m ! 1]"
  "xor_mask m [b0, b1, b2] = [b0 XOR m ! 0, b1 XOR m ! 1, b2 XOR m ! 2]"
  "xor_mask m [b0, b1, b2, b3] = [b0 XOR m ! 0, b1 XOR m ! 1, b2 XOR m ! 2, b3 XOR m ! 3]"
  by (simp_all add: xor_mask_def) (simp_all add: numeral_2_eq_2)

lemma mask_words_eq: "length m = 4 \<Longrightarrow> mask_words m bs = xor_mask m bs"
proof (induction m bs rule: mask_words.induct)
  case (1 m b0 b1 b2 b3 bs)
  then have "xor_mask m ([b0, b1, b2, b3] @ bs) = xor_mask m [b0, b1, b2, b3] @ mask_words m bs"
    by (subst xor_mask_append4) simp_all
  then show ?case by (simp add: xor_mask_short)
qed (simp_all add: xor_mask_short)

lemma mask_payload_eq:
  assumes "length m = 4"
  shows "mask_payload addr m bs = xor_mask m bs"
proof -
  obtain n out where r: "mask_unaligned addr 0 0 m bs = (n, out)" by fastforce
  from mask_unaligned_eq [OF assms r]
  have out: "n \<le> length bs" "out = xor_mask m (take n bs) @ drop n bs" and "n + addr mod 4 \<le> (if addr mod 4 = 0 then 0 else 4)"
    by simp_all
  then have "n < 4" by (auto split: if_splits)
  then have "std_rotate n m = rotate n m" using assms by (simp add: std_rotate_def rotate_drop_take)
  then show ?thesis
    using r out xor_mask_append [OF assms, of "take n bs" "drop n bs"] assms by (simp add: mask_payload_def mask_words_eq)
qed

lemma four_bytes:
  "[a, b, c, d][0 := x] = [x, b, c, d]" "[a, b, c, d][1 := x] = [a, x, c, d]"
  "[a, b, c, d][2 := x] = [a, b, x, d]" "[a, b, c, d][Suc (Suc 0) := x] = [a, b, x, d]" "[a, b, c, d][3 := x] = [a, b, c, x]"
  "[a, b, c, d] ! 1 = b" "[a, b, c, d] ! 2 = c" "[a, b, c, d] ! 3 = d"
  "rotate 1 [a, b, c, d] = [b, c, d, a]" "rotate 2 [a, b, c, d] = [c, d, a, b]" "rotate 3 [a, b, c, d] = [d, a, b, c]"
  by (simp_all add: numeral_2_eq_2 numeral_3_eq_3)

lemma rotateMask_eq:
  assumes "length m = 4"
  shows "rotateMask (4 - n mod 4) m = rotate n m"
proof -
  obtain a b c d where m: "m = [a, b, c, d]" using assms by (auto simp: numeral_eq_Suc length_Suc_conv)
  have "rotate n m = rotate (n mod 4) m" using assms rotate_conv_mod [of n m] by simp
  moreover have "n mod 4 = 0 \<or> n mod 4 = 1 \<or> n mod 4 = 2 \<or> n mod 4 = 3" by linarith
  ultimately show ?thesis unfolding m
    by (elim disjE) (simp_all add: rotateMask_def four_bytes del: One_nat_def list_update.simps)
qed

text \<open>
  C21. Masking and unmasking: the aligned loop of \<^verbatim>\<open>formatMessage\<close> computes the protocol's masking whatever the address of
  the buffer, the receiver's loop undoes it, and unmasking a payload in two chunks, with \<^verbatim>\<open>rotateMask\<close> between them, gives
  the same bytes as unmasking it at once.
\<close>
theorem masking_correct:
  assumes "length m = 4" "payload = p1 @ p2" "buf = mask_payload addr m payload"
  shows "buf = xor_mask m payload \<and> unmaskPrecise buf 0 0 m (length payload) = payload
    \<and> unmaskInplace (take (length p1) buf) 0 (length p1) m = p1
    \<and> unmask_final (drop (length p1) buf) (length p2) (rotateMask (4 - length p1 mod 4) m) = p2"
proof -
  have buf: "buf = xor_mask m p1 @ xor_mask (rotate (length p1) m) p2" "buf = xor_mask m payload"
    using assms by (simp_all add: mask_payload_eq xor_mask_append)
  then have "take (length p1) buf = xor_mask m p1" "drop (length p1) buf = xor_mask (rotate (length p1) m) p2" by simp_all
  then show ?thesis
    using assms(1,2) buf(2) xor_mask_involution
    by (simp add: unmaskPrecise_eq unmaskInplace_eq unmask_final_eq rotateMask_eq)
qed

theorem masking_correct_witness:
  "let m = [1, 2, 3, 4]; p1 = [10, 20, 30, 40, 50]; p2 = [60]; buf = mask_payload 2 m (p1 @ p2)
   in buf = xor_mask m (p1 @ p2) \<and> unmaskInplace (take (length p1) buf) 0 (length p1) m = p1
     \<and> unmask_final (drop (length p1) buf) (length p2) (rotateMask (4 - length p1 mod 4) m) = p2"
  unfolding Let_def
  by (insert masking_correct [of "[1, 2, 3, 4]" _ "[10, 20, 30, 40, 50]" "[60]" _ 2, OF _ refl refl], elim meta_impE, simp, blast)

end
