(* ===== verification/Utf8.thy ===== *)
theory Utf8
  imports Crouton_Prelude
begin

text \<open>
  \<^verbatim>\<open>isValidUtf8\<close> of \<^verbatim>\<open>src/io/WebSocketProtocol.hh\<close>, and that it accepts exactly the encodings of Unicode text: the
  concatenations of the shortest encodings of scalar values.
\<close>

subsection \<open>The checker\<close>

text \<open>The inner \<^verbatim>\<open>while\<close> loop over ASCII bytes is the first branch.\<close>

fun isValidUtf8 :: "byte list \<Rightarrow> bool" where
  "isValidUtf8 [] = True"
| "isValidUtf8 (s0 # s) =
     (if s0 AND 0x80 = 0 then isValidUtf8 s
      else if s0 AND 0x60 = 0x40 then
        (case s of
           s1 # r \<Rightarrow> if s1 AND 0xc0 \<noteq> 0x80 \<or> s0 AND 0xfe = 0xc0 then False else isValidUtf8 r
         | _ \<Rightarrow> False)
      else if s0 AND 0xf0 = 0xe0 then
        (case s of
           s1 # s2 # r \<Rightarrow>
             if s1 AND 0xc0 \<noteq> 0x80 \<or> s2 AND 0xc0 \<noteq> 0x80 \<or> s0 = 0xe0 \<and> s1 AND 0xe0 = 0x80
                \<or> s0 = 0xed \<and> s1 AND 0xe0 = 0xa0
             then False else isValidUtf8 r
         | _ \<Rightarrow> False)
      else if s0 AND 0xf8 = 0xf0 then
        (case s of
           s1 # s2 # s3 # r \<Rightarrow>
             if s1 AND 0xc0 \<noteq> 0x80 \<or> s2 AND 0xc0 \<noteq> 0x80 \<or> s3 AND 0xc0 \<noteq> 0x80 \<or> s0 = 0xf0 \<and> s1 AND 0xf0 = 0x80
                \<or> s0 = 0xf4 \<and> s1 > 0x8f \<or> s0 > 0xf4
             then False else isValidUtf8 r
         | _ \<Rightarrow> False)
      else False)"

subsection \<open>Unicode text\<close>

definition scalar :: "nat \<Rightarrow> bool" where
  "scalar c \<longleftrightarrow> c < 0xD800 \<or> 0xE000 \<le> c \<and> c \<le> 0x10FFFF"

definition utf8_nats :: "nat \<Rightarrow> nat list" where
  "utf8_nats c =
     (if c < 0x80 then [c]
      else if c < 0x800 then [0xC0 + c div 64, 0x80 + c mod 64]
      else if c < 0x10000 then [0xE0 + c div 4096, 0x80 + c div 64 mod 64, 0x80 + c mod 64]
      else [0xF0 + c div 262144, 0x80 + c div 4096 mod 64, 0x80 + c div 64 mod 64, 0x80 + c mod 64])"

definition utf8_encode :: "nat \<Rightarrow> byte list" where
  "utf8_encode c = map word_of_nat (utf8_nats c)"

subsection \<open>Bit tests as ranges\<close>

lemma and_field: "(n :: nat) AND (2 ^ k * (2 ^ j - 1)) = 2 ^ k * ((n div 2 ^ k) mod 2 ^ j)"
proof -
  have "n AND push_bit k (mask j) = push_bit k (take_bit j (drop_bit k n))"
    by (rule bit_eqI) (auto simp: bit_simps)
  then show ?thesis by (simp add: push_bit_eq_mult take_bit_eq_mod drop_bit_eq_div mask_eq_exp_minus_1 mult.commute)
qed

lemma and_field': "c = 2 ^ k * (2 ^ j - 1) \<Longrightarrow> d = 2 ^ k \<Longrightarrow> e = 2 ^ j \<Longrightarrow> n AND c = d * (n div d mod e)" for n c d e :: nat
  using and_field [of n k j] by simp

lemma and_fields:
  fixes n :: nat
  shows "n AND 0x80 = 128 * (n div 128 mod 2)"
    "n AND 0x60 = 32 * (n div 32 mod 4)"
    "n AND 0xc0 = 64 * (n div 64 mod 4)"
    "n AND 0xfe = 2 * (n div 2 mod 128)"
    "n AND 0xf0 = 16 * (n div 16 mod 16)"
    "n AND 0xe0 = 32 * (n div 32 mod 8)"
    "n AND 0xf8 = 8 * (n div 8 mod 32)"
proof -
  show "n AND 0x80 = 128 * (n div 128 mod 2)" by (rule and_field' [of _ 7 1]) simp_all
  show "n AND 0x60 = 32 * (n div 32 mod 4)" by (rule and_field' [of _ 5 2]) simp_all
  show "n AND 0xc0 = 64 * (n div 64 mod 4)" by (rule and_field' [of _ 6 2]) simp_all
  show "n AND 0xfe = 2 * (n div 2 mod 128)" by (rule and_field' [of _ 1 7]) simp_all
  show "n AND 0xf0 = 16 * (n div 16 mod 16)" by (rule and_field' [of _ 4 4]) simp_all
  show "n AND 0xe0 = 32 * (n div 32 mod 8)" by (rule and_field' [of _ 5 3]) simp_all
  show "n AND 0xf8 = 8 * (n div 8 mod 32)" by (rule and_field' [of _ 3 5]) simp_all
qed

lemma byte_less: "unat (b :: byte) < 256"
  using unsigned_less [of b, where ?'a = nat] by simp

lemma byte_and_iff: "(b AND c = d) \<longleftrightarrow> unat b AND unat c = unat (d :: byte)"
  by (simp only: word_unat_eq_iff unsigned_and_eq)

text \<open>The checker on the values of the bytes.\<close>

definition cont :: "nat \<Rightarrow> bool" where
  "cont n \<longleftrightarrow> 0x80 \<le> n \<and> n < 0xC0"

fun valid_nats :: "nat list \<Rightarrow> bool" where
  "valid_nats [] = True"
| "valid_nats (a # s) =
     (if a < 0x80 then valid_nats s
      else if 0xC2 \<le> a \<and> a < 0xE0 then (case s of b # r \<Rightarrow> cont b \<and> valid_nats r | _ \<Rightarrow> False)
      else if 0xE0 \<le> a \<and> a < 0xF0 then
        (case s of b # c # r \<Rightarrow> cont b \<and> cont c \<and> (a = 0xE0 \<longrightarrow> 0xA0 \<le> b) \<and> (a = 0xED \<longrightarrow> b < 0xA0) \<and> valid_nats r
         | _ \<Rightarrow> False)
      else if 0xF0 \<le> a \<and> a < 0xF5 then
        (case s of b # c # d # r \<Rightarrow> cont b \<and> cont c \<and> cont d \<and> (a = 0xF0 \<longrightarrow> 0x90 \<le> b) \<and> (a = 0xF4 \<longrightarrow> b < 0x90) \<and> valid_nats r
         | _ \<Rightarrow> False)
      else False)"

lemma field_eq:
  fixes n k m q :: nat
  assumes "0 < k" "n < k * m"
  shows "k * (n div k mod m) = k * q \<longleftrightarrow> k * q \<le> n \<and> n < k * q + k"
proof -
  have "n div k < m" using assms by (simp add: less_mult_imp_div_less mult.commute)
  moreover have "n div k = q \<longleftrightarrow> k * q \<le> n \<and> n < k * q + k"
    using assms(1) div_nat_eqI [of k q n] times_div_less_eq_dividend [of k n] dividend_less_times_div [of k n] by auto
  ultimately show ?thesis using assms(1) by simp
qed

lemma cont_iff: "(b AND 0xc0 = 0x80) \<longleftrightarrow> cont (unat (b :: byte))"
  using byte_less [of b] field_eq [of 64 "unat b" 4 2] unfolding byte_and_iff by (simp add: and_fields cont_def)

lemma lead_field: "128 \<le> n \<Longrightarrow> n < 256 \<Longrightarrow> 32 * (n div 32 mod 4) = 64 \<longleftrightarrow> 192 \<le> n \<and> n < 224" for n :: nat
proof -
  assume n: "128 \<le> n" "n < 256"
  then obtain r where r: "n = 128 + r" "r < 128" using le_Suc_ex [of 128 n] by auto
  have "(r + 32 * 4) div 32 = 4 + r div 32" by (rule div_mult_self2) simp
  with r have "n div 32 mod 4 = r div 32 mod 4" by (simp add: add.commute)
  then show ?thesis using r field_eq [of 32 r 4 2] by simp
qed

lemma lead_iffs:
  fixes b :: byte
  shows "b AND 0x80 = 0 \<longleftrightarrow> unat b < 0x80"
    "\<not> unat b < 0x80 \<Longrightarrow> b AND 0x60 = 0x40 \<longleftrightarrow> 0xC0 \<le> unat b \<and> unat b < 0xE0"
    "b AND 0xfe = 0xc0 \<longleftrightarrow> 0xC0 \<le> unat b \<and> unat b < 0xC2"
    "b AND 0xf0 = 0xe0 \<longleftrightarrow> 0xE0 \<le> unat b \<and> unat b < 0xF0"
    "b AND 0xf8 = 0xf0 \<longleftrightarrow> 0xF0 \<le> unat b \<and> unat b < 0xF8"
    "b AND 0xe0 = 0x80 \<longleftrightarrow> 0x80 \<le> unat b \<and> unat b < 0xA0"
    "b AND 0xe0 = 0xa0 \<longleftrightarrow> 0xA0 \<le> unat b \<and> unat b < 0xC0"
    "b AND 0xf0 = 0x80 \<longleftrightarrow> 0x80 \<le> unat b \<and> unat b < 0x90"
  using byte_less [of b] lead_field [of "unat b"] field_eq [of 128 "unat b" 2 0] field_eq [of 2 "unat b" 128 96]
    field_eq [of 16 "unat b" 16 14] field_eq [of 8 "unat b" 32 30] field_eq [of 32 "unat b" 8 4] field_eq [of 32 "unat b" 8 5]
    field_eq [of 16 "unat b" 16 8]
  unfolding byte_and_iff by (simp_all add: and_fields)

lemma lead_values:
  fixes b :: byte
  shows "b = 0xe0 \<longleftrightarrow> unat b = 0xE0" "b = 0xed \<longleftrightarrow> unat b = 0xED" "b = 0xf0 \<longleftrightarrow> unat b = 0xF0" "b = 0xf4 \<longleftrightarrow> unat b = 0xF4"
    "b > 0x8f \<longleftrightarrow> unat b > 0x8F" "b > 0xf4 \<longleftrightarrow> unat b > 0xF4"
  by (simp_all add: word_unat_eq_iff word_less_nat_alt)

lemma isValidUtf8_lead:
  "unat s0 < 0x80 \<Longrightarrow> isValidUtf8 (s0 # s) = isValidUtf8 s"
  "0x80 \<le> unat s0 \<Longrightarrow> unat s0 < 0xC0 \<Longrightarrow> \<not> isValidUtf8 (s0 # s)"
  "0xC0 \<le> unat s0 \<Longrightarrow> unat s0 < 0xE0 \<Longrightarrow>
    isValidUtf8 (s0 # s) = (case s of s1 # r \<Rightarrow> cont (unat s1) \<and> 0xC2 \<le> unat s0 \<and> isValidUtf8 r | _ \<Rightarrow> False)"
  "0xE0 \<le> unat s0 \<Longrightarrow> unat s0 < 0xF0 \<Longrightarrow>
    isValidUtf8 (s0 # s) = (case s of s1 # s2 # r \<Rightarrow> cont (unat s1) \<and> cont (unat s2) \<and> (unat s0 = 0xE0 \<longrightarrow> 0xA0 \<le> unat s1)
      \<and> (unat s0 = 0xED \<longrightarrow> unat s1 < 0xA0) \<and> isValidUtf8 r | _ \<Rightarrow> False)"
  "0xF0 \<le> unat s0 \<Longrightarrow> unat s0 < 0xF8 \<Longrightarrow>
    isValidUtf8 (s0 # s) = (case s of s1 # s2 # s3 # r \<Rightarrow> cont (unat s1) \<and> cont (unat s2) \<and> cont (unat s3)
      \<and> (unat s0 = 0xF0 \<longrightarrow> 0x90 \<le> unat s1) \<and> (unat s0 = 0xF4 \<longrightarrow> unat s1 < 0x90) \<and> unat s0 < 0xF5 \<and> isValidUtf8 r | _ \<Rightarrow> False)"
  "0xF8 \<le> unat s0 \<Longrightarrow> \<not> isValidUtf8 (s0 # s)"
proof -
  note unfold = isValidUtf8.simps(2) lead_iffs cont_iff not_less
  show "unat s0 < 0x80 \<Longrightarrow> isValidUtf8 (s0 # s) = isValidUtf8 s" by (simp only: unfold if_True)
  show "0x80 \<le> unat s0 \<Longrightarrow> unat s0 < 0xC0 \<Longrightarrow> \<not> isValidUtf8 (s0 # s)" by (simp only: isValidUtf8.simps(2) lead_iffs not_less) simp
  show "0xF8 \<le> unat s0 \<Longrightarrow> \<not> isValidUtf8 (s0 # s)" by (simp only: isValidUtf8.simps(2) lead_iffs not_less) simp
  show "0xC0 \<le> unat s0 \<Longrightarrow> unat s0 < 0xE0 \<Longrightarrow>
    isValidUtf8 (s0 # s) = (case s of s1 # r \<Rightarrow> cont (unat s1) \<and> 0xC2 \<le> unat s0 \<and> isValidUtf8 r | _ \<Rightarrow> False)"
    by (simp only: unfold) (auto split: list.split simp del: isValidUtf8.simps)
  show "0xE0 \<le> unat s0 \<Longrightarrow> unat s0 < 0xF0 \<Longrightarrow>
    isValidUtf8 (s0 # s) = (case s of s1 # s2 # r \<Rightarrow> cont (unat s1) \<and> cont (unat s2) \<and> (unat s0 = 0xE0 \<longrightarrow> 0xA0 \<le> unat s1)
      \<and> (unat s0 = 0xED \<longrightarrow> unat s1 < 0xA0) \<and> isValidUtf8 r | _ \<Rightarrow> False)"
    by (simp only: unfold, simp only: lead_values) (auto split: list.split simp: cont_def simp del: isValidUtf8.simps)
  show "0xF0 \<le> unat s0 \<Longrightarrow> unat s0 < 0xF8 \<Longrightarrow>
    isValidUtf8 (s0 # s) = (case s of s1 # s2 # s3 # r \<Rightarrow> cont (unat s1) \<and> cont (unat s2) \<and> cont (unat s3)
      \<and> (unat s0 = 0xF0 \<longrightarrow> 0x90 \<le> unat s1) \<and> (unat s0 = 0xF4 \<longrightarrow> unat s1 < 0x90) \<and> unat s0 < 0xF5 \<and> isValidUtf8 r | _ \<Rightarrow> False)"
    by (simp only: unfold, simp only: lead_values) (auto split: list.split simp: cont_def simp del: isValidUtf8.simps)
qed

lemma isValidUtf8_nats: "isValidUtf8 bs = valid_nats (map unat bs)"
proof (induction bs rule: length_induct)
  case (1 bs)
  show ?case
  proof (cases bs)
    case (Cons s0 s)
    have ih: "length r \<le> length s \<Longrightarrow> isValidUtf8 r = valid_nats (map unat r)" for r using 1 Cons by simp
    consider "unat s0 < 0x80" | "0x80 \<le> unat s0" "unat s0 < 0xC0" | "0xC0 \<le> unat s0" "unat s0 < 0xE0"
      | "0xE0 \<le> unat s0" "unat s0 < 0xF0" | "0xF0 \<le> unat s0" "unat s0 < 0xF8" | "0xF8 \<le> unat s0" by linarith
    then show ?thesis unfolding Cons
      by cases (simp_all add: isValidUtf8_lead ih del: isValidUtf8.simps split: list.split)
  qed simp
qed

subsection \<open>Accepted means encoded\<close>

lemma base64_digit:
  fixes x y :: nat
  assumes "y < 64"
  shows "(x * 64 + y) div 64 = x" "(x * 64 + y) mod 64 = y"
  using assms by simp_all

lemma div_64_64: "n div 4096 = n div 64 div 64" "n div 262144 = n div 64 div 64 div 64" for n :: nat
  by (simp_all add: div_mult2_eq [symmetric])

lemma cont_digit: "cont b \<Longrightarrow> \<exists>y < 64. b = 0x80 + y"
  unfolding cont_def by (intro exI [of _ "b - 0x80"]) linarith

lemma decode2:
  assumes "0xC2 \<le> a" "a < 0xE0" "cont b"
  shows "\<exists>c. scalar c \<and> [a, b] = utf8_nats c"
proof -
  obtain y where y: "y < 64" "b = 0x80 + y" using cont_digit [OF assms(3)] by blast
  define x where "x = a - 0xC0"
  have x: "2 \<le> x" "x < 32" "a = 0xC0 + x" using assms(1,2) by (simp_all add: x_def)
  have "scalar (x * 64 + y) \<and> [a, b] = utf8_nats (x * 64 + y)"
    using x y by (simp add: scalar_def utf8_nats_def base64_digit)
  then show ?thesis by blast
qed

lemma decode3:
  assumes "0xE0 \<le> a" "a < 0xF0" "cont b" "cont c" "a = 0xE0 \<longrightarrow> 0xA0 \<le> b" "a = 0xED \<longrightarrow> b < 0xA0"
  shows "\<exists>u. scalar u \<and> [a, b, c] = utf8_nats u"
proof -
  obtain y z where y: "y < 64" "b = 0x80 + y" and z: "z < 64" "c = 0x80 + z" using cont_digit assms(3,4) by metis
  define x where "x = a - 0xE0"
  have x: "x < 16" "a = 0xE0 + x" "x = 0 \<longrightarrow> 32 \<le> y" "x = 13 \<longrightarrow> y < 32" using assms y by (auto simp: x_def)
  let ?u = "(x * 64 + y) * 64 + z"
  have "\<not> ?u < 0x80" "\<not> ?u < 0x800" "?u < 0x10000" using x y z by (cases "x = 0"; simp)+
  then have "utf8_nats ?u = [0xE0 + x, 0x80 + y, 0x80 + z]"
    unfolding utf8_nats_def div_64_64 by (simp only: base64_digit y z if_True if_False)
  moreover have "scalar ?u" unfolding scalar_def using x y z by (cases "x < 13"; cases "x = 13"; simp)
  ultimately show ?thesis using x y z by metis
qed

lemma decode4:
  assumes "0xF0 \<le> a" "a < 0xF5" "cont b" "cont c" "cont d" "a = 0xF0 \<longrightarrow> 0x90 \<le> b" "a = 0xF4 \<longrightarrow> b < 0x90"
  shows "\<exists>u. scalar u \<and> [a, b, c, d] = utf8_nats u"
proof -
  obtain y z w where y: "y < 64" "b = 0x80 + y" and z: "z < 64" "c = 0x80 + z" and w: "w < 64" "d = 0x80 + w"
    using cont_digit assms(3-5) by metis
  define x where "x = a - 0xF0"
  have x: "x < 5" "a = 0xF0 + x" "x = 0 \<longrightarrow> 16 \<le> y" "x = 4 \<longrightarrow> y < 16" using assms y by (auto simp: x_def)
  let ?u = "((x * 64 + y) * 64 + z) * 64 + w"
  have u: "\<not> ?u < 0x80" "\<not> ?u < 0x800" "\<not> ?u < 0x10000" "?u \<le> 0x10FFFF"
    using x y z w by (cases "x = 0"; cases "x = 4"; simp)+
  then have "utf8_nats ?u = [0xF0 + x, 0x80 + y, 0x80 + z, 0x80 + w]"
    unfolding utf8_nats_def div_64_64 by (simp only: base64_digit y z w if_False)
  moreover have "scalar ?u" unfolding scalar_def using u by linarith
  ultimately show ?thesis using x y z w by metis
qed

lemma valid_decode:
  assumes "valid_nats (a # s)"
  shows "\<exists>c r. scalar c \<and> a # s = utf8_nats c @ r \<and> valid_nats r"
proof -
  consider "a < 0x80" | "0xC2 \<le> a" "a < 0xE0" | "0xE0 \<le> a" "a < 0xF0" | "0xF0 \<le> a" "a < 0xF5"
    using assms by (force split: if_splits)
  then show ?thesis
  proof cases
    case 1
    with assms have "scalar a" "a # s = utf8_nats a @ s" "valid_nats s" by (simp_all add: scalar_def utf8_nats_def)
    then show ?thesis by blast
  next
    case 2
    with assms obtain b r where s: "s = b # r" "cont b" "valid_nats r" by (auto split: list.splits)
    with decode2 [OF 2 s(2)] show ?thesis by (metis append_Cons append_Nil)
  next
    case 3
    with assms obtain b c r where s: "s = b # c # r" "cont b" "cont c" "a = 0xE0 \<longrightarrow> 0xA0 \<le> b" "a = 0xED \<longrightarrow> b < 0xA0" "valid_nats r"
      by (auto split: list.splits)
    with decode3 [OF 3 s(2-5)] show ?thesis by (metis append_Cons append_Nil)
  next
    case 4
    with assms obtain b c d r where s: "s = b # c # d # r" "cont b" "cont c" "cont d" "a = 0xF0 \<longrightarrow> 0x90 \<le> b"
        "a = 0xF4 \<longrightarrow> b < 0x90" "valid_nats r"
      by (auto split: list.splits)
    with decode4 [OF 4 s(2-6)] show ?thesis by (metis append_Cons append_Nil)
  qed
qed

lemma valid_encode:
  assumes "scalar c"
  shows "valid_nats (utf8_nats c @ r) = valid_nats r"
proof -
  have d: "c mod 64 < 64" "c div 64 mod 64 < 64" "c div 4096 mod 64 < 64" by simp_all
  consider "c < 0x80" | "0x80 \<le> c" "c < 0x800" | "0x800 \<le> c" "c < 0x10000" | "0x10000 \<le> c" "c \<le> 0x10FFFF"
    using assms unfolding scalar_def by linarith
  then show ?thesis
  proof cases
    case 2
    then have "2 \<le> c div 64" "c div 64 < 32" by (simp_all add: less_eq_div_iff_mult_less_eq div_less_iff_less_mult)
    with 2 d show ?thesis by (simp add: utf8_nats_def cont_def)
  next
    case 3
    have c: "c = c div 64 div 64 * 4096 + c div 64 mod 64 * 64 + c mod 64"
      using div_mult_mod_eq [of c 64] div_mult_mod_eq [of "c div 64" 64] by linarith
    have "c div 4096 < 16" using 3 by (simp add: div_less_iff_less_mult)
    moreover have "c div 4096 = 0 \<Longrightarrow> 32 \<le> c div 64 mod 64" using 3 c d unfolding div_64_64 by linarith
    moreover have "c div 4096 = 13 \<Longrightarrow> c div 64 mod 64 < 32" using assms c d unfolding div_64_64 scalar_def by linarith
    ultimately show ?thesis using 3 d by (simp add: utf8_nats_def cont_def)
  next
    case 4
    have c: "c = c div 64 div 64 div 64 * 262144 + c div 64 div 64 mod 64 * 4096 + c div 64 mod 64 * 64 + c mod 64"
      using div_mult_mod_eq [of c 64] div_mult_mod_eq [of "c div 64" 64] div_mult_mod_eq [of "c div 64 div 64" 64] by linarith
    have "c div 262144 < 5" using 4 by (simp add: div_less_iff_less_mult)
    moreover have "c div 262144 = 0 \<Longrightarrow> 16 \<le> c div 4096 mod 64" using 4 c d unfolding div_64_64 by linarith
    moreover have "c div 262144 = 4 \<Longrightarrow> c div 4096 mod 64 < 16" using 4 c d unfolding div_64_64 by linarith
    ultimately show ?thesis using 4 d by (simp add: utf8_nats_def cont_def)
  qed (simp add: utf8_nats_def)
qed

lemma valid_nats_iff: "valid_nats ns \<longleftrightarrow> (\<exists>cs. list_all scalar cs \<and> ns = concat (map utf8_nats cs))"
proof
  show "valid_nats ns \<Longrightarrow> \<exists>cs. list_all scalar cs \<and> ns = concat (map utf8_nats cs)"
  proof (induction ns rule: length_induct)
    case (1 ns)
    show ?case
    proof (cases ns)
      case Nil
      then show ?thesis by (intro exI [of _ "[]"]) simp
    next
      case (Cons a s)
      with 1 valid_decode obtain c r where c: "scalar c" "ns = utf8_nats c @ r" "valid_nats r" by blast
      moreover have "length r < length ns" using c by (simp add: utf8_nats_def)
      ultimately obtain cs where "list_all scalar cs" "r = concat (map utf8_nats cs)" using 1 by blast
      with c show ?thesis by (intro exI [of _ "c # cs"]) simp
    qed
  qed
next
  have "list_all scalar cs \<Longrightarrow> valid_nats (concat (map utf8_nats cs))" for cs
    by (induction cs) (simp_all add: valid_encode)
  then show "\<exists>cs. list_all scalar cs \<and> ns = concat (map utf8_nats cs) \<Longrightarrow> valid_nats ns" by blast
qed

lemma map_unat_encode: "scalar c \<Longrightarrow> map unat (utf8_encode c) = utf8_nats c"
proof -
  assume "scalar c"
  then have "c div 262144 < 5" by (auto simp: scalar_def div_less_iff_less_mult)
  then have "list_all (\<lambda>n. n < 256) (utf8_nats c)"
    by (auto simp: utf8_nats_def div_less_iff_less_mult less_mult_imp_div_less trans_less_add1)
  then show ?thesis by (simp add: utf8_encode_def list_all_iff map_idI unsigned_of_nat take_bit_eq_mod)
qed

text \<open>
  C20. \<^verbatim>\<open>isValidUtf8\<close> accepts a string if and only if it is the UTF-8 encoding of a sequence of Unicode scalar values: no
  overlong form, no surrogate, nothing above U+10FFFF and no truncated sequence is let through, and no text is refused.
\<close>
theorem isValidUtf8_correct:
  "isValidUtf8 bs \<longleftrightarrow> (\<exists>cs. list_all scalar cs \<and> bs = concat (map utf8_encode cs))"
proof -
  have enc: "map unat (concat (map utf8_encode cs)) = concat (map utf8_nats cs)" if "list_all scalar cs" for cs
    using that by (induction cs) (simp_all add: map_unat_encode)
  have inj: "map unat bs = map unat cs \<Longrightarrow> bs = cs" for cs :: "byte list"
    by (rule map_injective) (auto intro!: injI)
  have "isValidUtf8 bs \<longleftrightarrow> (\<exists>cs. list_all scalar cs \<and> map unat bs = concat (map utf8_nats cs))"
    by (simp add: isValidUtf8_nats valid_nats_iff)
  also have "\<dots> \<longleftrightarrow> (\<exists>cs. list_all scalar cs \<and> bs = concat (map utf8_encode cs))" using enc inj by metis
  finally show ?thesis .
qed

end
