(* ===== verification/WebSocketProtocol.thy ===== *)
theory WebSocketProtocol
  imports Masking Utf8
begin

text \<open>
  The WebSocket framing of \<^verbatim>\<open>src/io/WebSocketProtocol.hh\<close> with the callbacks of it that \<^verbatim>\<open>src/io/WebSocket.cc\<close> defines, on a
  little-endian 64-bit machine. \<open>srv\<close> is the template parameter \<^verbatim>\<open>isServer\<close>; the buffer at \<^verbatim>\<open>src\<close> with its \<^verbatim>\<open>length\<close> is a
  list of bytes; \<^verbatim>\<open>handleFragment\<close> is an argument \<open>hf\<close> that gets the data, the remaining count, the opcode and the final flag
  and returns whether to stop. The parser takes the bytes in chunks, of which only the concatenation should matter: a machine
  that is fed one byte at a time is the specification, and \<^verbatim>\<open>consume\<close> is proved to refine it.
\<close>

subsection \<open>Frames\<close>

definition SHORT_MESSAGE_HEADER :: "bool \<Rightarrow> nat" where "SHORT_MESSAGE_HEADER srv = (if srv then 6 else 2)"
definition MEDIUM_MESSAGE_HEADER :: "bool \<Rightarrow> nat" where "MEDIUM_MESSAGE_HEADER srv = (if srv then 8 else 4)"
definition LONG_MESSAGE_HEADER :: "bool \<Rightarrow> nat" where "LONG_MESSAGE_HEADER srv = (if srv then 14 else 10)"

lemmas header_sizes = SHORT_MESSAGE_HEADER_def MEDIUM_MESSAGE_HEADER_def LONG_MESSAGE_HEADER_def

text \<open>\<^verbatim>\<open>memcpy(&frame, src, sizeof(frameFormat))\<close>.\<close>

definition frameFormat :: "bytes \<Rightarrow> u16" where
  "frameFormat src = ucast (src ! 0) OR push_bit 8 (ucast (src ! 1))"

definition isFin :: "u16 \<Rightarrow> bool" where "isFin frame \<longleftrightarrow> frame AND 128 \<noteq> 0"
definition getOpCode :: "u16 \<Rightarrow> byte" where "getOpCode frame = ucast (frame AND 15)"
definition payloadLength :: "u16 \<Rightarrow> byte" where "payloadLength frame = ucast (drop_bit 8 frame AND 127)"
definition rsv23 :: "u16 \<Rightarrow> bool" where "rsv23 frame \<longleftrightarrow> frame AND 48 \<noteq> 0"
definition rsv1 :: "u16 \<Rightarrow> bool" where "rsv1 frame \<longleftrightarrow> frame AND 64 \<noteq> 0"

text \<open>\<^verbatim>\<open>ntohs\<close> and \<^verbatim>\<open>be64toh\<close> of the bytes copied from the header.\<close>

definition be_nat :: "bytes \<Rightarrow> nat" where
  "be_nat bs = foldl (\<lambda>n b. n * 256 + unat b) 0 bs"

text \<open>The callbacks.\<close>

definition kMaxMessageLength :: nat where "kMaxMessageLength = 2 ^ 20"

definition setCompressed :: bool where "setCompressed = False"

definition refusePayloadLength :: "nat \<Rightarrow> bool" where
  "refusePayloadLength n \<longleftrightarrow> n > kMaxMessageLength"

definition forceClose :: "'a outcome" where
  "forceClose = Throw (Raise DWebSocket 1002)"

text \<open>Invalid reserved bits, opcodes and control frames.\<close>

definition bad_frame :: "u16 \<Rightarrow> bool" where
  "bad_frame frame \<longleftrightarrow>
     rsv1 frame \<and> \<not> setCompressed \<or> rsv23 frame
     \<or> getOpCode frame > 2 \<and> getOpCode frame < 8 \<or> getOpCode frame > 10
     \<or> getOpCode frame > 2 \<and> (\<not> isFin frame \<or> payloadLength frame > 125)"

subsection \<open>The parser\<close>

datatype ws_state = READ_HEAD | READ_MESSAGE

record proto =
  p_state :: ws_state
  p_spill :: bytes
  p_opStack :: int
  p_lastFin :: bool
  p_remainingBytes :: nat
  p_mask :: bytes
  p_opCode :: bytes

definition new_proto :: "bool \<Rightarrow> proto" where
  "new_proto srv = \<lparr>p_state = READ_HEAD, p_spill = [], p_opStack = -1, p_lastFin = True, p_remainingBytes = 0,
     p_mask = replicate (if srv then 4 else 1) 0, p_opCode = [0, 0]\<rparr>"

type_synonym 'u fragment_handler = "bytes \<Rightarrow> nat \<Rightarrow> byte \<Rightarrow> bool \<Rightarrow> 'u \<Rightarrow> bool \<times> 'u"

abbreviation cur_opCode :: "proto \<Rightarrow> byte" where
  "cur_opCode p \<equiv> p_opCode p ! nat (p_opStack p)"

text \<open>The conversion to \<^verbatim>\<open>int\<close>.\<close>

definition as_int :: "nat \<Rightarrow> int" where
  "as_int n = sint (word_of_nat n :: 32 word)"

definition push_opCode :: "u16 \<Rightarrow> proto \<Rightarrow> proto outcome" where
  "push_opCode frame p =
     (if getOpCode frame \<noteq> 0 then
        (if p_opStack p = 1 \<or> \<not> p_lastFin p \<and> getOpCode frame < 2 then forceClose
         else Ok (p\<lparr>p_opStack := p_opStack p + 1, p_opCode := (p_opCode p)[nat (p_opStack p + 1) := getOpCode frame]\<rparr>))
      else if p_opStack p = -1 then forceClose
      else Ok p)"

definition consumeMessage ::
    "'u fragment_handler \<Rightarrow> bool \<Rightarrow> nat \<Rightarrow> nat \<Rightarrow> bytes \<Rightarrow> u16 \<Rightarrow> proto \<Rightarrow> 'u \<Rightarrow> (bool \<times> bytes \<times> proto \<times> 'u) outcome" where
  "consumeMessage hf srv hdr payLength src frame p u =
     (case push_opCode frame p of
        Inl e \<Rightarrow> Throw e
      | Inr p0 \<Rightarrow>
          let p1 = p0\<lparr>p_lastFin := isFin frame\<rparr> in
          if refusePayloadLength payLength then forceClose
          else if as_int payLength \<le> as_int (length src - hdr) then
            let src1 = (if srv then unmaskPreciseCopyMask src 0 hdr (hdr - 4) payLength else src);
                data = (if srv then take payLength src1 else take payLength (drop hdr src1))
            in case hf data 0 (cur_opCode p1) (isFin frame) u of (stop, u1) \<Rightarrow>
              if stop then Ok (True, src1, p1, u1)
              else Ok (False, drop (payLength + hdr) src1,
                       (if isFin frame then p1\<lparr>p_opStack := p_opStack p1 - 1\<rparr> else p1)\<lparr>p_spill := []\<rparr>, u1)
          else
            let n = length src - hdr;
                p2 = p1\<lparr>p_spill := [], p_state := READ_MESSAGE, p_remainingBytes := payLength + hdr - length src\<rparr>;
                mask = take 4 (drop (hdr - 4) src);
                p3 = (if srv then p2\<lparr>p_mask := rotateMask (4 - n mod 4) mask\<rparr> else p2);
                src1 = (if srv then unmaskPrecise src 0 hdr mask n else drop hdr src)
            in case hf (take n src1) (p_remainingBytes p3) (cur_opCode p3) (isFin frame) u of (_, u1) \<Rightarrow>
              Ok (True, src1, p3, u1))"

definition consumeContinuation :: "'u fragment_handler \<Rightarrow> bool \<Rightarrow> bytes \<Rightarrow> proto \<Rightarrow> 'u \<Rightarrow> bool \<times> bytes \<times> proto \<times> 'u" where
  "consumeContinuation hf srv src p u =
     (if p_remainingBytes p \<le> length src then
        let src1 = (if srv then unmask_final src (p_remainingBytes p) (p_mask p) else src)
        in case hf (take (p_remainingBytes p) src1) 0 (cur_opCode p) (p_lastFin p) u of (stop, u1) \<Rightarrow>
          if stop then (False, src1, p, u1)
          else (True, drop (p_remainingBytes p) src1,
                (if p_lastFin p then p\<lparr>p_opStack := p_opStack p - 1\<rparr> else p)\<lparr>p_state := READ_HEAD\<rparr>, u1)
      else
        let src1 = (if srv then unmaskInplace src 0 (length src) (p_mask p) else src);
            p1 = p\<lparr>p_remainingBytes := p_remainingBytes p - length src\<rparr>
        in case hf src1 (p_remainingBytes p1) (cur_opCode p1) (p_lastFin p1) u of (stop, u1) \<Rightarrow>
          if stop then (False, src1, p1, u1)
          else (False, src1,
                if srv \<and> length src mod 4 \<noteq> 0 then p1\<lparr>p_mask := rotateMask (4 - length src mod 4) (p_mask p1)\<rparr> else p1, u1))"

definition store_spill :: "bytes \<Rightarrow> proto \<Rightarrow> proto" where
  "store_spill src p = (if src \<noteq> [] then p\<lparr>p_spill := src\<rparr> else p)"

lemma length_unmask [simp]:
  "length (unmask_tail buf d s m n) = length buf" "length (unmaskPrecise buf d s m n) = length buf"
proof -
  show tail: "length (unmask_tail buf d s m n) = length buf" for buf d s m n
    by (induction n arbitrary: buf d s m) (simp_all add: xor_byte_def)
  show "length (unmaskPrecise buf d s m n) = length buf"
    by (induction buf d s m n rule: unmaskPrecise.induct, subst unmaskPrecise.simps) (simp add: tail xor_byte_def)
qed

lemma consumeMessage_shorter:
  assumes "consumeMessage hf srv hdr n src frame p u = Ok (False, src', p', u')" "0 < hdr" "hdr \<le> length src"
  shows "length src' < length src"
  using assms
  by (auto simp: consumeMessage_def forceClose_def unmaskPreciseCopyMask_def Let_def split: sum.splits if_splits prod.splits)

function parseNext :: "'u fragment_handler \<Rightarrow> bool \<Rightarrow> bytes \<Rightarrow> proto \<Rightarrow> 'u \<Rightarrow> (proto \<times> 'u) outcome" where
  "parseNext hf srv src p u =
     (if length src < SHORT_MESSAGE_HEADER srv then Ok (store_spill src p, u)
      else
        let frame = frameFormat src in
        if bad_frame frame then forceClose
        else if payloadLength frame < 126 then
          (case consumeMessage hf srv (SHORT_MESSAGE_HEADER srv) (unat (payloadLength frame)) src frame p u of
             Inl e \<Rightarrow> Throw e
           | Inr (stop, src1, p1, u1) \<Rightarrow> if stop then Ok (p1, u1) else parseNext hf srv src1 p1 u1)
        else if payloadLength frame = 126 then
          (if length src < MEDIUM_MESSAGE_HEADER srv then Ok (store_spill src p, u)
           else case consumeMessage hf srv (MEDIUM_MESSAGE_HEADER srv) (be_nat (take 2 (drop 2 src))) src frame p u of
             Inl e \<Rightarrow> Throw e
           | Inr (stop, src1, p1, u1) \<Rightarrow> if stop then Ok (p1, u1) else parseNext hf srv src1 p1 u1)
        else
          (if length src < LONG_MESSAGE_HEADER srv then Ok (store_spill src p, u)
           else case consumeMessage hf srv (LONG_MESSAGE_HEADER srv) (be_nat (take 8 (drop 2 src))) src frame p u of
             Inl e \<Rightarrow> Throw e
           | Inr (stop, src1, p1, u1) \<Rightarrow> if stop then Ok (p1, u1) else parseNext hf srv src1 p1 u1))"
  by pat_completeness auto

termination
  by (relation "measure (\<lambda>(_, _, src, _, _). length src)")
     (auto simp: header_sizes dest: consumeMessage_shorter split: if_splits)

declare parseNext.simps [simp del]

definition consume_raw :: "'u fragment_handler \<Rightarrow> bool \<Rightarrow> bytes \<Rightarrow> proto \<Rightarrow> 'u \<Rightarrow> (proto \<times> 'u) outcome" where
  "consume_raw hf srv src p u =
     (let src1 = (if p_spill p \<noteq> [] then p_spill p @ src else src) in
      if p_state p = READ_HEAD then parseNext hf srv src1 p u
      else case consumeContinuation hf srv src1 p u of (again, src2, p2, u2) \<Rightarrow>
        if again then parseNext hf srv src2 p2 u2 else Ok (p2, u2))"

text \<open>\<^verbatim>\<open>consume\<close>, whose local buffer and whose \<^verbatim>\<open>spill\<close> array have a fixed size.\<close>

function consume :: "'u fragment_handler \<Rightarrow> bool \<Rightarrow> bytes \<Rightarrow> proto \<Rightarrow> 'u \<Rightarrow> (proto \<times> 'u) outcome" where
  "consume hf srv src p u =
     (if p_spill p \<noteq> [] then
        (if length (p_spill p) \<ge> LONG_MESSAGE_HEADER srv then Throw UndefinedBehavior
         else
           let bufLen = min (length (p_spill p) + length src) (LONG_MESSAGE_HEADER srv);
               lengthUsed = bufLen - length (p_spill p)
           in case consume_raw hf srv (p_spill p @ take lengthUsed src) (p\<lparr>p_spill := []\<rparr>) u of
                Inl e \<Rightarrow> Throw e
              | Inr (p1, u1) \<Rightarrow> if drop lengthUsed src = [] then Ok (p1, u1) else consume hf srv (drop lengthUsed src) p1 u1)
      else consume_raw hf srv src p u)"
  by pat_completeness auto

termination
  by (relation "measure (\<lambda>(_, _, src, _, _). length src)") auto

declare consume.simps [simp del]

subsection \<open>Formatting\<close>

text \<open>\<^verbatim>\<open>htons\<close> and \<^verbatim>\<open>htobe64\<close>, stored to memory: the low \<open>k\<close> bytes, most significant first.\<close>

fun nat_be :: "nat \<Rightarrow> nat \<Rightarrow> bytes" where
  "nat_be 0 n = []"
| "nat_be (Suc k) n = nat_be k (n div 256) @ [word_of_nat n]"

text \<open>
  \<^verbatim>\<open>formatMessage\<close> of the side \<open>srv\<close>: what it writes to \<^verbatim>\<open>dst\<close>, at address \<open>addr\<close>, if \<^verbatim>\<open>Randomize\<close> gives \<open>key\<close>. \<^verbatim>\<open>flags\<close> is 0.
\<close>

definition length_bytes :: "nat \<Rightarrow> bytes" where
  "length_bytes n = (if n < 126 then [word_of_nat n] else if n \<le> 65535 then 126 # nat_be 2 n else 127 # nat_be 8 n)"

definition format_header :: "bool \<Rightarrow> bytes \<Rightarrow> byte \<Rightarrow> nat \<Rightarrow> bool \<Rightarrow> bytes" where
  "format_header srv key opCode reportedLength compressed =
     (let lb = length_bytes reportedLength;
          b0 = 128 OR (if compressed then 64 else 0) OR opCode
      in if srv then b0 # lb else b0 # (hd lb OR 0x80) # tl lb @ key)"

definition formatMessage :: "bool \<Rightarrow> nat \<Rightarrow> bytes \<Rightarrow> bytes \<Rightarrow> byte \<Rightarrow> nat \<Rightarrow> bool \<Rightarrow> bytes" where
  "formatMessage srv addr key src opCode reportedLength compressed =
     (let hdr = format_header srv key opCode reportedLength compressed
      in hdr @ (if srv then src else mask_payload (addr + length hdr) key src))"

subsection \<open>Close payloads\<close>

definition formatClosePayload :: "u16 \<Rightarrow> bytes \<Rightarrow> bytes" where
  "formatClosePayload code message = (if code \<noteq> 0 then nat_be 2 (unat code) @ message else [])"

record CloseFrame =
  cf_code :: nat
  cf_message :: bytes

definition parseClosePayload :: "bytes \<Rightarrow> CloseFrame" where
  "parseClosePayload src =
     (if length src \<ge> 2 then
        let code = be_nat (take 2 src); message = drop 2 src in
        if code < 1000 \<or> code > 4999 \<or> code > 1011 \<and> code < 4000 \<or> code \<ge> 1004 \<and> code \<le> 1006 \<or> \<not> isValidUtf8 message
        then \<lparr>cf_code = 0, cf_message = []\<rparr>
        else \<lparr>cf_code = code, cf_message = message\<rparr>
      else \<lparr>cf_code = 0, cf_message = []\<rparr>)"

subsection \<open>The specification: one byte at a time\<close>

definition header_size :: "bool \<Rightarrow> bytes \<Rightarrow> nat" where
  "header_size srv h =
     (let n = payloadLength (frameFormat h)
      in if n < 126 then SHORT_MESSAGE_HEADER srv else if n = 126 then MEDIUM_MESSAGE_HEADER srv else LONG_MESSAGE_HEADER srv)"

definition payload_size :: "bytes \<Rightarrow> nat" where
  "payload_size h =
     (let n = payloadLength (frameFormat h)
      in if n < 126 then unat n else if n = 126 then be_nat (take 2 (drop 2 h)) else be_nat (take 8 (drop 2 h)))"

text \<open>The bytes received are part of a header that is not known to be bad.\<close>

definition incomplete :: "bool \<Rightarrow> bytes \<Rightarrow> bool" where
  "incomplete srv h \<longleftrightarrow>
     length h < SHORT_MESSAGE_HEADER srv \<or> \<not> bad_frame (frameFormat h) \<and> length h < header_size srv h"

definition end_frame :: "proto \<Rightarrow> proto" where
  "end_frame p = (if p_lastFin p then p\<lparr>p_opStack := p_opStack p - 1\<rparr> else p)
     \<lparr>p_state := READ_HEAD, p_spill := [], p_remainingBytes := 0, p_mask := []\<rparr>"

definition begin_frame :: "'u fragment_handler \<Rightarrow> bool \<Rightarrow> bytes \<Rightarrow> proto \<Rightarrow> 'u \<Rightarrow> (proto \<times> 'u) outcome" where
  "begin_frame hf srv h p u =
     obind (push_opCode (frameFormat h) p) (\<lambda>p0.
       let n = payload_size h;
           p1 = p0\<lparr>p_lastFin := isFin (frameFormat h)\<rparr>;
           u1 = snd (hf [] n (cur_opCode p1) (p_lastFin p1) u)
       in if refusePayloadLength n then forceClose
          else if n = 0 then Ok (end_frame p1, u1)
          else Ok (p1\<lparr>p_state := READ_MESSAGE, p_spill := [], p_remainingBytes := n,
                      p_mask := if srv then take 4 (drop (header_size srv h - 4) h) else []\<rparr>, u1))"

definition feed :: "'u fragment_handler \<Rightarrow> bool \<Rightarrow> byte \<Rightarrow> proto \<times> 'u \<Rightarrow> (proto \<times> 'u) outcome" where
  "feed hf srv b pu =
     (case pu of (p, u) \<Rightarrow>
        if p_state p = READ_HEAD then
          let h = p_spill p @ [b] in
          if incomplete srv h then Ok (p\<lparr>p_spill := h\<rparr>, u)
          else if bad_frame (frameFormat h) then forceClose
          else begin_frame hf srv h p u
        else
          let x = (if srv then b XOR p_mask p ! 0 else b);
              n = p_remainingBytes p - 1;
              u1 = snd (hf [x] n (cur_opCode p) (p_lastFin p) u)
          in Ok (if n = 0 then end_frame p else p\<lparr>p_remainingBytes := n, p_mask := rotate1 (p_mask p)\<rparr>, u1))"

text \<open>What the parser keeps from an earlier frame and does not use.\<close>

definition norm :: "bool \<Rightarrow> proto \<Rightarrow> proto" where
  "norm srv p =
     (if p_state p = READ_HEAD then p\<lparr>p_remainingBytes := 0, p_mask := []\<rparr> else if srv then p else p\<lparr>p_mask := []\<rparr>)"

definition nrm :: "bool \<Rightarrow> (proto \<times> 'u) outcome \<Rightarrow> (proto \<times> 'u) outcome" where
  "nrm srv r = map_sum id (\<lambda>(p, u). (norm srv p, u)) r"

lemma nrm_simps [simp]: "nrm srv (Ok (p, u)) = Ok (norm srv p, u)" "nrm srv (Throw e) = Throw e"
  by (simp_all add: nrm_def)

definition proto_ok :: "bool \<Rightarrow> proto \<Rightarrow> bool" where
  "proto_ok srv p \<longleftrightarrow> -1 \<le> p_opStack p \<and> p_opStack p \<le> 1 \<and> length (p_opCode p) = 2
     \<and> (if p_state p = READ_HEAD then incomplete srv (p_spill p)
        else p_spill p = [] \<and> 0 < p_remainingBytes p \<and> 0 \<le> p_opStack p \<and> (srv \<longrightarrow> length (p_mask p) = 4))"

subsection \<open>Headers\<close>

lemma header_size_range: "SHORT_MESSAGE_HEADER srv \<le> header_size srv h" "header_size srv h \<le> LONG_MESSAGE_HEADER srv"
  by (simp_all add: header_size_def header_sizes Let_def)

lemma frameFormat_take: "2 \<le> n \<Longrightarrow> frameFormat (take n h) = frameFormat h"
  by (simp add: frameFormat_def)

lemma frameFormat_append: "2 \<le> length h \<Longrightarrow> frameFormat (h @ t) = frameFormat h"
proof -
  assume "2 \<le> length h"
  then have "0 < length h" "1 < length h" by linarith+
  then show ?thesis by (simp only: frameFormat_def nth_append if_True)
qed

lemma header_size_take: "SHORT_MESSAGE_HEADER srv \<le> n \<Longrightarrow> header_size srv (take n h) = header_size srv h"
  unfolding header_size_def by (subst frameFormat_take) (auto simp: header_sizes split: if_splits)

lemma payload_size_take: "header_size srv h \<le> n \<Longrightarrow> payload_size (take n h) = payload_size h"
  unfolding payload_size_def
  by (subst frameFormat_take)
     (auto simp: header_size_def header_sizes Let_def drop_take min_def split: if_splits)

lemma incomplete_Nil [simp]: "incomplete srv []"
  by (simp add: incomplete_def header_sizes)

lemma incomplete_snoc: "incomplete srv (h @ [b]) \<Longrightarrow> incomplete srv h"
proof (cases "length h < SHORT_MESSAGE_HEADER srv")
  case False
  then have "2 \<le> length h" by (simp add: header_sizes split: if_splits)
  then have "frameFormat (h @ [b]) = frameFormat h" by (rule frameFormat_append)
  moreover assume "incomplete srv (h @ [b])"
  ultimately show ?thesis using False by (simp add: incomplete_def header_size_def)
qed (simp add: incomplete_def)

lemma incomplete_take: "incomplete srv h \<Longrightarrow> incomplete srv (take n h)"
proof (induction h arbitrary: n rule: rev_induct)
  case (snoc b h)
  then show ?case by (cases "n \<le> length h") (auto dest: incomplete_snoc)
qed simp

lemma incomplete_butlast:
  assumes "SHORT_MESSAGE_HEADER srv \<le> length src" "m = SHORT_MESSAGE_HEADER srv \<or> \<not> bad_frame (frameFormat src) \<and> m = header_size srv src"
    and "m \<le> length src"
  shows "\<exists>h b. take m src = h @ [b] \<and> incomplete srv h"
proof -
  have m: "0 < m" using assms(2) header_size_range(1) [of srv src] by (auto simp: header_sizes split: if_splits)
  then have t: "take m src = take (m - 1) src @ [src ! (m - 1)]"
    using assms(3) take_Suc_conv_app_nth [of "m - 1" src] by simp
  have "incomplete srv (take (m - 1) src)"
  proof (cases "m - 1 < SHORT_MESSAGE_HEADER srv")
    case False
    then have "frameFormat (take (m - 1) src) = frameFormat src" "header_size srv (take (m - 1) src) = header_size srv src"
      by (auto intro!: frameFormat_take header_size_take simp: header_sizes split: if_splits)
    with False assms m show ?thesis by (auto simp: incomplete_def)
  qed (simp add: incomplete_def min_less_iff_disj)
  with t show ?thesis by blast
qed

lemma feed_head:
  assumes "p_state p = READ_HEAD" "p_spill p = []" "incomplete srv h"
  shows "foldo (feed hf srv) h (p, u) = Ok (p\<lparr>p_spill := h\<rparr>, u)"
  using assms(3)
proof (induction h rule: rev_induct)
  case Nil
  then show ?case using assms(2) by simp
next
  case (snoc b h)
  then show ?case using assms(1) incomplete_snoc [OF snoc.prems] by (simp add: foldo_append feed_def)
qed

lemma begin_frame_spill [simp]: "begin_frame hf srv h (p\<lparr>p_spill := x\<rparr>) u = begin_frame hf srv h p u"
  by (simp add: begin_frame_def push_opCode_def end_frame_def Let_def forceClose_def)

lemma feed_header:
  assumes "p_state p = READ_HEAD" "p_spill p = []" "SHORT_MESSAGE_HEADER srv \<le> length src"
    and "header_size srv src \<le> length src" "\<not> bad_frame (frameFormat src)"
  shows "foldo (feed hf srv) (take (header_size srv src) src) (p, u) = begin_frame hf srv (take (header_size srv src) src) p u"
proof -
  let ?h = "take (header_size srv src) src"
  obtain h b where h: "?h = h @ [b]" "incomplete srv h" using incomplete_butlast [OF assms(3) _ assms(4)] assms(5) by blast
  have "SHORT_MESSAGE_HEADER srv \<le> header_size srv src" by (rule header_size_range)
  then have "frameFormat ?h = frameFormat src" "header_size srv ?h = header_size srv src"
    by (auto intro!: frameFormat_take header_size_take simp: header_sizes split: if_splits)
  then have "\<not> incomplete srv ?h" "\<not> bad_frame (frameFormat ?h)"
    using assms(4,5) header_size_range(1) [of srv src] by (simp_all add: incomplete_def)
  then show ?thesis unfolding h(1) foldo_append feed_head [OF assms(1,2) h(2)] using assms(1) by (simp add: feed_def)
qed

lemma feed_bad:
  assumes "p_state p = READ_HEAD" "p_spill p = []" "SHORT_MESSAGE_HEADER srv \<le> length src" "bad_frame (frameFormat src)"
  shows "foldo (feed hf srv) src (p, u) = forceClose"
proof -
  let ?h = "take (SHORT_MESSAGE_HEADER srv) src"
  obtain h b where h: "?h = h @ [b]" "incomplete srv h" using incomplete_butlast [OF assms(3) _ assms(3)] by blast
  have "frameFormat ?h = frameFormat src" by (rule frameFormat_take) (simp add: header_sizes)
  then have "\<not> incomplete srv ?h" "bad_frame (frameFormat ?h)" using assms(3,4) by (simp_all add: incomplete_def)
  then have "foldo (feed hf srv) ?h (p, u) = forceClose"
    unfolding h(1) foldo_append feed_head [OF assms(1,2) h(2)] using assms(1) by (simp add: feed_def forceClose_def)
  then show ?thesis
    using foldo_append [of "feed hf srv" ?h "drop (SHORT_MESSAGE_HEADER srv) src" "(p, u)"] by (simp add: forceClose_def)
qed

subsection \<open>The parser refines the specification\<close>

lemma as_int_less: "n < 2 ^ 31 \<Longrightarrow> as_int n = int n"
  by (simp add: as_int_def signed_of_nat signed_take_bit_int_eq_self)

lemma norm_head: "p_state p = READ_HEAD \<Longrightarrow> norm srv p = p\<lparr>p_remainingBytes := 0, p_mask := []\<rparr>"
  by (simp add: norm_def)

lemma push_opCode_cases:
  "push_opCode frame p = forceClose \<and> push_opCode frame (p\<lparr>p_remainingBytes := r, p_mask := m\<rparr>) = forceClose
   \<or> (\<exists>p0. push_opCode frame p = Ok p0 \<and> push_opCode frame (p\<lparr>p_remainingBytes := r, p_mask := m\<rparr>) = Ok (p0\<lparr>p_remainingBytes := r, p_mask := m\<rparr>)
        \<and> p_state p0 = p_state p)"
  by (simp add: push_opCode_def)

lemma end_frame_norm:
  "p_state p = READ_HEAD \<Longrightarrow> end_frame (p\<lparr>p_remainingBytes := 0, p_mask := []\<rparr>)
    = norm srv ((if p_lastFin p then p\<lparr>p_opStack := p_opStack p - 1\<rparr> else p)\<lparr>p_spill := []\<rparr>)"
  by (cases p) (simp add: end_frame_def norm_def)

lemma parseNext_unfold:
  "parseNext hf srv src p u =
     (if length src < SHORT_MESSAGE_HEADER srv then Ok (store_spill src p, u)
      else if bad_frame (frameFormat src) then forceClose
      else if length src < header_size srv src then Ok (store_spill src p, u)
      else case consumeMessage hf srv (header_size srv src) (payload_size src) src (frameFormat src) p u of
        Inl e \<Rightarrow> Throw e
      | Inr (stop, src1, p1, u1) \<Rightarrow> if stop then Ok (p1, u1) else parseNext hf srv src1 p1 u1)"
  by (subst parseNext.simps) (simp add: header_size_def payload_size_def Let_def)

lemma proto_ok_norm: "proto_ok srv (norm srv p) = proto_ok srv p"
  by (simp add: proto_ok_def norm_def)

lemma push_opCode_ok:
  assumes "push_opCode frame p = Ok p0" "-1 \<le> p_opStack p" "p_opStack p \<le> 1" "length (p_opCode p) = 2"
  shows "0 \<le> p_opStack p0 \<and> p_opStack p0 \<le> 1 \<and> length (p_opCode p0) = 2 \<and> p_spill p0 = p_spill p"
  using assms by (auto simp: push_opCode_def forceClose_def split: if_splits)

lemma begin_frame_ok:
  assumes "proto_ok srv p" "header_size srv h \<le> length h" "begin_frame hf srv h p u = Ok (p', u')"
  shows "proto_ok srv p'"
proof -
  have "srv \<Longrightarrow> 4 \<le> header_size srv h" using header_size_range(1) [of srv h] by (simp add: header_sizes)
  then show ?thesis using assms
    by (auto simp: begin_frame_def obind_eq_Ok proto_ok_def end_frame_def forceClose_def Let_def split: if_splits dest!: push_opCode_ok)
qed

lemma feed_ok: "proto_ok srv p \<Longrightarrow> feed hf srv b (p, u) = Ok (p', u') \<Longrightarrow> proto_ok srv p'"
proof (cases "p_state p = READ_HEAD \<and> \<not> incomplete srv (p_spill p @ [b])")
  case True
  assume ok: "proto_ok srv p" and f: "feed hf srv b (p, u) = Ok (p', u')"
  let ?h = "p_spill p @ [b]"
  from True f have "\<not> bad_frame (frameFormat ?h)" "begin_frame hf srv ?h p u = Ok (p', u')"
    by (auto simp: feed_def forceClose_def Let_def split: if_splits)
  with True begin_frame_ok [OF ok, of ?h hf u] show ?thesis by (simp add: incomplete_def)
qed (auto simp: feed_def proto_ok_def end_frame_def Let_def split: if_splits)

lemma foldo_feed_ok: "proto_ok srv p \<Longrightarrow> foldo (feed hf srv) bs (p, u) = Ok (p', u') \<Longrightarrow> proto_ok srv p'"
proof (induction bs arbitrary: p u)
  case (Cons b bs)
  then obtain p1 u1 where f: "feed hf srv b (p, u) = Ok (p1, u1)" "foldo (feed hf srv) bs (p1, u1) = Ok (p', u')"
    by (auto simp: obind_eq_Ok)
  show ?case by (rule Cons.IH [OF feed_ok [OF Cons.prems(1) f(1)] f(2)])
qed simp

lemma spill_bound: "proto_ok srv p \<Longrightarrow> length (p_spill p) < LONG_MESSAGE_HEADER srv"
  using header_size_range(2) [of srv "p_spill p"]
  by (auto simp: proto_ok_def incomplete_def header_sizes split: if_splits)

text \<open>
  What the parser asks of its client: it never wants to stop, and being given a frame's data in two parts is the same as being
  given it at once.
\<close>

locale fragment_sink =
  fixes hf :: "'u fragment_handler"
  assumes goes_on: "fst (hf xs r opc fin u) = False"
    and merge: "0 < r + length ys \<Longrightarrow>
      snd (hf ys r opc fin (snd (hf xs (r + length ys) opc fin u))) = snd (hf (xs @ ys) r opc fin u)"
begin

lemma merge_Nil: "0 < r + length ys \<Longrightarrow> snd (hf ys r opc fin (snd (hf [] (r + length ys) opc fin u))) = snd (hf ys r opc fin u)"
  using merge [of r ys opc fin "[]" u] by simp

lemma feed_payload:
  assumes "p_state p = READ_MESSAGE" "ys \<noteq> []" "length ys \<le> p_remainingBytes p" "srv \<longrightarrow> length (p_mask p) = 4"
  shows "foldo (feed hf srv) ys (p, u) =
    (let r = p_remainingBytes p - length ys;
         u1 = snd (hf (if srv then xor_mask (p_mask p) ys else ys) r (cur_opCode p) (p_lastFin p) u)
     in Ok (if r = 0 then end_frame p else p\<lparr>p_remainingBytes := r, p_mask := rotate (length ys) (p_mask p)\<rparr>, u1))"
  using assms
proof (induction ys arbitrary: p u)
  case (Cons y ys)
  let ?x = "if srv then y XOR p_mask p ! 0 else y"
  let ?p = "p\<lparr>p_remainingBytes := p_remainingBytes p - 1, p_mask := rotate1 (p_mask p)\<rparr>"
  let ?u = "snd (hf [?x] (p_remainingBytes p - 1) (cur_opCode p) (p_lastFin p) u)"
  have x: "(if srv then xor_mask (p_mask p) (y # ys) else y # ys) = ?x # (if srv then xor_mask (rotate1 (p_mask p)) ys else ys)"
    using Cons.prems(4) by (simp add: xor_mask_Cons)
  show ?case
  proof (cases "ys = []")
    case True
    with Cons.prems(1,3) x show ?thesis by (auto simp: feed_def Let_def)
  next
    case False
    let ?r = "p_remainingBytes p - length (y # ys)"
    let ?ys = "if srv then xor_mask (rotate1 (p_mask p)) ys else ys"
    have len: "length ?ys = length ys" "0 < length ys" "length ys < p_remainingBytes p" using False Cons.prems(3) by simp_all
    from len(2,3) have "\<not> p_remainingBytes p \<le> Suc 0" by linarith
    then have step: "feed hf srv y (p, u) = Ok (?p, ?u)" using Cons.prems(1) by (simp add: feed_def Let_def)
    have r: "p_remainingBytes p - 1 = ?r + length ?ys" "0 < ?r + length ?ys"
      unfolding len(1) list.size(4) using len(2,3) by linarith+
    have m: "snd (hf ?ys ?r (cur_opCode p) (p_lastFin p) ?u) = snd (hf (?x # ?ys) ?r (cur_opCode p) (p_lastFin p) u)"
      unfolding r(1) using merge [OF r(2), of "cur_opCode p" "p_lastFin p" "[?x]" u] by simp
    have e: "end_frame ?p = end_frame p" by (simp add: end_frame_def)
    have f: "p_state ?p = READ_MESSAGE" "length ys \<le> p_remainingBytes ?p" "srv \<longrightarrow> length (p_mask ?p) = 4"
      "cur_opCode ?p = cur_opCode p" "p_lastFin ?p = p_lastFin p" "p_remainingBytes ?p - length ys = ?r" "p_mask ?p = rotate1 (p_mask p)"
      using Cons.prems(1,4) len(2,3) by simp_all
    have u: "?p\<lparr>p_remainingBytes := ?r, p_mask := rotate (length ys) (p_mask ?p)\<rparr>
      = p\<lparr>p_remainingBytes := ?r, p_mask := rotate (length (y # ys)) (p_mask p)\<rparr>"
      by (simp add: rotate1_rotate_swap)
    have "foldo (feed hf srv) ys (?p, ?u) =
      Ok (if ?r = 0 then end_frame p else p\<lparr>p_remainingBytes := ?r, p_mask := rotate (length (y # ys)) (p_mask p)\<rparr>,
          snd (hf (?x # ?ys) ?r (cur_opCode p) (p_lastFin p) u))"
      unfolding Cons.IH [OF f(1) False f(2,3)] Let_def f(4-7) m e u [unfolded f(7)] ..
    then show ?thesis unfolding x Let_def foldo.simps step obind_Ok .
  qed
qed simp

lemma feed_frame:
  fixes srv :: bool and src :: bytes
  defines "h \<equiv> take (header_size srv src) src" and "n \<equiv> payload_size src"
  defines "m \<equiv> take 4 (drop (header_size srv src - 4) src)"
  assumes p: "p_state p = READ_HEAD" "p_spill p = []"
    and src: "SHORT_MESSAGE_HEADER srv \<le> length src" "header_size srv src \<le> length src" "\<not> bad_frame (frameFormat src)"
    and p0: "push_opCode (frameFormat src) p = Ok p0" and n: "\<not> refusePayloadLength n" "length ys \<le> n"
  shows "let p1 = p0\<lparr>p_lastFin := isFin (frameFormat src)\<rparr>; r = n - length ys in
    foldo (feed hf srv) (h @ ys) (p, u) =
      Ok (if r = 0 then end_frame p1
          else p1\<lparr>p_state := READ_MESSAGE, p_spill := [], p_remainingBytes := r, p_mask := if srv then rotate (length ys) m else []\<rparr>,
          snd (hf (if srv then xor_mask m ys else ys) r (cur_opCode p1) (p_lastFin p1) u))"
proof -
  let ?p1 = "p0\<lparr>p_lastFin := isFin (frameFormat src)\<rparr>"
  let ?q = "?p1\<lparr>p_state := READ_MESSAGE, p_spill := [], p_remainingBytes := n, p_mask := if srv then m else []\<rparr>"
  let ?u = "snd (hf [] n (cur_opCode ?p1) (p_lastFin ?p1) u)"
  have hdr: "SHORT_MESSAGE_HEADER srv \<le> header_size srv src" by (rule header_size_range)
  then have h: "frameFormat h = frameFormat src" "header_size srv h = header_size srv src" "payload_size h = n"
    unfolding h_def n_def by (auto intro!: frameFormat_take header_size_take payload_size_take simp: header_sizes split: if_splits)
  have m4: "srv \<Longrightarrow> length m = 4" using hdr src(2) by (simp add: m_def header_sizes)
  have m: "srv \<Longrightarrow> take 4 (drop (header_size srv src - 4) h) = m"
    using hdr src(2) unfolding h_def m_def by (simp add: header_sizes drop_take min_def)
  have bf: "begin_frame hf srv h p u = Ok (if n = 0 then end_frame ?p1 else ?q, ?u)"
    using p0 n(1) m h by (cases srv) (simp_all add: begin_frame_def Let_def)
  have "foldo (feed hf srv) (h @ ys) (p, u) = foldo (feed hf srv) ys (if n = 0 then end_frame ?p1 else ?q, ?u)"
    unfolding foldo_append using feed_header [OF p src, of hf u] bf by (simp add: h_def)
  also have "\<dots> = Ok (if n - length ys = 0 then end_frame ?p1
        else ?q\<lparr>p_remainingBytes := n - length ys, p_mask := if srv then rotate (length ys) m else []\<rparr>,
      snd (hf (if srv then xor_mask m ys else ys) (n - length ys) (cur_opCode ?p1) (p_lastFin ?p1) u))"
  proof (cases "ys = []")
    case True
    then show ?thesis by simp
  next
    case False
    with n(2) have "0 < n" by (cases ys) simp_all
    have e: "end_frame ?q = end_frame ?p1" by (simp add: end_frame_def)
    have q: "p_state ?q = READ_MESSAGE" "length ys \<le> p_remainingBytes ?q" "srv \<longrightarrow> length (p_mask ?q) = 4"
      using n(2) m4 by simp_all
    have "snd (hf zs (n - length ys) opc fin (snd (hf [] n opc fin u))) = snd (hf zs (n - length ys) opc fin u)"
      if "length zs = length ys" for zs opc fin
      using merge_Nil [of "n - length ys" zs opc fin u] that False n(2) \<open>0 < n\<close> by simp
    then show ?thesis
      using feed_payload [OF q(1) False q(2,3), of ?u] \<open>0 < n\<close> e by (simp add: Let_def)
  qed
  finally show ?thesis by (simp add: Let_def)
qed

lemma message_sim:
  fixes srv :: bool and src :: bytes
  defines "hdr \<equiv> header_size srv src" and "n \<equiv> payload_size src"
  assumes p: "p_state p = READ_HEAD" "p_spill p = []"
    and src: "SHORT_MESSAGE_HEADER srv \<le> length src" "hdr \<le> length src" "\<not> bad_frame (frameFormat src)" "length src < 2 ^ 31"
  shows "case consumeMessage hf srv hdr n src (frameFormat src) p u of
      Inl e \<Rightarrow> foldo (feed hf srv) src (norm srv p, u) = Throw e
    | Inr (stop, src', p', u') \<Rightarrow>
        if stop then foldo (feed hf srv) src (norm srv p, u) = Ok (norm srv p', u')
        else p_state p' = READ_HEAD \<and> p_spill p' = [] \<and> src' = drop (n + hdr) src \<and> n + hdr \<le> length src
           \<and> foldo (feed hf srv) (take (n + hdr) src) (norm srv p, u) = Ok (norm srv p', u')"
proof -
  let ?h = "take hdr src" and ?np = "p\<lparr>p_remainingBytes := 0, p_mask := []\<rparr>" and ?m = "take 4 (drop (hdr - 4) src)"
  have np: "norm srv p = ?np" using p(1) by (rule norm_head)
  have hdr4: "SHORT_MESSAGE_HEADER srv \<le> hdr" unfolding hdr_def by (rule header_size_range)
  have hd: "foldo (feed hf srv) ?h (?np, u) = begin_frame hf srv ?h ?np u"
    unfolding hdr_def by (rule feed_header) (use p src in \<open>simp_all add: hdr_def\<close>)
  have frame: "frameFormat ?h = frameFormat src" "payload_size ?h = n"
    using hdr4 unfolding hdr_def n_def by (auto intro!: frameFormat_take payload_size_take simp: header_sizes split: if_splits)
  have bad: "foldo (feed hf srv) src (?np, u) = Throw e" if "begin_frame hf srv ?h ?np u = Throw e" for e
    using foldo_append [of "feed hf srv" ?h "drop hdr src" "(?np, u)"] hd that by simp
  from push_opCode_cases [where frame = "frameFormat src" and p = p and r = 0 and m = "[]"] show ?thesis
  proof (elim disjE conjE exE)
    assume "push_opCode (frameFormat src) p = forceClose" "push_opCode (frameFormat src) ?np = forceClose"
    then show ?thesis using bad frame by (simp add: consumeMessage_def np begin_frame_def forceClose_def)
  next
    fix p0
    assume p0: "push_opCode (frameFormat src) p = Ok p0" "push_opCode (frameFormat src) ?np = Ok (p0\<lparr>p_remainingBytes := 0, p_mask := []\<rparr>)"
      "p_state p0 = p_state p"
    let ?p1 = "p0\<lparr>p_lastFin := isFin (frameFormat src)\<rparr>"
    show ?thesis
    proof (cases "refusePayloadLength n")
      case True
      then show ?thesis using bad frame p0 by (simp add: consumeMessage_def np begin_frame_def forceClose_def Let_def)
    next
      case n: False
      then have "n < 2 ^ 31" by (simp add: refusePayloadLength_def kMaxMessageLength_def)
      then have le: "as_int n \<le> as_int (length src - hdr) \<longleftrightarrow> n \<le> length src - hdr"
        using src(4) by (simp add: as_int_less)
      note ff = feed_frame [OF _ _ src(1) src(2) [unfolded hdr_def] src(3) p0(2) n [unfolded n_def], folded hdr_def n_def, unfolded Let_def]
      have m4: "srv \<Longrightarrow> length ?m = 4" using hdr4 src(2) by (simp add: header_sizes)
      have comm: "p0\<lparr>p_remainingBytes := 0, p_mask := [], p_lastFin := isFin (frameFormat src)\<rparr> = ?p1\<lparr>p_remainingBytes := 0, p_mask := []\<rparr>"
        by simp
      show ?thesis
      proof (cases "n \<le> length src - hdr")
        case True
        let ?ys = "take n (drop hdr src)"
        have ys: "length ?ys = n" "take (n + hdr) src = ?h @ ?ys" using True src(2) by (simp_all add: take_add add.commute)
        have un: "srv \<Longrightarrow> unmaskPreciseCopyMask src 0 hdr (hdr - 4) n = xor_mask ?m ?ys @ drop n src"
          using hdr4 src(2) True by (subst unmaskPreciseCopyMask_eq) (simp_all add: header_sizes)
        have "foldo (feed hf srv) (?h @ ?ys) (?np, u) = Ok (end_frame (?p1\<lparr>p_remainingBytes := 0, p_mask := []\<rparr>),
            snd (hf (if srv then xor_mask ?m ?ys else ?ys) 0 (cur_opCode ?p1) (p_lastFin ?p1) u))"
          using ff [of ?ys u] p ys(1) True comm by simp
        then show ?thesis
          using True le n p0(1,3) p(1) un ys src(2) end_frame_norm [of ?p1 srv]
          by (simp add: consumeMessage_def np Let_def case_prod_unfold goes_on add.commute)
      next
        case False
        let ?ys = "drop hdr src"
        have ys: "length ?ys < n" "src = ?h @ ?ys" "n - length ?ys = n + hdr - length src" using False src(2) by simp_all
        have un: "srv \<Longrightarrow> unmaskPrecise src 0 hdr ?m (length src - hdr) = xor_mask ?m ?ys @ drop (length src - hdr) src"
          using m4 src(2) by (subst unmaskPrecise_eq) simp_all
        have "foldo (feed hf srv) (?h @ ?ys) (?np, u) = Ok (?p1\<lparr>p_state := READ_MESSAGE, p_spill := [],
              p_remainingBytes := n + hdr - length src, p_mask := if srv then rotate (length src - hdr) ?m else []\<rparr>,
            snd (hf (if srv then xor_mask ?m ?ys else ?ys) (n + hdr - length src) (cur_opCode ?p1) (p_lastFin ?p1) u))"
          using ff [of ?ys u] p ys(1,3) by simp
        then have "foldo (feed hf srv) src (?np, u) = Ok (?p1\<lparr>p_state := READ_MESSAGE, p_spill := [],
              p_remainingBytes := n + hdr - length src, p_mask := if srv then rotate (length src - hdr) ?m else []\<rparr>,
            snd (hf (if srv then xor_mask ?m ?ys else ?ys) (n + hdr - length src) (cur_opCode ?p1) (p_lastFin ?p1) u))"
          by simp
        then show ?thesis
          unfolding np using False le n p0(1) un m4
          by (cases srv) (simp_all add: consumeMessage_def Let_def case_prod_unfold rotateMask_eq norm_def)
      qed
    qed
  qed
qed

lemma store_spill_sim:
  assumes "p_state p = READ_HEAD" "p_spill p = []" "incomplete srv src"
  shows "nrm srv (Ok (store_spill src p, u)) = foldo (feed hf srv) src (norm srv p, u)"
  using assms feed_head [of "norm srv p" srv src hf u] by (cases p) (simp add: store_spill_def norm_def)

lemma parse_sim:
  assumes "p_state p = READ_HEAD" "p_spill p = []" "length src < 2 ^ 31"
  shows "nrm srv (parseNext hf srv src p u) = foldo (feed hf srv) src (norm srv p, u)"
  using assms
proof (induction src arbitrary: p u rule: length_induct)
  case (1 src)
  show ?case
  proof (cases "length src < SHORT_MESSAGE_HEADER srv \<or> bad_frame (frameFormat src) \<or> length src < header_size srv src")
    case True
    with 1 store_spill_sim [of p srv src u] feed_bad [of "norm srv p" srv src hf u] header_size_range(1) [of srv src]
    show ?thesis by (auto simp: parseNext_unfold incomplete_def norm_head forceClose_def)
  next
    case False
    let ?hdr = "header_size srv src" and ?n = "payload_size src"
    from False have f: "SHORT_MESSAGE_HEADER srv \<le> length src" "\<not> bad_frame (frameFormat src)" "?hdr \<le> length src" by simp_all
    note sim = message_sim [OF 1(2,3) f(1,3,2) 1(4), of u]
    have hdr: "0 < ?hdr" using header_size_range(1) [of srv src] by (simp add: header_sizes split: if_splits)
    show ?thesis
    proof (cases "consumeMessage hf srv ?hdr ?n src (frameFormat src) p u")
      case (Inl e)
      with sim f show ?thesis by (simp add: parseNext_unfold)
    next
      case (Inr r)
      obtain stop src' p' u' where r: "r = (stop, src', p', u')" by (cases r)
      show ?thesis
      proof (cases stop)
        case True
        with sim f Inr r show ?thesis by (simp add: parseNext_unfold)
      next
        case False
        with sim Inr r have s: "p_state p' = READ_HEAD" "p_spill p' = []" "src' = drop (?n + ?hdr) src" "?n + ?hdr \<le> length src"
          "foldo (feed hf srv) (take (?n + ?hdr) src) (norm srv p, u) = Ok (norm srv p', u')" by simp_all
        have "length src' < length src" "length src' < 2 ^ 31" using s(3,4) hdr f(3) 1(4) by simp_all
        then have "nrm srv (parseNext hf srv src' p' u') = foldo (feed hf srv) src' (norm srv p', u')" using 1(1) s(1,2) by blast
        moreover have "foldo (feed hf srv) src (norm srv p, u) = foldo (feed hf srv) src' (norm srv p', u')"
          using foldo_append [of "feed hf srv" "take (?n + ?hdr) src" src' "(norm srv p, u)"] s(3,5) by simp
        ultimately show ?thesis using False f Inr r by (simp add: parseNext_unfold)
      qed
    qed
  qed
qed

lemma continuation_sim:
  assumes "p_state p = READ_MESSAGE" "p_spill p = []" "0 < p_remainingBytes p" "srv \<longrightarrow> length (p_mask p) = 4" "src \<noteq> []"
  shows "case consumeContinuation hf srv src p u of (again, src', p', u') \<Rightarrow>
    if again then p_state p' = READ_HEAD \<and> p_spill p' = [] \<and> src' = drop (p_remainingBytes p) src
        \<and> foldo (feed hf srv) (take (p_remainingBytes p) src) (norm srv p, u) = Ok (norm srv p', u')
    else foldo (feed hf srv) src (norm srv p, u) = Ok (norm srv p', u')"
proof -
  let ?r = "p_remainingBytes p" and ?q = "norm srv p"
  have q: "p_state ?q = READ_MESSAGE" "p_remainingBytes ?q = ?r" "srv \<longrightarrow> length (p_mask ?q) = 4" "srv \<longrightarrow> p_mask ?q = p_mask p"
    "cur_opCode ?q = cur_opCode p" "p_lastFin ?q = p_lastFin p"
    using assms by (simp_all add: norm_def)
  show ?thesis
  proof (cases "?r \<le> length src")
    case True
    let ?ys = "take ?r src"
    have ys: "?ys \<noteq> []" "length ?ys = ?r" using True assms(3,5) by simp_all
    have "foldo (feed hf srv) ?ys (?q, u) = Ok (end_frame ?q, snd (hf (if srv then xor_mask (p_mask p) ?ys else ?ys) 0 (cur_opCode p) (p_lastFin p) u))"
      using feed_payload [OF q(1) ys(1) _ q(3), of u] q ys(2) by (cases srv) (simp_all add: Let_def)
    moreover have "end_frame ?q = norm srv ((if p_lastFin p then p\<lparr>p_opStack := p_opStack p - 1\<rparr> else p)\<lparr>p_state := READ_HEAD\<rparr>)"
      using assms(2) by (cases p) (simp add: end_frame_def norm_def)
    ultimately show ?thesis
      using True assms(1,2,4) by (cases srv) (simp_all add: consumeContinuation_def unmask_final_eq Let_def case_prod_unfold goes_on)
  next
    case False
    have "foldo (feed hf srv) src (?q, u) = Ok (?q\<lparr>p_remainingBytes := ?r - length src, p_mask := rotate (length src) (p_mask ?q)\<rparr>,
        snd (hf (if srv then xor_mask (p_mask p) src else src) (?r - length src) (cur_opCode p) (p_lastFin p) u))"
      using feed_payload [OF q(1) assms(5) _ q(3), of u] q False by (cases srv) (simp_all add: Let_def)
    moreover have "length src mod 4 = 0 \<Longrightarrow> srv \<Longrightarrow> rotate (length src) (p_mask p) = p_mask p"
      using assms(4) rotate_conv_mod [of "length src" "p_mask p"] by simp
    ultimately show ?thesis
      using False assms(1,4)
      by (cases srv) (auto simp: consumeContinuation_def unmaskInplace_eq Let_def case_prod_unfold goes_on rotateMask_eq norm_def)
  qed
qed

lemma consume_raw_sim:
  assumes "proto_ok srv p" "p_spill p = []" "src \<noteq> []" "length src < 2 ^ 31"
  shows "nrm srv (consume_raw hf srv src p u) = foldo (feed hf srv) src (norm srv p, u)"
proof (cases "p_state p = READ_HEAD")
  case True
  then show ?thesis using parse_sim [OF True assms(2,4)] assms(2) by (simp add: consume_raw_def)
next
  case False
  then have p: "p_state p = READ_MESSAGE" "0 < p_remainingBytes p" "srv \<longrightarrow> length (p_mask p) = 4"
    using assms(1) by (cases "p_state p"; simp add: proto_ok_def)+
  obtain again src' p' u' where c: "consumeContinuation hf srv src p u = (again, src', p', u')" by (metis prod.exhaust)
  note sim = continuation_sim [OF p(1) assms(2) p(2,3) assms(3), of u, unfolded c prod.case]
  show ?thesis
  proof (cases again)
    case True
    with sim have s: "p_state p' = READ_HEAD" "p_spill p' = []" "src' = drop (p_remainingBytes p) src"
      "foldo (feed hf srv) (take (p_remainingBytes p) src) (norm srv p, u) = Ok (norm srv p', u')" by simp_all
    have "length src' < 2 ^ 31" using s(3) assms(4) by simp
    moreover have "foldo (feed hf srv) src (norm srv p, u) = foldo (feed hf srv) src' (norm srv p', u')"
      using foldo_append [of "feed hf srv" "take (p_remainingBytes p) src" src' "(norm srv p, u)"] s(3,4) by simp
    ultimately show ?thesis using parse_sim [OF s(1,2)] True c p(1) assms(2) by (simp add: consume_raw_def)
  qed (use sim c p(1) assms(2) in \<open>simp add: consume_raw_def\<close>)
qed

lemma consume_sim:
  assumes "proto_ok srv p" "src \<noteq> []" "length src < 2 ^ 30"
  shows "nrm srv (consume hf srv src p u) = foldo (feed hf srv) src (norm srv p, u)"
  using assms
proof (induction src arbitrary: p u rule: length_induct)
  case (1 src)
  show ?case
  proof (cases "p_spill p = []")
    case True
    with 1 show ?thesis by (subst consume.simps) (simp add: consume_raw_sim)
  next
    case False
    let ?sp = "p_spill p" and ?p = "p\<lparr>p_spill := []\<rparr>"
    let ?k = "min (length ?sp + length src) (LONG_MESSAGE_HEADER srv) - length ?sp"
    have sp: "length ?sp < LONG_MESSAGE_HEADER srv" using 1(2) by (rule spill_bound)
    then have k: "0 < ?k" "length (?sp @ take ?k src) < 2 ^ 31"
      using 1(3,4) by (simp_all add: header_sizes split: if_splits)
    have hd: "p_state p = READ_HEAD" "incomplete srv ?sp" "proto_ok srv ?p" using 1(2) False by (auto simp: proto_ok_def split: if_splits)
    have "foldo (feed hf srv) ?sp (norm srv ?p, u) = Ok (norm srv p, u)"
      using hd feed_head [of "norm srv ?p" srv ?sp hf u] by (simp add: norm_def)
    then have raw: "nrm srv (consume_raw hf srv (?sp @ take ?k src) ?p u) = foldo (feed hf srv) (take ?k src) (norm srv p, u)"
      using consume_raw_sim [OF hd(3) _ _ k(2), of u] False by (simp add: foldo_append)
    have app: "foldo (feed hf srv) src (norm srv p, u) =
        obind (foldo (feed hf srv) (take ?k src) (norm srv p, u)) (foldo (feed hf srv) (drop ?k src))"
      using foldo_append [of "feed hf srv" "take ?k src" "drop ?k src"] by simp
    show ?thesis
    proof (cases "consume_raw hf srv (?sp @ take ?k src) ?p u")
      case (Inl e)
      have f: "foldo (feed hf srv) (take ?k src) (norm srv p, u) = Throw e" using raw unfolding Inl nrm_simps by (rule sym)
      show ?thesis unfolding app f using Inl False sp by (subst consume.simps) (simp add: Let_def)
    next
      case (Inr r)
      obtain p1 u1 where r: "r = (p1, u1)" by fastforce
      have f: "foldo (feed hf srv) (take ?k src) (norm srv p, u) = Ok (norm srv p1, u1)"
        using raw unfolding Inr r nrm_simps by (rule sym)
      have ok: "proto_ok srv p1" using foldo_feed_ok [OF _ f] 1(2) by (simp add: proto_ok_norm)
      have lt: "length (drop ?k src) < length src" unfolding length_drop using k(1) 1(3) by (simp only: diff_less length_greater_0_conv)
      then have "length (drop ?k src) < 2 ^ 30" using 1(4) by linarith
      with lt have "drop ?k src \<noteq> [] \<longrightarrow> nrm srv (consume hf srv (drop ?k src) p1 u1) = foldo (feed hf srv) (drop ?k src) (norm srv p1, u1)"
        using 1(1) ok by blast
      then show ?thesis unfolding app f using Inr r False sp by (subst consume.simps) (simp add: Let_def)
    qed
  qed
qed

text \<open>Any sequence of chunks.\<close>

lemma consume_chunks_sim:
  assumes "proto_ok srv p" "list_all (\<lambda>c. c \<noteq> [] \<and> length c < 2 ^ 30) cs"
  shows "nrm srv (foldo (\<lambda>c (p, u). consume hf srv c p u) cs (p, u)) = foldo (feed hf srv) (concat cs) (norm srv p, u)"
  using assms
proof (induction cs arbitrary: p u)
  case (Cons c cs)
  have "c \<noteq> []" "length c < 2 ^ 30" using Cons.prems(2) by simp_all
  note sim = consume_sim [OF Cons.prems(1) this, of u]
  show ?case
  proof (cases "consume hf srv c p u")
    case (Inl e)
    have f: "foldo (feed hf srv) c (norm srv p, u) = Throw e" using sim unfolding Inl nrm_simps by (rule sym)
    then show ?thesis using Inl by (simp add: foldo_append)
  next
    case (Inr r)
    obtain p1 u1 where r: "r = (p1, u1)" by fastforce
    have f: "foldo (feed hf srv) c (norm srv p, u) = Ok (norm srv p1, u1)" using sim unfolding Inr r nrm_simps by (rule sym)
    then have "proto_ok srv p1" using foldo_feed_ok [OF _ f] Cons.prems(1) by (simp add: proto_ok_norm)
    then show ?thesis using Cons.IH [of p1 u1] Cons.prems(2) Inr r f by (simp add: foldo_append)
  qed
qed simp

end

subsection \<open>Formatted frames\<close>

lemma be_nat_append: "be_nat (xs @ [b]) = be_nat xs * 256 + unat b"
  by (simp add: be_nat_def)

lemma length_nat_be [simp]: "length (nat_be k n) = k"
  by (induction k arbitrary: n) simp_all

lemma be_nat_nat_be: "n < 256 ^ k \<Longrightarrow> be_nat (nat_be k n) = n"
proof (induction k arbitrary: n)
  case (Suc k)
  then have "n div 256 < 256 ^ k" by (simp add: div_less_iff_less_mult)
  moreover have "unat (word_of_nat n :: byte) = n mod 256" by (simp add: unsigned_of_nat take_bit_eq_mod)
  ultimately show ?case using Suc.IH by (simp add: be_nat_append)
qed (simp add: be_nat_def)

lemma frame_fields:
  "getOpCode (frameFormat (b0 # b1 # t)) = b0 AND 15"
  "payloadLength (frameFormat (b0 # b1 # t)) = b1 AND 127"
  "isFin (frameFormat (b0 # b1 # t)) \<longleftrightarrow> b0 AND 128 \<noteq> 0"
  "rsv23 (frameFormat (b0 # b1 # t)) \<longleftrightarrow> b0 AND 48 \<noteq> 0"
  "rsv1 (frameFormat (b0 # b1 # t)) \<longleftrightarrow> b0 AND 64 \<noteq> 0"
proof -
  have low: "(ucast b0 OR push_bit 8 (ucast b1)) AND ucast c = (ucast (b0 AND c) :: u16)" for c :: byte
    by (rule bit_word_eqI) (auto simp: bit_simps dest: bit_imp_le_length)
  have high: "drop_bit 8 (ucast b0 OR push_bit 8 (ucast b1 :: u16)) = (ucast b1 :: u16)"
    by (rule bit_word_eqI) (auto simp: bit_simps dest: bit_imp_le_length)
  have ucast0: "(ucast x :: u16) = 0 \<longleftrightarrow> x = 0" for x :: byte
  proof
    assume "(ucast x :: u16) = 0"
    then have "\<not> bit (ucast x :: u16) n" for n by simp
    then have "\<not> bit x n" for n using bit_imp_le_length [of x n] by (auto simp: bit_simps)
    then show "x = 0" by (intro bit_word_eqI) simp
  qed simp
  have ucast2: "ucast (ucast x :: u16) = x" for x :: byte
    by (rule bit_word_eqI) (auto simp: bit_simps)
  show "getOpCode (frameFormat (b0 # b1 # t)) = b0 AND 15"
    using low [of 15] ucast2 by (simp add: getOpCode_def frameFormat_def)
  have f: "frameFormat (b0 # b1 # t) = ucast b0 OR push_bit 8 (ucast b1)" by (simp add: frameFormat_def)
  show "payloadLength (frameFormat (b0 # b1 # t)) = b1 AND 127"
    unfolding payloadLength_def f high
    by (rule bit_word_eqI, unfold bit_ucast_iff and_mask7_bit) (auto simp: bit_simps)
  show "isFin (frameFormat (b0 # b1 # t)) \<longleftrightarrow> b0 AND 128 \<noteq> 0"
    using low [of 128] ucast0 by (simp add: isFin_def frameFormat_def)
  show "rsv23 (frameFormat (b0 # b1 # t)) \<longleftrightarrow> b0 AND 48 \<noteq> 0"
    using low [of 48] ucast0 by (simp add: rsv23_def frameFormat_def)
  show "rsv1 (frameFormat (b0 # b1 # t)) \<longleftrightarrow> b0 AND 64 \<noteq> 0"
    using low [of 64] ucast0 by (simp add: rsv1_def frameFormat_def)
qed

lemma low7:
  assumes "unat (x :: byte) < 128"
  shows "x AND 127 = x" "(x OR 0x80) AND 127 = x"
proof -
  have lt7: "i < 7" if "bit x i" for i
  proof -
    have "i < 8" using bit_imp_le_length [OF that] by simp
    moreover have "\<not> bit x 7" using and_0x80_iff [of x] lead_iffs(1) [of x] assms by simp
    ultimately show ?thesis using that by (cases "i = 7") auto
  qed
  show "x AND 127 = x" by (rule bit_word_eqI, unfold and_mask7_bit) (auto dest: lt7)
  show "(x OR 0x80) AND 127 = x" by (rule bit_word_eqI, unfold and_mask7_bit bit_or_iff bit_0x80) (auto dest: lt7)
qed

lemma header_of_format:
  fixes srv :: bool
  assumes "opc \<in> {1, 2, 8, 9, 10}" "length key = 4" "n < 2 ^ 64" "2 < opc \<longrightarrow> n \<le> 125"
  defines "h \<equiv> format_header (\<not> srv) key opc n False"
  shows "header_size srv (h @ t) = length h \<and> SHORT_MESSAGE_HEADER srv \<le> length h \<and> payload_size (h @ t) = n
    \<and> \<not> bad_frame (frameFormat (h @ t)) \<and> isFin (frameFormat (h @ t)) \<and> getOpCode (frameFormat (h @ t)) = opc
    \<and> (srv \<longrightarrow> take 4 (drop (length h - 4) (h @ t)) = key)"
proof -
  let ?b = "hd (length_bytes n)" and ?e = "tl (length_bytes n)"
  let ?b1 = "if srv then ?b OR 0x80 else ?b"
  have h: "h = (128 OR opc) # ?b1 # ?e @ (if srv then key else [])"
    by (simp add: h_def format_header_def length_bytes_def)
  have opc: "(128 OR opc) AND 15 = opc \<and> (128 OR opc) AND 128 \<noteq> 0 \<and> (128 OR opc) AND 48 = 0 \<and> (128 OR opc) AND 64 = 0
    \<and> (opc \<le> 2 \<or> opc \<ge> 8) \<and> opc \<le> 10"
    using assms(1) by (elim insertE emptyE) simp_all
  have b: "?b = (if n < 126 then word_of_nat n else if n \<le> 65535 then 126 else 127)" by (simp add: length_bytes_def)
  have "unat ?b < 128" unfolding b by (simp add: unsigned_of_nat take_bit_eq_mod)
  then have b1: "?b1 AND 127 = ?b" by (simp add: low7)
  have len: "?b < 126 \<longleftrightarrow> n < 126" "?b = 126 \<longleftrightarrow> 126 \<le> n \<and> n \<le> 65535" "n < 126 \<Longrightarrow> unat ?b = n"
    unfolding b by (auto simp: word_less_nat_alt word_unat_eq_iff unsigned_of_nat take_bit_eq_mod)
  have e: "?e = (if n < 126 then [] else if n \<le> 65535 then nat_be 2 n else nat_be 8 n)" by (simp add: length_bytes_def)
  have f: "getOpCode (frameFormat (h @ t)) = opc" "payloadLength (frameFormat (h @ t)) = ?b" "isFin (frameFormat (h @ t))"
    "\<not> rsv23 (frameFormat (h @ t))" "\<not> rsv1 (frameFormat (h @ t))"
    unfolding h append_Cons frame_fields using opc b1 by simp_all
  have "\<not> bad_frame (frameFormat (h @ t))"
    unfolding bad_frame_def f using f(3-5) opc assms(4) len(1,3) by (auto simp: word_less_nat_alt word_le_nat_alt)
  moreover have "header_size srv (h @ t) = length h" "SHORT_MESSAGE_HEADER srv \<le> length h"
    unfolding header_size_def f Let_def len(1,2) using e assms(2) by (auto simp: h header_sizes)
  moreover have "payload_size (h @ t) = n"
    unfolding payload_size_def f Let_def len(1,2) using len(3) e be_nat_nat_be [of n 2] be_nat_nat_be [of n 8] assms(3) by (auto simp: h)
  moreover have "srv \<longrightarrow> take 4 (drop (length h - 4) (h @ t)) = key" using assms(2) by (simp add: h)
  ultimately show ?thesis using f by blast
qed

definition idle :: "proto \<Rightarrow> bool" where
  "idle p \<longleftrightarrow> p_state p = READ_HEAD \<and> p_spill p = [] \<and> p_opStack p = -1 \<and> p_lastFin p \<and> length (p_opCode p) = 2"

lemma idle_ok: "idle p \<Longrightarrow> proto_ok srv p"
  by (simp add: idle_def proto_ok_def)

context fragment_sink
begin

lemma feed_formatted:
  assumes "idle p" "opc \<in> {1, 2, 8, 9, 10}" "length key = 4" "length msg \<le> kMaxMessageLength" "2 < opc \<longrightarrow> length msg \<le> 125"
  shows "\<exists>p'. foldo (feed hf srv) (formatMessage (\<not> srv) addr key msg opc (length msg) False) (p, u)
      = Ok (p', snd (hf msg 0 opc True u)) \<and> idle p'"
proof -
  let ?n = "length msg" and ?h = "format_header (\<not> srv) key opc (length msg) False"
  let ?ys = "if srv then mask_payload (addr + length ?h) key msg else msg"
  let ?src = "?h @ ?ys"
  let ?p0 = "p\<lparr>p_opStack := 0, p_opCode := (p_opCode p)[0 := opc]\<rparr>"
  let ?p1 = "?p0\<lparr>p_lastFin := True\<rparr>"
  have fmt: "formatMessage (\<not> srv) addr key msg opc (length msg) False = ?src" by (simp add: formatMessage_def Let_def)
  have ys: "length ?ys = ?n" "srv \<Longrightarrow> xor_mask key ?ys = msg"
    using assms(3) by (simp_all add: mask_payload_eq xor_mask_involution)
  have h: "header_size srv ?src = length ?h" "SHORT_MESSAGE_HEADER srv \<le> length ?h" "payload_size ?src = ?n"
      "\<not> bad_frame (frameFormat ?src)" "isFin (frameFormat ?src)" "getOpCode (frameFormat ?src) = opc"
      "srv \<longrightarrow> take 4 (drop (length ?h - 4) ?src) = key"
    using header_of_format [OF assms(2,3) _ assms(5), of srv ?ys] assms(4) by (auto simp: kMaxMessageLength_def)
  have p0: "push_opCode (frameFormat ?src) p = Ok ?p0"
    using assms(1,2) unfolding push_opCode_def h(6) by (auto simp: idle_def)
  have p: "p_state p = READ_HEAD" "p_spill p = []" using assms(1) by (simp_all add: idle_def)
  have len: "SHORT_MESSAGE_HEADER srv \<le> length ?src" "header_size srv ?src \<le> length ?src" using h(1,2) by simp_all
  have "\<not> refusePayloadLength (payload_size ?src)" "length ?ys \<le> payload_size ?src"
    using assms(4) ys(1) h(3) by (simp_all add: refusePayloadLength_def)
  from feed_frame [OF p len h(4) p0 this, of u]
  have "foldo (feed hf srv) ?src (p, u) = Ok (end_frame ?p1, snd (hf (if srv then xor_mask key ?ys else ?ys) 0 (cur_opCode ?p1) True u))"
    using h(1,3,5,7) ys(1) by (cases srv) (simp_all add: Let_def)
  moreover have "cur_opCode ?p1 = opc" using assms(1) by (simp add: idle_def)
  moreover have "idle (end_frame ?p1)" using assms(1) by (simp add: idle_def end_frame_def)
  ultimately show ?thesis unfolding fmt using ys(2) by (cases srv) simp_all
qed

end

subsection \<open>Closing\<close>

text \<open>
  C27. The payload of a Close message: for a code that may be sent and a message in UTF-8, parsing gives back what was
  formatted, and for any other code, or a message that is not UTF-8, parsing gives no code and no message. The codes from
  5000 on are among those that parsing drops, although \<^verbatim>\<open>CloseCode::FirstAvailable = 5000\<close> in \<^verbatim>\<open>WebSocket.hh\<close> offers them
  for free use.
\<close>
theorem close_payload_roundtrip:
  assumes "code \<noteq> 0"
  shows "parseClosePayload (formatClosePayload code msg) =
    (if unat code \<in> {1000..1003} \<union> {1007..1011} \<union> {4000..4999} \<and> isValidUtf8 msg
     then \<lparr>cf_code = unat code, cf_message = msg\<rparr> else \<lparr>cf_code = 0, cf_message = []\<rparr>)"
proof -
  have "unat code < 2 ^ 16" using unsigned_less [of code, where ?'a = nat] by simp
  then have "be_nat (nat_be 2 (unat code)) = unat code" by (intro be_nat_nat_be) simp
  then show ?thesis using assms by (auto simp: formatClosePayload_def parseClosePayload_def Let_def)
qed

theorem close_payload_roundtrip_witness:
  "parseClosePayload (formatClosePayload 1001 [0x62, 0x79, 0x65]) = \<lparr>cf_code = 1001, cf_message = [0x62, 0x79, 0x65]\<rparr>
   \<and> parseClosePayload (formatClosePayload 1005 [0x62, 0x79, 0x65]) = \<lparr>cf_code = 0, cf_message = []\<rparr>
   \<and> parseClosePayload (formatClosePayload 5000 []) = \<lparr>cf_code = 0, cf_message = []\<rparr>"
  using close_payload_roundtrip [of 1001 "[0x62, 0x79, 0x65]"] close_payload_roundtrip [of 1005 "[0x62, 0x79, 0x65]"]
    close_payload_roundtrip [of 5000 "[]"]
  by simp

end
