(* ===== verification/WebSocket.thy ===== *)
theory WebSocket
  imports WebSocketProtocol Errors
begin

text \<open>
  The WebSocket connection of \<^verbatim>\<open>src/io/WebSocket.cc\<close> on top of theory \<open>WebSocketProtocol\<close>: sending, assembling fragments into
  messages, the \<^verbatim>\<open>receive()\<close> generator and close messages. \<open>srv\<close> tells a \<^verbatim>\<open>ServerWebSocket\<close> from a \<^verbatim>\<open>ClientWebSocket\<close>. The stream
  is what was written to it; what is read from it is an argument. The mask of an outgoing frame and the address of its buffer
  are arguments too: nothing may depend on them.
\<close>

subsection \<open>Messages\<close>

text \<open>\<^verbatim>\<open>Message::Type\<close> has the numeric values of the opcodes, and a received message may have any.\<close>

definition Text :: byte where "Text = 1"
definition Binary :: byte where "Binary = 2"
definition Close :: byte where "Close = 8"
definition Ping :: byte where "Ping = 9"
definition Pong :: byte where "Pong = 10"

lemmas msg_types = Text_def Binary_def Close_def Ping_def Pong_def

record Message =
  m_type :: byte
  m_data :: bytes

definition new_close_Message :: "u16 \<Rightarrow> bytes \<Rightarrow> Message outcome" where
  "new_close_Message code message =
     (let payload = formatClosePayload code message
      in assert_that (length payload \<le> length message + 2) (Ok \<lparr>m_type = Close, m_data = payload\<rparr>))"

definition closeCode :: "Message \<Rightarrow> nat outcome" where
  "closeCode m =
     (if m_type m \<noteq> Close then raise_crouton InvalidArgument
      else let payload = parseClosePayload (m_data m) in Ok (if cf_code payload \<noteq> 0 then cf_code payload else 1005))"

definition closeMessage :: "Message \<Rightarrow> bytes outcome" where
  "closeMessage m =
     (if m_type m \<noteq> Close then raise_crouton InvalidArgument else Ok (cf_message (parseClosePayload (m_data m))))"

subsection \<open>The connection\<close>

record WebSocket =
  ws_stream :: bool
  ws_incoming :: "Message list"
  ws_curMessage :: "Message option"
  ws_closeSent :: bool
  ws_closeReceived :: bool
  ws_written :: "bytes list"

definition new_WebSocket :: WebSocket where
  "new_WebSocket = \<lparr>ws_stream = True, ws_incoming = [], ws_curMessage = None, ws_closeSent = False,
     ws_closeReceived = False, ws_written = []\<rparr>"

definition readyToClose :: "WebSocket \<Rightarrow> bool" where
  "readyToClose ws \<longleftrightarrow> ws_closeSent ws \<and> ws_closeReceived ws"

definition WebSocket_disconnect :: "WebSocket \<Rightarrow> WebSocket" where
  "WebSocket_disconnect ws = ws\<lparr>ws_stream := False\<rparr>"

text \<open>
  \<^verbatim>\<open>send\<close> returns a future, whose error is returned here; writing past the end of the \<^verbatim>\<open>size + 10\<close> bytes it allocates is undefined.
\<close>

definition WebSocket_send :: "bool \<Rightarrow> nat \<Rightarrow> bytes \<Rightarrow> Message \<Rightarrow> WebSocket \<Rightarrow> (err \<times> WebSocket) outcome" where
  "WebSocket_send srv addr key msg ws =
     (if ws_closeSent ws \<or> \<not> ws_stream ws then Ok ((DCrouton, crouton_code LogicError), ws)
      else
        let ws1 = (if m_type msg = Close then ws\<lparr>ws_closeSent := True\<rparr> else ws);
            frame = formatMessage srv addr key (m_data msg) (m_type msg) (length (m_data msg)) False
        in if length frame > length (m_data msg) + 10 then Throw UndefinedBehavior
           else Ok (no_err, ws1\<lparr>ws_written := ws_written ws1 @ [frame]\<rparr>))"

text \<open>
  \<^verbatim>\<open>handleFragment\<close>, which always returns true; the protocol's callback negates that. \<^verbatim>\<open>receive()\<close>'s \<^verbatim>\<open>consume\<close> gives the data to the
  parser of \<^verbatim>\<open>ClientWebSocket\<close> or \<^verbatim>\<open>ServerWebSocket\<close>; a connection is that parser and the rest of the object.
\<close>

definition WebSocket_handleFragment :: "bytes \<Rightarrow> nat \<Rightarrow> byte \<Rightarrow> bool \<Rightarrow> WebSocket \<Rightarrow> bool \<times> WebSocket" where
  "WebSocket_handleFragment data remainingBytes opCode fin ws =
     (let cur = (case ws_curMessage ws of None \<Rightarrow> \<lparr>m_type = opCode, m_data = []\<rparr> | Some m \<Rightarrow> m);
          cur1 = cur\<lparr>m_data := m_data cur @ data\<rparr>
      in (True, if fin \<and> remainingBytes = 0 then ws\<lparr>ws_incoming := ws_incoming ws @ [cur1], ws_curMessage := None\<rparr>
                else ws\<lparr>ws_curMessage := Some cur1\<rparr>))"

definition protocol_handleFragment :: "WebSocket fragment_handler" where
  "protocol_handleFragment data remainingByteCount opcode fin ws =
     (let (ok, ws1) = WebSocket_handleFragment data remainingByteCount opcode fin ws in (\<not> ok, ws1))"

definition WebSocket_consume :: "bool \<Rightarrow> bytes \<Rightarrow> proto \<times> WebSocket \<Rightarrow> (proto \<times> WebSocket) outcome" where
  "WebSocket_consume srv data c = consume protocol_handleFragment srv data (fst c) (snd c)"

text \<open>\<^verbatim>\<open>handleCloseMessage\<close>: confirm or echo.\<close>

definition handleCloseMessage :: "bool \<Rightarrow> nat \<Rightarrow> bytes \<Rightarrow> Message \<Rightarrow> WebSocket \<Rightarrow> (err \<times> WebSocket) outcome" where
  "handleCloseMessage srv addr key msg ws =
     (if ws_closeReceived ws then Ok (no_err, ws)
      else
        let ws1 = ws\<lparr>ws_closeReceived := True\<rparr> in
        if ws_closeSent ws1 then Ok (no_err, ws1\<lparr>ws_stream := False\<rparr>)
        else WebSocket_send srv addr key msg ws1)"

subsection \<open>The receive generator\<close>

text \<open>
  It runs until it has to read from the stream, yields a message or ends; \<open>RcvFinal\<close> is a message after which it ends.
  \<open>receive_loop True\<close> is the outer loop and \<open>receive_loop False\<close> the inner one, which is where a read returns to.
\<close>

datatype rcv_event = RcvRead | RcvMessage Message | RcvFinal Message | RcvEnd

definition abnormal_close :: "Message outcome" where
  "abnormal_close = new_close_Message 1006 (map (word_of_nat \<circ> of_char) ''WebSocket closed unexpectedly'')"

lemma WebSocket_send_incoming:
  "WebSocket_send srv addr key msg ws = Ok (e, ws') \<Longrightarrow> ws_incoming ws' = ws_incoming ws"
  by (auto simp: WebSocket_send_def Let_def split: if_splits)

function receive_loop :: "bool \<Rightarrow> bool \<Rightarrow> nat \<Rightarrow> bytes \<Rightarrow> WebSocket \<Rightarrow> (rcv_event \<times> WebSocket) outcome" where
  "receive_loop outer srv addr key ws =
     (if outer \<and> \<not> (ws_stream ws \<and> \<not> ws_closeReceived ws) then Ok (RcvEnd, ws)
      else
        case ws_incoming ws of
          [] \<Rightarrow> if ws_stream ws then Ok (RcvRead, ws) else Throw UndefinedBehavior
        | msg # rest \<Rightarrow>
            let ws1 = ws\<lparr>ws_incoming := rest\<rparr> in
            if m_type msg = Close then Ok (RcvMessage msg, ws1\<lparr>ws_closeReceived := True\<rparr>)
            else if m_type msg = Text \<or> m_type msg = Binary then Ok (RcvMessage msg, ws1)
            else if m_type msg = Ping then
              (case WebSocket_send srv addr key \<lparr>m_type = Pong, m_data = []\<rparr> ws1 of
                 Inl e \<Rightarrow> Throw e
               | Inr (_, ws2) \<Rightarrow> receive_loop True srv addr key ws2)
            else receive_loop True srv addr key ws1)"
  by pat_completeness auto

termination
  by (relation "measure (\<lambda>(_, _, _, _, ws). length (ws_incoming ws))") (auto dest!: WebSocket_send_incoming)

declare receive_loop.simps [simp del]

definition receive_data :: "bool \<Rightarrow> nat \<Rightarrow> bytes \<Rightarrow> bytes \<Rightarrow> proto \<times> WebSocket \<Rightarrow> (rcv_event \<times> proto \<times> WebSocket) outcome" where
  "receive_data srv addr key data c =
     (if data = [] then obind abnormal_close (\<lambda>m. Ok (RcvFinal m, c))
      else obind (WebSocket_consume srv data c) (\<lambda>(p, ws).
        obind (receive_loop False srv addr key ws) (\<lambda>(ev, ws1). Ok (ev, p, ws1))))"

subsection \<open>Fragments are assembled\<close>

interpretation ws: fragment_sink protocol_handleFragment
  by unfold_locales (auto simp: protocol_handleFragment_def WebSocket_handleFragment_def Let_def split: option.split)

lemma handle_whole_message:
  "ws_curMessage ws = None \<Longrightarrow> snd (protocol_handleFragment d 0 opc True ws)
    = ws\<lparr>ws_incoming := ws_incoming ws @ [\<lparr>m_type = opc, m_data = d\<rparr>], ws_curMessage := None\<rparr>"
  by (simp add: protocol_handleFragment_def WebSocket_handleFragment_def)

lemma WebSocket_consume_fun: "WebSocket_consume srv = (\<lambda>d (p, ws). consume protocol_handleFragment srv d p ws)"
  by (intro ext) (simp add: WebSocket_consume_def case_prod_unfold)

text \<open>
  C19. The bytes of a connection may arrive in chunks of any size: consuming them chunk by chunk has the same effect on the
  messages received, and raises the same errors, as consuming them all at once.
\<close>
theorem consume_any_chunks:
  assumes "proto_ok srv p" "list_all (\<lambda>d. d \<noteq> []) ds" "concat ds \<noteq> []" "length (concat ds) < 2 ^ 30"
  shows "nrm srv (foldo (WebSocket_consume srv) ds (p, ws)) = nrm srv (WebSocket_consume srv (concat ds) (p, ws))"
proof -
  have "length d \<le> length (concat ds)" if "d \<in> set ds" for d using that by (induction ds) auto
  then have "list_all (\<lambda>d. d \<noteq> [] \<and> length d < 2 ^ 30) ds" using assms(2,4) by (force simp: list_all_iff)
  from ws.consume_chunks_sim [OF assms(1) this, of ws] ws.consume_sim [OF assms(1,3,4), of ws]
  show ?thesis by (simp add: WebSocket_consume_fun)
qed

theorem consume_any_chunks_witness:
  "proto_ok True (new_proto True)
   \<and> nrm True (foldo (WebSocket_consume True) [[0x82], [0x01, 0x00, 0x00, 0x00], [0x00, 0x07]] (new_proto True, new_WebSocket))
     = nrm True (WebSocket_consume True [0x82, 0x01, 0x00, 0x00, 0x00, 0x00, 0x07] (new_proto True, new_WebSocket))"
  using consume_any_chunks [of True "new_proto True" "[[0x82], [0x01, 0x00, 0x00, 0x00], [0x00, 0x07]]" new_WebSocket]
  by (simp add: new_proto_def proto_ok_def)

subsection \<open>Messages arrive\<close>

definition sendable :: "Message \<Rightarrow> bool" where
  "sendable m \<longleftrightarrow> m_type m \<in> {Text, Binary, Close, Ping, Pong} \<and> (m_type m \<in> {Close, Ping, Pong} \<longrightarrow> length (m_data m) \<le> 125)"

text \<open>The client's buffer is too small for messages that need a long header.\<close>

definition fits :: "bool \<Rightarrow> Message \<Rightarrow> bool" where
  "fits srv m \<longleftrightarrow> length (m_data m) \<le> (if srv then kMaxMessageLength else 65535)"

definition send_all :: "bool \<Rightarrow> (nat \<times> bytes \<times> Message) list \<Rightarrow> WebSocket \<Rightarrow> WebSocket outcome" where
  "send_all srv ms ws = foldo (\<lambda>(addr, key, m) ws. obind (WebSocket_send srv addr key m ws) (\<lambda>(e, ws1). Ok ws1)) ms ws"

definition frame_of :: "bool \<Rightarrow> nat \<times> bytes \<times> Message \<Rightarrow> bytes" where
  "frame_of srv x = (case x of (addr, key, m) \<Rightarrow> formatMessage srv addr key (m_data m) (m_type m) (length (m_data m)) False)"

lemma length_formatMessage:
  "length key = 4 \<Longrightarrow> length (formatMessage srv addr key msg opc (length msg) False)
    = length msg + (if length msg < 126 then 2 else if length msg \<le> 65535 then 4 else 10) + (if srv then 0 else 4)"
  by (simp add: formatMessage_def format_header_def length_bytes_def mask_payload_eq Let_def)

lemma send_ok:
  assumes "\<not> ws_closeSent ws" "ws_stream ws" "length key = 4" "fits srv m"
  shows "WebSocket_send srv addr key m ws = Ok (no_err, ws\<lparr>ws_closeSent := (m_type m = Close), ws_written := ws_written ws @ [frame_of srv (addr, key, m)]\<rparr>)"
  using assms by (cases ws) (auto simp: WebSocket_send_def frame_of_def length_formatMessage fits_def Let_def split: if_splits)

lemma send_all_ok:
  assumes "\<not> ws_closeSent ws" "ws_stream ws" "list_all (\<lambda>(addr, key, m). length key = 4 \<and> fits srv m) ms"
    and "list_all (\<lambda>(addr, key, m). m_type m \<noteq> Close) (butlast ms)"
  shows "\<exists>ws'. send_all srv ms ws = Ok ws' \<and> ws_written ws' = ws_written ws @ map (frame_of srv) ms"
  using assms
proof (induction ms arbitrary: ws)
  case (Cons x ms)
  obtain addr key m where x: "x = (addr, key, m)" by (cases x)
  let ?ws = "ws\<lparr>ws_closeSent := (m_type m = Close), ws_written := ws_written ws @ [frame_of srv x]\<rparr>"
  have s: "send_all srv (x # ms) ws = send_all srv ms ?ws"
    using Cons.prems send_ok [of ws key srv m addr] x by (simp add: send_all_def)
  show ?case
  proof (cases "ms = []")
    case True
    then show ?thesis unfolding s by (simp add: send_all_def)
  next
    case False
    with Cons.prems x have "\<not> ws_closeSent ?ws" "list_all (\<lambda>(addr, key, m). m_type m \<noteq> Close) (butlast ms)" by auto
    with Cons.IH [of ?ws] Cons.prems show ?thesis unfolding s by simp
  qed
qed (simp add: send_all_def)

lemma feed_frames:
  assumes "list_all (\<lambda>(addr, key, m). length key = 4 \<and> length (m_data m) \<le> kMaxMessageLength \<and> sendable m) ms"
    and "idle p" "ws_curMessage ws = None"
  shows "\<exists>p' ws'. foldo (feed protocol_handleFragment srv) (concat (map (frame_of (\<not> srv)) ms)) (p, ws) = Ok (p', ws')
    \<and> idle p' \<and> ws_curMessage ws' = None \<and> ws_incoming ws' = ws_incoming ws @ map (\<lambda>(_, _, m). m) ms"
  using assms
proof (induction ms arbitrary: p ws)
  case (Cons x ms)
  obtain addr key m where x: "x = (addr, key, m)" by (cases x)
  have m: "length key = 4" "length (m_data m) \<le> kMaxMessageLength" "sendable m" using Cons.prems(1) x by simp_all
  have "m_type m \<in> {1, 2, 8, 9, 10}" "2 < m_type m \<longrightarrow> length (m_data m) \<le> 125"
    using m(3) by (auto simp: sendable_def msg_types)
  from ws.feed_formatted [OF Cons.prems(2) this(1) m(1,2) this(2), of srv addr ws]
  obtain p1 where p1: "foldo (feed protocol_handleFragment srv) (frame_of (\<not> srv) x) (p, ws)
      = Ok (p1, ws\<lparr>ws_incoming := ws_incoming ws @ [m], ws_curMessage := None\<rparr>)" "idle p1"
    using handle_whole_message [OF Cons.prems(3)] by (auto simp: frame_of_def x)
  let ?ws = "ws\<lparr>ws_incoming := ws_incoming ws @ [m], ws_curMessage := None\<rparr>"
  from Cons.IH [of p1 ?ws] Cons.prems(1) p1(2)
  obtain p' ws' where "foldo (feed protocol_handleFragment srv) (concat (map (frame_of (\<not> srv)) ms)) (p1, ?ws) = Ok (p', ws')"
    "idle p'" "ws_curMessage ws' = None" "ws_incoming ws' = ws_incoming ws @ map (\<lambda>(_, _, m). m) (x # ms)"
    by (auto simp: x)
  then show ?case using p1(1) by (auto simp: foldo_append)
qed simp

lemma idle_new: "idle (new_proto srv)"
  by (simp add: idle_def new_proto_def)

lemma idle_norm: "idle (norm srv p) = idle p"
  by (simp add: idle_def norm_def)

text \<open>
  C1. What one side sends is what the other receives: every message that may be sent and fits its buffer is written, and however
  the stream is cut into chunks, the peer queues exactly these messages, with their types, in order. This holds for both
  directions, any masks and any alignment.
\<close>
theorem websocket_delivers:
  assumes "list_all (\<lambda>(addr, key, m). length key = 4 \<and> fits (\<not> srv) m \<and> sendable m) ms"
    and "list_all (\<lambda>(addr, key, m). m_type m \<noteq> Close) (butlast ms)"
  shows "\<exists>sender. send_all (\<not> srv) ms new_WebSocket = Ok sender
    \<and> (\<forall>ds. list_all (\<lambda>d. d \<noteq> [] \<and> length d < 2 ^ 30) ds \<and> concat ds = concat (ws_written sender) \<longrightarrow>
        (\<exists>p receiver. foldo (WebSocket_consume srv) ds (new_proto srv, new_WebSocket) = Ok (p, receiver)
           \<and> ws_incoming receiver = map (\<lambda>(_, _, m). m) ms \<and> ws_curMessage receiver = None \<and> idle p))"
proof -
  have "list_all (\<lambda>(addr, key, m). length key = 4 \<and> fits (\<not> srv) m) ms" using assms(1) by (force simp: list_all_iff)
  from send_all_ok [OF _ _ this assms(2), of new_WebSocket] obtain sender
    where s: "send_all (\<not> srv) ms new_WebSocket = Ok sender" "ws_written sender = map (frame_of (\<not> srv)) ms"
    by (auto simp: new_WebSocket_def)
  have fits: "fits b m \<Longrightarrow> length (m_data m) \<le> kMaxMessageLength" for b m
    by (auto simp: fits_def kMaxMessageLength_def split: if_splits)
  then have "list_all (\<lambda>(addr, key, m). length key = 4 \<and> length (m_data m) \<le> kMaxMessageLength \<and> sendable m) ms"
    using assms(1) by (force simp: list_all_iff)
  from feed_frames [OF this, of "norm srv (new_proto srv)" new_WebSocket srv] idle_new [of srv]
  obtain p' ws' where f: "foldo (feed protocol_handleFragment srv) (concat (ws_written sender)) (norm srv (new_proto srv), new_WebSocket) = Ok (p', ws')"
    "idle p'" "ws_curMessage ws' = None" "ws_incoming ws' = map (\<lambda>(_, _, m). m) ms"
    by (auto simp: s idle_norm new_WebSocket_def)
  have "\<exists>p receiver. foldo (WebSocket_consume srv) ds (new_proto srv, new_WebSocket) = Ok (p, receiver)
      \<and> ws_incoming receiver = map (\<lambda>(_, _, m). m) ms \<and> ws_curMessage receiver = None \<and> idle p"
    if "list_all (\<lambda>d. d \<noteq> [] \<and> length d < 2 ^ 30) ds" "concat ds = concat (ws_written sender)" for ds
  proof -
    have "nrm srv (foldo (WebSocket_consume srv) ds (new_proto srv, new_WebSocket)) = Ok (p', ws')"
      using ws.consume_chunks_sim [OF idle_ok [OF idle_new [of srv], of srv] that(1), of new_WebSocket] that(2) f(1)
      by (simp add: WebSocket_consume_fun)
    then obtain p where "foldo (WebSocket_consume srv) ds (new_proto srv, new_WebSocket) = Ok (p, ws')" "p' = norm srv p"
      by (cases "foldo (WebSocket_consume srv) ds (new_proto srv, new_WebSocket)") (auto simp: nrm_def)
    with f(2-4) show ?thesis by (auto simp: idle_norm)
  qed
  with s(1) show ?thesis by blast
qed

theorem websocket_delivers_witness:
  "\<exists>sender p receiver.
    send_all False [(1, [1, 2, 3, 4], \<lparr>m_type = Text, m_data = [72, 105]\<rparr>), (0, [9, 8, 7, 6], \<lparr>m_type = Close, m_data = []\<rparr>)] new_WebSocket = Ok sender
    \<and> foldo (WebSocket_consume True) (map (\<lambda>b. [b]) (concat (ws_written sender))) (new_proto True, new_WebSocket) = Ok (p, receiver)
    \<and> ws_incoming receiver = [\<lparr>m_type = Text, m_data = [72, 105]\<rparr>, \<lparr>m_type = Close, m_data = []\<rparr>]"
proof -
  let ?ms = "[(1 :: nat, [1, 2, 3, 4] :: bytes, \<lparr>m_type = Text, m_data = [72, 105]\<rparr>), (0, [9, 8, 7, 6], \<lparr>m_type = Close, m_data = []\<rparr>)]"
  have chunks: "list_all (\<lambda>d. d \<noteq> [] \<and> length d < 2 ^ 30) (map (\<lambda>b. [b]) bs) \<and> concat (map (\<lambda>b. [b]) bs) = bs" for bs :: bytes
    by (induction bs) simp_all
  have "list_all (\<lambda>(addr, key, m). length key = 4 \<and> fits (\<not> True) m \<and> sendable m) ?ms"
    "list_all (\<lambda>(addr, key, m). m_type m \<noteq> Close) (butlast ?ms)"
    by (simp_all add: fits_def sendable_def msg_types)
  from websocket_delivers [OF this] obtain sender
    where s: "send_all (\<not> True) ?ms new_WebSocket = Ok sender"
      and r: "list_all (\<lambda>d. d \<noteq> [] \<and> length d < 2 ^ 30) ds \<and> concat ds = concat (ws_written sender) \<Longrightarrow>
        \<exists>p receiver. foldo (WebSocket_consume True) ds (new_proto True, new_WebSocket) = Ok (p, receiver)
           \<and> ws_incoming receiver = map (\<lambda>(_, _, m). m) ?ms \<and> ws_curMessage receiver = None \<and> idle p" for ds
    by blast
  from r [OF chunks] obtain p receiver
    where "foldo (WebSocket_consume True) (map (\<lambda>b. [b]) (concat (ws_written sender))) (new_proto True, new_WebSocket) = Ok (p, receiver)"
      "ws_incoming receiver = map (\<lambda>(_, _, m). m) ?ms"
    by blast
  with s show ?thesis by (intro exI [of _ sender] exI [of _ p] exI [of _ receiver]) simp
qed

text \<open>
  C28. A client that sends a message of more than 65535 bytes writes past the end of the buffer it allocates: the header is 14
  bytes, and \<^verbatim>\<open>send\<close> leaves room for 10.
\<close>
theorem client_send_overflows:
  assumes "\<not> ws_closeSent ws" "ws_stream ws" "length key = 4"
  shows "WebSocket_send False addr key m ws = Throw UndefinedBehavior \<longleftrightarrow> length (m_data m) > 65535"
  using assms by (simp add: WebSocket_send_def length_formatMessage Let_def)

theorem client_send_overflows_witness:
  "WebSocket_send False 0 [1, 2, 3, 4] \<lparr>m_type = Binary, m_data = replicate 65536 0\<rparr> new_WebSocket = Throw UndefinedBehavior"
  using client_send_overflows [of new_WebSocket "[1, 2, 3, 4]" 0 "\<lparr>m_type = Binary, m_data = replicate 65536 0\<rparr>"]
  by (simp add: new_WebSocket_def)

text \<open>
  A short frame as the peer sends it to the server (\<open>srv\<close>), masked with \<open>key\<close>, or to the client, for a payload of less
  than 126 bytes.
\<close>

definition short_frame :: "bool \<Rightarrow> bool \<Rightarrow> byte \<Rightarrow> bytes \<times> bytes \<Rightarrow> bytes" where
  "short_frame srv fin opc kd =
     [opc OR (if fin then 0x80 else 0), word_of_nat (length (snd kd)) OR (if srv then 0x80 else 0)]
     @ (if srv then fst kd @ xor_mask (fst kd) (snd kd) else snd kd)"

definition short_ok :: "bytes \<times> bytes \<Rightarrow> bool" where
  "short_ok kd \<longleftrightarrow> length (fst kd) = 4 \<and> length (snd kd) < 126"

lemma short_frame_feed:
  assumes "short_ok (key, d)" "opc \<in> {0, 1, 2, 9, 10}" "2 < opc \<longrightarrow> fin" "p_state p = READ_HEAD" "p_spill p = []"
    and "\<And>frame. getOpCode frame = opc \<Longrightarrow> push_opCode frame p = Ok p0"
  shows "foldo (feed protocol_handleFragment srv) (short_frame srv fin opc (key, d)) (p, u) =
    (let p1 = p0\<lparr>p_lastFin := fin\<rparr> in Ok (end_frame p1, snd (protocol_handleFragment d 0 (cur_opCode p1) fin u)))"
proof -
  let ?n = "word_of_nat (length d) :: byte"
  let ?b0 = "opc OR (if fin then 0x80 else 0)" and ?b1 = "?n OR (if srv then 0x80 else 0)"
  let ?ys = "if srv then xor_mask key d else d"
  let ?h = "[?b0, ?b1] @ (if srv then key else [])"
  let ?src = "?h @ ?ys"
  have src: "short_frame srv fin opc (key, d) = ?src" by (simp add: short_frame_def)
  have n: "unat ?n = length d" using assms(1) by (simp add: short_ok_def unsigned_of_nat take_bit_eq_mod)
  then have b1: "?b1 AND 127 = ?n" "?n < 126" using assms(1) by (simp_all add: low7 short_ok_def word_less_nat_alt)
  have b0: "?b0 AND 15 = opc \<and> (?b0 AND 128 \<noteq> 0) = fin \<and> ?b0 AND 48 = 0 \<and> ?b0 AND 64 = 0 \<and> (opc \<le> 2 \<or> opc \<ge> 8) \<and> opc \<le> 10"
    using assms(2) by (elim insertE emptyE) simp_all
  have f: "getOpCode (frameFormat ?src) = opc" "payloadLength (frameFormat ?src) = ?n" "isFin (frameFormat ?src) = fin"
      "\<not> rsv23 (frameFormat ?src)" "\<not> rsv1 (frameFormat ?src)"
    unfolding append_Cons frame_fields using b0 b1(1) by simp_all
  have "\<not> bad_frame (frameFormat ?src)"
    unfolding bad_frame_def f using f(4,5) b0 assms(3) b1(2) by (auto simp: word_less_nat_alt word_le_nat_alt)
  moreover have hd: "header_size srv ?src = length ?h" "SHORT_MESSAGE_HEADER srv \<le> length ?src" "payload_size ?src = length d"
    unfolding header_size_def payload_size_def f Let_def using b1(2) n assms(1) by (simp_all add: header_sizes short_ok_def)
  moreover have "\<not> refusePayloadLength (payload_size ?src)"
    using hd(3) assms(1) by (simp add: refusePayloadLength_def kMaxMessageLength_def short_ok_def)
  moreover have "srv \<Longrightarrow> take 4 (drop (length ?h - 4) ?src) = key" using assms(1) by (simp add: short_ok_def)
  ultimately show ?thesis unfolding src
    using ws.feed_frame [OF assms(4,5) _ _ _ assms(6) [OF f(1)], of srv "?ys" u] f(3)
    by (cases srv) (simp_all add: Let_def xor_mask_involution)
qed

text \<open>Between the frames of a fragmented message of type \<open>t\<close>.\<close>

definition in_message :: "byte \<Rightarrow> proto \<Rightarrow> bool" where
  "in_message t p \<longleftrightarrow> p_state p = READ_HEAD \<and> p_spill p = [] \<and> p_opStack p = 0 \<and> length (p_opCode p) = 2 \<and> p_opCode p ! 0 = t"

lemma first_fragment:
  assumes "short_ok kd" "t \<in> {1, 2}" "idle p" "ws_curMessage ws = None"
  shows "\<exists>p'. foldo (feed protocol_handleFragment srv) (short_frame srv False t kd) (p, ws) =
    Ok (p', ws\<lparr>ws_curMessage := Some \<lparr>m_type = t, m_data = snd kd\<rparr>\<rparr>) \<and> in_message t p'"
proof -
  let ?p0 = "p\<lparr>p_opStack := 0, p_opCode := (p_opCode p)[0 := t]\<rparr>"
  have "push_opCode frame p = Ok ?p0" if "getOpCode frame = t" for frame
    using that assms(2,3) by (auto simp: push_opCode_def idle_def)
  from short_frame_feed [of "fst kd" "snd kd" t False p ?p0 srv ws] this assms show ?thesis
    by (auto simp: Let_def idle_def in_message_def end_frame_def protocol_handleFragment_def WebSocket_handleFragment_def)
qed

text \<open>The message so far, and the next fragment of it.\<close>

definition message_so_far :: "byte \<Rightarrow> WebSocket \<Rightarrow> Message" where
  "message_so_far t ws = (case ws_curMessage ws of None \<Rightarrow> \<lparr>m_type = t, m_data = []\<rparr> | Some m \<Rightarrow> m)"

lemma next_fragment:
  assumes "short_ok kd" "in_message t p"
  shows "\<exists>p'. foldo (feed protocol_handleFragment srv) (short_frame srv fin 0 kd) (p, ws) =
    Ok (p', let m = message_so_far t ws; m1 = m\<lparr>m_data := m_data m @ snd kd\<rparr>
      in if fin then ws\<lparr>ws_incoming := ws_incoming ws @ [m1], ws_curMessage := None\<rparr> else ws\<lparr>ws_curMessage := Some m1\<rparr>)
    \<and> (if fin then idle p' else in_message t p')"
proof -
  have "push_opCode frame p = Ok p" if "getOpCode frame = 0" for frame
    using that assms(2) by (auto simp: push_opCode_def in_message_def)
  from short_frame_feed [of "fst kd" "snd kd" 0 fin p p srv ws] this assms show ?thesis
    by (cases "ws_curMessage ws") (auto simp: Let_def idle_def in_message_def end_frame_def message_so_far_def
        protocol_handleFragment_def WebSocket_handleFragment_def)
qed

lemma control_in_message:
  assumes "short_ok kd" "c \<in> {9, 10}" "in_message t p" "ws_curMessage ws = Some m"
  shows "\<exists>p'. foldo (feed protocol_handleFragment srv) (short_frame srv True c kd) (p, ws) =
    Ok (p', ws\<lparr>ws_incoming := ws_incoming ws @ [m\<lparr>m_data := m_data m @ snd kd\<rparr>], ws_curMessage := None\<rparr>) \<and> in_message t p'"
proof -
  let ?p0 = "p\<lparr>p_opStack := 1, p_opCode := (p_opCode p)[1 := c]\<rparr>"
  have "push_opCode frame p = Ok ?p0" if "getOpCode frame = c" for frame
    using that assms(2,3) by (auto simp: push_opCode_def in_message_def)
  from short_frame_feed [of "fst kd" "snd kd" c True p ?p0 srv ws] this assms show ?thesis
    by (auto simp: Let_def in_message_def end_frame_def protocol_handleFragment_def WebSocket_handleFragment_def)
qed

text \<open>The non-final frames that continue a message.\<close>

lemma next_fragments:
  assumes "list_all short_ok kds" "in_message t p"
  shows "\<exists>p'. foldo (feed protocol_handleFragment srv) (concat (map (short_frame srv False 0) kds)) (p, ws) =
    Ok (p', if kds = [] then ws else ws\<lparr>ws_curMessage := Some
        ((message_so_far t ws)\<lparr>m_data := m_data (message_so_far t ws) @ concat (map snd kds)\<rparr>)\<rparr>)
    \<and> in_message t p'"
  using assms
proof (induction kds arbitrary: p ws)
  case (Cons kd kds)
  let ?ws = "ws\<lparr>ws_curMessage := Some ((message_so_far t ws)\<lparr>m_data := m_data (message_so_far t ws) @ snd kd\<rparr>)\<rparr>"
  obtain p1 where p1: "foldo (feed protocol_handleFragment srv) (short_frame srv False 0 kd) (p, ws) = Ok (p1, ?ws)" "in_message t p1"
    using next_fragment [of kd t p srv False ws] Cons.prems by (auto simp: Let_def)
  have "message_so_far t ?ws = (message_so_far t ws)\<lparr>m_data := m_data (message_so_far t ws) @ snd kd\<rparr>"
    by (simp add: message_so_far_def)
  then show ?case using Cons.IH [OF _ p1(2), of ?ws] Cons.prems(1) p1(1) by (auto simp: foldo_append)
qed simp

lemma consume_chunks_result:
  assumes "foldo (feed protocol_handleFragment srv) (concat ds) (norm srv p, ws) = Ok (p', ws')" "idle p" "idle p'"
    and "list_all (\<lambda>d. d \<noteq> [] \<and> length d < 2 ^ 30) ds"
  shows "\<exists>q. foldo (WebSocket_consume srv) ds (p, ws) = Ok (q, ws') \<and> idle q"
proof -
  have "nrm srv (foldo (WebSocket_consume srv) ds (p, ws)) = Ok (p', ws')"
    using ws.consume_chunks_sim [OF idle_ok [OF assms(2), of srv] assms(4), of ws] assms(1) by (simp add: WebSocket_consume_fun)
  then show ?thesis using assms(3) by (cases "foldo (WebSocket_consume srv) ds (p, ws)") (auto simp: nrm_def idle_norm)
qed

text \<open>
  The frames of a message of type \<open>t\<close> in the fragments \<open>as @ ds\<close> with a control frame \<open>c\<close> after the fragments \<open>as\<close>.
\<close>

definition interrupted :: "bool \<Rightarrow> byte \<Rightarrow> byte \<Rightarrow> (bytes \<times> bytes) list \<Rightarrow> bytes \<times> bytes \<Rightarrow> (bytes \<times> bytes) list \<Rightarrow> bytes" where
  "interrupted srv t c as b ds =
     short_frame srv False t (hd as) @ concat (map (short_frame srv False 0) (tl as)) @ short_frame srv True c b
     @ concat (map (short_frame srv False 0) (butlast ds)) @ short_frame srv True 0 (last ds)"

lemma feed_interrupted:
  assumes "t \<in> {1, 2}" "c \<in> {9, 10}" "as \<noteq> []" "ds \<noteq> []" "list_all short_ok (as @ b # ds)" "idle p" "ws_curMessage ws = None"
  shows "\<exists>p' ws'. foldo (feed protocol_handleFragment srv) (interrupted srv t c as b ds) (p, ws) = Ok (p', ws') \<and> idle p'
    \<and> ws_curMessage ws' = None \<and> ws_incoming ws' = ws_incoming ws @
      [\<lparr>m_type = t, m_data = concat (map snd as) @ snd b\<rparr>, \<lparr>m_type = t, m_data = concat (map snd ds)\<rparr>]"
proof -
  let ?f = "foldo (feed protocol_handleFragment srv)"
  obtain a as' where as: "as = a # as'" using assms(3) by (cases as) auto
  obtain ds' d where ds: "ds = ds' @ [d]" using assms(4) by (cases ds rule: rev_cases) auto
  have ok: "short_ok a" "list_all short_ok as'" "short_ok b" "list_all short_ok ds'" "short_ok d"
    using assms(5) by (simp_all add: as ds)
  let ?m1 = "\<lparr>m_type = t, m_data = snd a\<rparr>" and ?ma = "\<lparr>m_type = t, m_data = concat (map snd as)\<rparr>"
  let ?w1 = "ws\<lparr>ws_curMessage := Some ?m1\<rparr>" and ?w2 = "ws\<lparr>ws_curMessage := Some ?ma\<rparr>"
  obtain p1 where p1: "?f (short_frame srv False t a) (p, ws) = Ok (p1, ?w1)" "in_message t p1"
    using first_fragment [OF ok(1) assms(1,6,7)] by blast
  obtain p2 where p2: "?f (concat (map (short_frame srv False 0) as')) (p1, ?w1) = Ok (p2, ?w2)" "in_message t p2"
    using next_fragments [OF ok(2) p1(2), of srv ?w1] by (cases "as' = []") (auto simp: message_so_far_def as)
  let ?w3 = "ws\<lparr>ws_incoming := ws_incoming ws @ [\<lparr>m_type = t, m_data = concat (map snd as) @ snd b\<rparr>], ws_curMessage := None\<rparr>"
  obtain p3 where p3: "?f (short_frame srv True c b) (p2, ?w2) = Ok (p3, ?w3)" "in_message t p3"
    using control_in_message [OF ok(3) assms(2) p2(2), of ?w2 ?ma srv] by auto
  let ?w4 = "if ds' = [] then ?w3 else ?w3\<lparr>ws_curMessage := Some \<lparr>m_type = t, m_data = concat (map snd ds')\<rparr>\<rparr>"
  obtain p4 where p4: "?f (concat (map (short_frame srv False 0) ds')) (p3, ?w3) = Ok (p4, ?w4)" "in_message t p4"
    using next_fragments [OF ok(4) p3(2), of srv ?w3] by (auto simp: message_so_far_def)
  obtain p5 where p5: "?f (short_frame srv True 0 d) (p4, ?w4) = Ok (p5, ?w3\<lparr>ws_incoming := ws_incoming ?w3
      @ [\<lparr>m_type = t, m_data = concat (map snd ds)\<rparr>], ws_curMessage := None\<rparr>)" "idle p5"
    using next_fragment [OF ok(5) p4(2), of srv True ?w4] by (cases "ds' = []") (auto simp: message_so_far_def ds Let_def)
  have "?f (interrupted srv t c as b ds) (p, ws) = Ok (p5, ?w3\<lparr>ws_incoming := ws_incoming ?w3
      @ [\<lparr>m_type = t, m_data = concat (map snd ds)\<rparr>], ws_curMessage := None\<rparr>)"
    using p1(1) p2(1) p3(1) p4(1) p5(1) by (simp add: interrupted_def as ds foldo_append)
  with p5(2) show ?thesis by simp
qed

text \<open>
  C29. A control frame between the fragments of a message, as the protocol allows, breaks the message in two. Whatever the
  fragments before and after it (short ones, of less than 126 bytes), of a text or binary message, on both sides and however the
  stream is cut into chunks: when a Ping or Pong comes between them, the receiver queues the fragments before it
  with the control frame's payload at their end as one message, the fragments after it as another, and no Ping or Pong.
\<close>
theorem ping_splits_message:
  assumes "t \<in> {Text, Binary}" "c \<in> {Ping, Pong}" "as \<noteq> []" "ds \<noteq> []" "list_all short_ok (as @ b # ds)"
    and "idle p" "ws_curMessage ws = None" "list_all (\<lambda>d. d \<noteq> [] \<and> length d < 2 ^ 30) chunks" "concat chunks = interrupted srv t c as b ds"
  shows "\<exists>q ws'. foldo (WebSocket_consume srv) chunks (p, ws) = Ok (q, ws') \<and> idle q \<and> ws_curMessage ws' = None
    \<and> ws_incoming ws' = ws_incoming ws @
        [\<lparr>m_type = t, m_data = concat (map snd as) @ snd b\<rparr>, \<lparr>m_type = t, m_data = concat (map snd ds)\<rparr>]"
proof -
  have "t \<in> {1, 2}" "c \<in> {9, 10}" using assms(1,2) by (auto simp: msg_types)
  from feed_interrupted [OF this assms(3-5), of "norm srv p" ws srv] assms(6,7)
  obtain p' ws' where "foldo (feed protocol_handleFragment srv) (concat chunks) (norm srv p, ws) = Ok (p', ws')" "idle p'"
      "ws_curMessage ws' = None" "ws_incoming ws' = ws_incoming ws @
        [\<lparr>m_type = t, m_data = concat (map snd as) @ snd b\<rparr>, \<lparr>m_type = t, m_data = concat (map snd ds)\<rparr>]"
    by (auto simp: idle_norm assms(9))
  with consume_chunks_result [OF this(1) assms(6) this(2) assms(8)] show ?thesis by blast
qed

text \<open>The text "Hello" in two fragments with a Ping "x" between them.\<close>

theorem ping_splits_message_witness:
  "\<exists>q ws'. foldo (WebSocket_consume False) [[0x01, 0x02, 0x48, 0x65, 0x89, 0x01, 0x78, 0x80], [0x03, 0x6C, 0x6C, 0x6F]]
      (new_proto False, new_WebSocket) = Ok (q, ws')
    \<and> ws_incoming ws' = [\<lparr>m_type = Text, m_data = [0x48, 0x65, 0x78]\<rparr>, \<lparr>m_type = Text, m_data = [0x6C, 0x6C, 0x6F]\<rparr>]"
proof -
  let ?k = "[0, 0, 0, 0] :: bytes"
  have "concat [[0x01, 0x02, 0x48, 0x65, 0x89, 0x01, 0x78, 0x80], [0x03, 0x6C, 0x6C, 0x6F]]
    = interrupted False Text Ping [(?k, [0x48, 0x65])] (?k, [0x78]) [(?k, [0x6C, 0x6C, 0x6F])]"
    by (simp add: interrupted_def short_frame_def msg_types)
  from ping_splits_message [OF _ _ _ _ _ idle_new [of False] _ _ this, of new_WebSocket] show ?thesis
    by (simp add: short_ok_def new_WebSocket_def msg_types) blast
qed

subsection \<open>What receive() yields\<close>

definition pong_frame :: "bool \<Rightarrow> nat \<Rightarrow> bytes \<Rightarrow> bytes" where
  "pong_frame srv addr key = formatMessage srv addr key [] Pong 0 False"

lemma send_pong:
  "length key = 4 \<Longrightarrow> ws_stream ws \<Longrightarrow> \<exists>e. WebSocket_send srv addr key \<lparr>m_type = Pong, m_data = []\<rparr> ws
     = Ok (e, ws\<lparr>ws_written := ws_written ws @ (if ws_closeSent ws then [] else [pong_frame srv addr key])\<rparr>)"
  by (auto simp: WebSocket_send_def length_formatMessage [where msg = "[]", simplified] pong_frame_def msg_types Let_def)

text \<open>
  \<^verbatim>\<open>receive()\<close> yields the next Text, Binary or Close message of the queue, in order, and skips the Pings and Pongs before it,
  answering each Ping with a Pong unless a Close was sent; a Close ends the connection for the reader.
\<close>
theorem receive_next:
  assumes "ws_stream ws" "\<not> ws_closeReceived ws" "length key = 4"
    and "ws_incoming ws = pre @ m # rest" "list_all (\<lambda>x. m_type x \<in> {Ping, Pong}) pre" "m_type m \<in> {Text, Binary, Close}"
  shows "\<exists>ws'. receive_loop True srv addr key ws = Ok (RcvMessage m, ws') \<and> ws_incoming ws' = rest
    \<and> ws_closeReceived ws' = (m_type m = Close)
    \<and> ws_written ws' = ws_written ws @
        (if ws_closeSent ws then [] else replicate (length (filter (\<lambda>x. m_type x = Ping) pre)) (pong_frame srv addr key))"
  using assms
proof (induction pre arbitrary: ws)
  case Nil
  then show ?case by (subst receive_loop.simps) (auto simp: msg_types Let_def)
next
  case (Cons x pre)
  let ?ws1 = "ws\<lparr>ws_incoming := pre @ m # rest\<rparr>"
  obtain e where s: "WebSocket_send srv addr key \<lparr>m_type = Pong, m_data = []\<rparr> ?ws1
      = Ok (e, ?ws1\<lparr>ws_written := ws_written ws @ (if ws_closeSent ws then [] else [pong_frame srv addr key])\<rparr>)"
    using send_pong [of key ?ws1 srv addr] Cons.prems(1,3) by auto
  let ?ws2 = "?ws1\<lparr>ws_written := ws_written ws @ (if ws_closeSent ws then [] else [pong_frame srv addr key])\<rparr>"
  have "receive_loop True srv addr key ws = receive_loop True srv addr key (if m_type x = Ping then ?ws2 else ?ws1)"
    using Cons.prems s by (subst receive_loop.simps) (auto simp: msg_types Let_def)
  moreover have "list_all (\<lambda>x. m_type x \<in> {Ping, Pong}) pre" using Cons.prems(5) by simp
  ultimately show ?case
    using Cons.IH [of ?ws1] Cons.IH [of ?ws2] Cons.prems(1-3,6)
    by (cases "m_type x = Ping"; cases "ws_closeSent ws") simp_all
qed

theorem receive_next_witness:
  "\<exists>ws'. receive_loop True False 0 [1, 2, 3, 4]
      (new_WebSocket\<lparr>ws_incoming := [\<lparr>m_type = Ping, m_data = [5]\<rparr>, \<lparr>m_type = Text, m_data = [72]\<rparr>]\<rparr>)
     = Ok (RcvMessage \<lparr>m_type = Text, m_data = [72]\<rparr>, ws') \<and> ws_written ws' = [pong_frame False 0 [1, 2, 3, 4]]"
  using receive_next [of "new_WebSocket\<lparr>ws_incoming := [\<lparr>m_type = Ping, m_data = [5]\<rparr>, \<lparr>m_type = Text, m_data = [72]\<rparr>]\<rparr>"
      "[1, 2, 3, 4]" "[\<lparr>m_type = Ping, m_data = [5]\<rparr>]" "\<lparr>m_type = Text, m_data = [72]\<rparr>" "[]" False 0]
  by (simp add: new_WebSocket_def msg_types) blast

end
