(* ===== verification/StringUtils.thy ===== *)
theory StringUtils
  imports Crouton_Prelude
begin

text \<open>
  The string helpers of \<^verbatim>\<open>src/support/StringUtils.hh\<close> and \<^verbatim>\<open>StringUtils.cc\<close>, and the functions of the C library that the URL parser
  and the BLIP messages use: \<^verbatim>\<open>strtol\<close> and the decimal formats of \<^verbatim>\<open>snprintf\<close> and \<^verbatim>\<open>to_string\<close>. A \<^verbatim>\<open>std::string\<close> or
  \<^verbatim>\<open>string_view\<close> is the list of its bytes; \<^verbatim>\<open>char\<close> is signed.
\<close>

type_synonym str = "byte list"

definition ch :: "char \<Rightarrow> byte" where "ch c = word_of_nat (of_char c)"
definition lit :: "string \<Rightarrow> str" where "lit s = map ch s"

subsection \<open>Characters\<close>

text \<open>A comparison with two ASCII characters, for which the sign of \<^verbatim>\<open>char\<close> makes no difference.\<close>

definition in_range :: "char \<Rightarrow> char \<Rightarrow> byte \<Rightarrow> bool" where
  "in_range a b c \<longleftrightarrow> unat (ch a) \<le> unat c \<and> unat c \<le> unat (ch b)"

definition toLower_char :: "byte \<Rightarrow> byte" where
  "toLower_char c = (if in_range CHR ''A'' CHR ''Z'' c then c + 32 else c)"

definition toUpper_char :: "byte \<Rightarrow> byte" where
  "toUpper_char c = (if in_range CHR ''a'' CHR ''z'' c then c - 32 else c)"

definition isAlphanumeric :: "byte \<Rightarrow> bool" where
  "isAlphanumeric c \<longleftrightarrow> in_range CHR ''0'' CHR ''9'' c \<or> in_range CHR ''A'' CHR ''Z'' c \<or> in_range CHR ''a'' CHR ''z'' c"

definition isHexDigit :: "byte \<Rightarrow> bool" where
  "isHexDigit c \<longleftrightarrow> in_range CHR ''0'' CHR ''9'' c \<or> in_range CHR ''A'' CHR ''F'' c \<or> in_range CHR ''a'' CHR ''f'' c"

definition hexDigitToInt :: "byte \<Rightarrow> int" where
  "hexDigitToInt c =
     (if sint c < sint (ch CHR ''A'') then sint c - sint (ch CHR ''0'')
      else if sint c < sint (ch CHR ''a'') then sint c - sint (ch CHR ''A'') + 10
      else sint c - sint (ch CHR ''a'') + 10)"

definition asHexDigit :: "nat \<Rightarrow> byte outcome" where
  "asHexDigit n = assert_that (n < 16) (Ok (if n < 10 then ch CHR ''0'' + word_of_nat n else ch CHR ''A'' + word_of_nat (n - 10)))"

text \<open>\<^verbatim>\<open>strchr\<close> also finds the terminating NUL.\<close>

definition strchr :: "str \<Rightarrow> byte \<Rightarrow> bool" where
  "strchr s c \<longleftrightarrow> c \<in> set s \<or> c = 0"

definition isURLSafe :: "byte \<Rightarrow> bool" where
  "isURLSafe c \<longleftrightarrow> isAlphanumeric c \<or> strchr (lit ''-_.~'') c"

subsection \<open>Strings\<close>

definition toLower :: "str \<Rightarrow> str" where
  "toLower s = map toLower_char s"

definition equalIgnoringCase :: "str \<Rightarrow> str \<Rightarrow> bool" where
  "equalIgnoringCase a b \<longleftrightarrow>
     length a = length b \<and> list_all (\<lambda>i. toLower_char (a ! i) = toLower_char (b ! i)) [0..<length a]"

definition split_at :: "byte \<Rightarrow> str \<Rightarrow> str \<times> str" where
  "split_at c s = (if c \<in> set s then (takeWhile (\<lambda>x. x \<noteq> c) s, tl (dropWhile (\<lambda>x. x \<noteq> c) s)) else (s, []))"

definition splitAt :: "str \<Rightarrow> nat \<Rightarrow> nat \<Rightarrow> (str \<times> str) outcome" where
  "splitAt s pos delimSize = assert_that (pos + delimSize \<le> length s) (Ok (take pos s, drop (pos + delimSize) s))"

subsection \<open>Decimal numbers\<close>

definition digit :: "nat \<Rightarrow> byte" where "digit n = ch CHR ''0'' + word_of_nat n"

fun show_nat :: "nat \<Rightarrow> str" where
  "show_nat n = (if n < 10 then [digit n] else show_nat (n div 10) @ [digit (n mod 10)])"

declare show_nat.simps [simp del]

definition show_int :: "int \<Rightarrow> str" where
  "show_int i = (if i < 0 then ch CHR ''-'' # show_nat (nat (- i)) else show_nat (nat i))"

definition isDigit :: "byte \<Rightarrow> bool" where
  "isDigit c \<longleftrightarrow> in_range CHR ''0'' CHR ''9'' c"

definition isSpace :: "byte \<Rightarrow> bool" where
  "isSpace c \<longleftrightarrow> c = 32 \<or> 9 \<le> c \<and> c \<le> 13"

definition digits_value :: "str \<Rightarrow> nat" where
  "digits_value ds = foldl (\<lambda>n d. 10 * n + unat (d - ch CHR ''0'')) 0 ds"

text \<open>\<^verbatim>\<open>strtol(s, &end, 10)\<close> with 64-bit \<^verbatim>\<open>long\<close>: the value, clamped, and the rest of the string; with no digits the rest is all of it.\<close>

definition LONG_MAX :: int where "LONG_MAX = 2 ^ 63 - 1"
definition LONG_MIN :: int where "LONG_MIN = - (2 ^ 63)"

definition strtol :: "str \<Rightarrow> int \<times> str" where
  "strtol s =
     (let s1 = dropWhile isSpace s;
          neg = (s1 \<noteq> [] \<and> hd s1 = ch CHR ''-'');
          s2 = (if s1 \<noteq> [] \<and> (hd s1 = ch CHR ''-'' \<or> hd s1 = ch CHR ''+'') then tl s1 else s1);
          ds = takeWhile isDigit s2;
          v = (if neg then - int (digits_value ds) else int (digits_value ds))
      in if ds = [] then (0, s) else (max LONG_MIN (min LONG_MAX v), dropWhile isDigit s2))"

subsection \<open>Facts about them\<close>

lemma sint_ascii: "unat (c :: byte) < 128 \<Longrightarrow> sint c = int (unat c)"
proof -
  assume c: "unat c < 128"
  have u: "uint c = int (unat c)" by simp
  have "n < 128 \<Longrightarrow> signed_take_bit 7 (int n) = int n" for n by (intro signed_take_bit_int_eq_self) simp_all
  from this [OF c] show ?thesis unfolding sint_uint u by simp
qed

lemma unat_ch [simp]: "unat (ch c) = of_char c"
proof -
  have "of_char c < (256 :: nat)" by (metis nat_of_char_less_256)
  then show ?thesis by (simp add: ch_def unsigned_of_nat take_bit_eq_mod)
qed

lemma inj_ch: "ch a = ch b \<longleftrightarrow> a = b"
  by (metis unat_ch of_char_eq_iff)

lemma lit_simps [simp]: "lit [] = []" "lit (c # s) = ch c # lit s"
  by (simp_all add: lit_def)

lemma in_range_digits:
  "isDigit c \<longleftrightarrow> 48 \<le> unat c \<and> unat c \<le> 57"
  by (simp add: isDigit_def in_range_def)

lemma unat_digit: "n < 10 \<Longrightarrow> unat (digit n) = 48 + n"
  by (simp add: digit_def unat_word_ariths unsigned_of_nat take_bit_eq_mod)

lemma digit_ch:
  "digit 0 = ch CHR ''0''" "digit 1 = ch CHR ''1''" "digit (Suc 0) = ch CHR ''1''" "digit 2 = ch CHR ''2''" "digit 3 = ch CHR ''3''"
  "digit 4 = ch CHR ''4''" "digit 5 = ch CHR ''5''" "digit 6 = ch CHR ''6''" "digit 7 = ch CHR ''7''" "digit 8 = ch CHR ''8''"
  "digit 9 = ch CHR ''9''"
  by (simp_all add: digit_def ch_def)

lemma digit_is [simp]: "n < 10 \<Longrightarrow> isDigit (digit n)"
  by (simp add: in_range_digits unat_digit)

lemma unat_digit_value: "n < 10 \<Longrightarrow> unat (digit n - ch CHR ''0'') = n"
  by (simp add: digit_def unsigned_of_nat take_bit_eq_mod)

lemma digits_value_snoc: "digits_value (ds @ [d]) = 10 * digits_value ds + unat (d - ch CHR ''0'')"
  by (simp add: digits_value_def)

lemma show_nat_digits: "list_all isDigit (show_nat n) \<and> show_nat n \<noteq> [] \<and> digits_value (show_nat n) = n"
proof (induction n rule: show_nat.induct)
  case (1 n)
  then show ?case
    by (subst (1 2 3) show_nat.simps) (auto simp: digits_value_snoc unat_digit_value, simp add: digits_value_def unat_digit_value)
qed

lemma length_show_nat: "n < 10 ^ Suc k \<Longrightarrow> length (show_nat n) \<le> Suc k"
proof (induction k arbitrary: n)
  case 0
  then show ?case by (simp add: show_nat.simps)
next
  case (Suc k)
  then have "n div 10 < 10 ^ Suc k" by simp
  from Suc.IH [OF this] show ?case by (subst show_nat.simps) simp
qed

lemma takeWhile_all_append: "list_all P xs \<Longrightarrow> (ys = [] \<or> \<not> P (hd ys)) \<Longrightarrow> takeWhile P (xs @ ys) = xs \<and> dropWhile P (xs @ ys) = ys"
  by (induction xs) (auto, (cases ys; simp)+)

lemma hd_show_nat: "isDigit (hd (show_nat n))"
  using show_nat_digits [of n] by (cases "show_nat n") auto

lemma digit_not_special: "isDigit c \<Longrightarrow> \<not> isSpace c \<and> c \<noteq> ch CHR ''-'' \<and> c \<noteq> ch CHR ''+''"
  by (auto simp: in_range_digits isSpace_def word_le_nat_alt)

text \<open>Reading back a printed number.\<close>

lemma strtol_show_nat:
  assumes "rest = [] \<or> \<not> isDigit (hd rest)" "int n \<le> LONG_MAX"
  shows "strtol (show_nat n @ rest) = (int n, rest)"
proof -
  obtain c cs where c: "show_nat n = c # cs" using show_nat_digits [of n] by (cases "show_nat n") auto
  then have "isDigit c" using show_nat_digits [of n] by simp
  then have "\<not> isSpace c" "c \<noteq> ch CHR ''-''" "c \<noteq> ch CHR ''+''" using digit_not_special by blast+
  then show ?thesis
    using takeWhile_all_append [of isDigit "show_nat n" rest] show_nat_digits [of n] assms
    by (simp add: strtol_def c Let_def LONG_MIN_def)
qed

lemma strtol_show_int:
  assumes "LONG_MIN \<le> i" "i \<le> LONG_MAX"
  shows "strtol (show_int i) = (i, [])"
proof (cases "i < 0")
  case True
  have "\<not> isSpace (ch CHR ''-'')" by (simp add: isSpace_def word_le_nat_alt word_unat_eq_iff)
  moreover have tw: "takeWhile isDigit (show_nat (nat (- i))) = show_nat (nat (- i))" "dropWhile isDigit (show_nat (nat (- i))) = []"
    using takeWhile_all_append [of isDigit "show_nat (nat (- i))" "[]"] show_nat_digits [of "nat (- i)"] by simp_all
  moreover have "show_nat (nat (- i)) \<noteq> []" "digits_value (show_nat (nat (- i))) = nat (- i)" using show_nat_digits by blast+
  ultimately show ?thesis using True assms
    by (simp add: strtol_def show_int_def Let_def LONG_MAX_def tw)
next
  case False
  with assms strtol_show_nat [of "[]" "nat i"] show ?thesis by (simp add: show_int_def)
qed

end
