(* ===== verification/URL.thy ===== *)
theory URL
  imports StringUtils Errors
begin

text \<open>
  URLs (\<^verbatim>\<open>src/io/URL.cc\<close>): the parser, putting a URL together again, percent-escapes and looking up a query value. The argument of
  the parser is a C string: the bytes before its NUL.
\<close>

subsection \<open>The parser\<close>

record URLRef =
  u_scheme :: str
  u_hostname :: str
  u_port :: nat
  u_path :: str
  u_query :: str

text \<open>
  \<^verbatim>\<open>tlsuv_parse_url\<close>. The \<^verbatim>\<open>sscanf\<close> calls take the longest non-empty run of characters other than those named, and fail on an
  empty one.
\<close>

definition scan_until :: "str \<Rightarrow> str \<Rightarrow> str" where
  "scan_until stops p = takeWhile (\<lambda>c. c \<notin> set stops) p"

definition parse_scheme :: "str \<Rightarrow> str \<times> str" where
  "parse_scheme p =
     (let count = length (scan_until (lit '':'') p)
      in if take 3 (drop count p) = lit ''://'' then (take count p, drop (count + 3) p) else ([], p))"

definition parse_port :: "str \<Rightarrow> str \<Rightarrow> (nat \<times> str) option" where
  "parse_port hostname p =
     (if p \<noteq> [] \<and> hd p = ch CHR '':'' then
        if hostname = [] then None
        else case strtol (tl p) of (lport, pend) \<Rightarrow>
          if pend = tl p then None
          else if lport > 0 \<and> lport \<le> 65535 then Some (nat lport, pend) else None
      else Some (0, p))"

definition tlsuv_parse_url :: "str \<Rightarrow> URLRef option" where
  "tlsuv_parse_url urlstr =
     (let (scheme, p1) = parse_scheme urlstr;
          hostname = scan_until (lit '':/'') p1;
          p2 = drop (length hostname) p1
      in case parse_port hostname p2 of
           None \<Rightarrow> None
         | Some (port, p3) \<Rightarrow>
             if p3 = [] then Some \<lparr>u_scheme = scheme, u_hostname = hostname, u_port = port, u_path = [], u_query = []\<rparr>
             else if hd p3 \<noteq> ch CHR ''/'' then None
             else
               let path = scan_until (lit ''?'') p3; p4 = drop (length path) p3
               in Some \<lparr>u_scheme = scheme, u_hostname = hostname, u_port = port, u_path = path, u_query = tl p4\<rparr>)"

definition tryParse :: "str \<Rightarrow> URLRef \<Rightarrow> bool \<times> URLRef" where
  "tryParse s this = (case tlsuv_parse_url s of None \<Rightarrow> (False, this) | Some url \<Rightarrow> (True, url))"

definition URL_parse :: "str \<Rightarrow> URLRef \<Rightarrow> URLRef outcome" where
  "URL_parse s this = (case tryParse s this of (ok, url) \<Rightarrow> if ok then Ok url else raise_crouton InvalidURL)"

definition normalizedScheme :: "URLRef \<Rightarrow> str" where
  "normalizedScheme u = toLower (u_scheme u)"

definition reencoded :: "URLRef \<Rightarrow> str" where
  "reencoded u =
     u_scheme u @ (if u_scheme u \<noteq> [] then lit ''://'' else []) @ u_hostname u
     @ (if u_port u \<noteq> 0 then lit '':'' @ show_nat (u_port u) else []) @ u_path u
     @ (if u_query u \<noteq> [] then lit ''?'' @ u_query u else [])"

text \<open>\<^verbatim>\<open>c_str()\<close> as a function that reads a C string sees it: a string may contain NULs, at the first of which a C string ends.\<close>

definition c_str :: "str \<Rightarrow> str" where
  "c_str s = takeWhile (\<lambda>c. c \<noteq> 0) s"

text \<open>A \<^verbatim>\<open>URL\<close> is its string \<^verbatim>\<open>_str\<close> and the parts it was parsed into: \<^verbatim>\<open>URL(str)\<close>, \<^verbatim>\<open>reencode()\<close> and \<^verbatim>\<open>URL(scheme, hostname, port, path, query)\<close>.\<close>

definition empty_URLRef :: URLRef where
  "empty_URLRef = \<lparr>u_scheme = [], u_hostname = [], u_port = 0, u_path = [], u_query = []\<rparr>"

definition URL_of_string :: "str \<Rightarrow> (str \<times> URLRef) outcome" where
  "URL_of_string s = obind (URL_parse (c_str s) empty_URLRef) (\<lambda>u. Ok (s, u))"

definition URL_reencode :: "URLRef \<Rightarrow> (str \<times> URLRef) outcome" where
  "URL_reencode u = (let s = reencoded u in obind (URL_parse (c_str s) u) (\<lambda>u1. Ok (s, u1)))"

definition URL_of_parts :: "str \<Rightarrow> str \<Rightarrow> nat \<Rightarrow> str \<Rightarrow> str \<Rightarrow> (str \<times> URLRef) outcome" where
  "URL_of_parts scheme hostname port path query =
     URL_reencode \<lparr>u_scheme = scheme, u_hostname = hostname, u_port = port, u_path = path, u_query = query\<rparr>"

subsection \<open>Escapes\<close>

fun unescape :: "str \<Rightarrow> str" where
  "unescape (c # a # b # s) =
     (if c = ch CHR ''%'' \<and> isHexDigit a \<and> isHexDigit b
      then word_of_int (16 * hexDigitToInt a + hexDigitToInt b) # unescape s
      else c # unescape (a # b # s))"
| "unescape (c # s) = c # unescape s"
| "unescape [] = []"

fun escape :: "str \<Rightarrow> str option \<Rightarrow> str outcome" where
  "escape [] ex = Ok []"
| "escape (c # s) ex =
     (if isURLSafe c \<or> (case ex of None \<Rightarrow> False | Some e \<Rightarrow> strchr e c)
      then obind (escape s ex) (\<lambda>r. Ok (c # r))
      else obind (asHexDigit (unat c div 16)) (\<lambda>h. obind (asHexDigit (unat c mod 16)) (\<lambda>l.
        obind (escape s ex) (\<lambda>r. Ok (ch CHR ''%'' # h # l # r)))))"

subsection \<open>Queries\<close>

lemma split_at_length: "s \<noteq> [] \<Longrightarrow> length (snd (split_at c s)) < length s"
proof -
  assume s: "s \<noteq> []"
  have "length (tl (dropWhile (\<lambda>x. x \<noteq> c) s)) < length s"
    using length_dropWhile_le [of "\<lambda>x. x \<noteq> c" s] s by (simp flip: length_greater_0_conv)
  then show ?thesis using s by (simp add: split_at_def)
qed

function query_lookup :: "str \<Rightarrow> str \<Rightarrow> str" where
  "query_lookup key remaining =
     (if remaining = [] then []
      else
        let (q, rest) = split_at (ch CHR ''&'') remaining;
            (k, v) = split_at (ch CHR ''='') q
        in if k = key then (if v = [] then k else v) else query_lookup key rest)"
  by pat_completeness auto

termination
  by (relation "measure (\<lambda>(_, s). length s)") (simp_all, metis snd_conv split_at_length)

declare query_lookup.simps [simp del]

definition queryValueForKey :: "str \<Rightarrow> URLRef \<Rightarrow> str" where
  "queryValueForKey key u = query_lookup key (u_query u)"

subsection \<open>Round trips\<close>

text \<open>
  The URLs that can be written: with a scheme and a host, neither of which has a delimiter in it, a query only after a path, and
  no NUL anywhere.
\<close>

definition url_ok :: "URLRef \<Rightarrow> bool" where
  "url_ok u \<longleftrightarrow>
     u_scheme u \<noteq> [] \<and> ch CHR '':'' \<notin> set (u_scheme u)
     \<and> u_hostname u \<noteq> [] \<and> ch CHR '':'' \<notin> set (u_hostname u) \<and> ch CHR ''/'' \<notin> set (u_hostname u)
     \<and> u_port u < 65536
     \<and> (if u_path u = [] then u_query u = [] else hd (u_path u) = ch CHR ''/'') \<and> ch CHR ''?'' \<notin> set (u_path u)
     \<and> 0 \<notin> set (u_scheme u @ u_hostname u @ u_path u @ u_query u)"

lemma scan_until_append:
  "(\<And>c. c \<in> set a \<Longrightarrow> c \<notin> set stops) \<Longrightarrow> b = [] \<or> hd b \<in> set stops \<Longrightarrow> scan_until stops (a @ b) = a"
  unfolding scan_until_def by (induction a) (auto simp: takeWhile_eq_Nil_iff)

lemma parse_scheme_append:
  "ch CHR '':'' \<notin> set s \<Longrightarrow> parse_scheme (s @ lit ''://'' @ r) = (s, r)"
  by (subst parse_scheme_def, subst scan_until_append) (auto simp: numeral_3_eq_3)

definition port_part :: "URLRef \<Rightarrow> str" where
  "port_part u = (if u_port u \<noteq> 0 then lit '':'' @ show_nat (u_port u) else [])"

definition path_part :: "URLRef \<Rightarrow> str" where
  "path_part u = u_path u @ (if u_query u \<noteq> [] then lit ''?'' @ u_query u else [])"

lemma path_part_hd: "url_ok u \<Longrightarrow> path_part u = [] \<or> hd (path_part u) = ch CHR ''/''"
  by (cases "u_path u") (auto simp: url_ok_def path_part_def)

lemma slash_not_digit [simp]: "\<not> isDigit (ch CHR ''/'')"
  by (simp add: in_range_digits)

lemma parse_port_part:
  assumes "url_ok u"
  shows "parse_port (u_hostname u) (port_part u @ path_part u) = Some (u_port u, path_part u)"
proof (cases "u_port u = 0")
  case True
  then show ?thesis using path_part_hd [OF assms] by (auto simp: parse_port_def port_part_def inj_ch)
next
  case False
  have "strtol (show_nat (u_port u) @ path_part u) = (int (u_port u), path_part u)"
    using path_part_hd [OF assms] assms by (intro strtol_show_nat) (auto simp: url_ok_def LONG_MAX_def)
  moreover have "show_nat (u_port u) \<noteq> []" using show_nat_digits by blast
  ultimately show ?thesis using assms False by (auto simp: parse_port_def port_part_def url_ok_def)
qed

lemma parse_path_part:
  assumes "url_ok u" "path_part u \<noteq> []"
  shows "scan_until (lit ''?'') (path_part u) = u_path u \<and> tl (drop (length (u_path u)) (path_part u)) = u_query u"
  using assms unfolding path_part_def
  by (subst scan_until_append) (auto simp: url_ok_def)

lemma tlsuv_parse_url_reencoded:
  assumes "url_ok u"
  shows "tlsuv_parse_url (reencoded u) = Some u"
proof -
  have r: "reencoded u = u_scheme u @ lit ''://'' @ (u_hostname u @ port_part u @ path_part u)"
    using assms by (simp add: reencoded_def port_part_def path_part_def url_ok_def)
  have s: "parse_scheme (reencoded u) = (u_scheme u, u_hostname u @ port_part u @ path_part u)"
    unfolding r by (rule parse_scheme_append) (use assms in \<open>simp add: url_ok_def\<close>)
  have h: "scan_until (lit '':/'') (u_hostname u @ port_part u @ path_part u) = u_hostname u"
    using assms path_part_hd [OF assms] by (intro scan_until_append) (auto simp: url_ok_def port_part_def)
  have "path_part u = [] \<Longrightarrow> u_path u = [] \<and> u_query u = []" by (simp add: path_part_def split: if_splits)
  moreover have "path_part u \<noteq> [] \<Longrightarrow> hd (path_part u) = ch CHR ''/''" using path_part_hd [OF assms] by blast
  ultimately show ?thesis
    unfolding tlsuv_parse_url_def s h Let_def prod.case append_eq_conv_conj [THEN iffD1, OF refl, THEN conjunct2]
    by (simp add: parse_port_part [OF assms] parse_path_part [OF assms] del: lit_simps)
qed

lemma URLRef_eta:
  "\<lparr>u_scheme = u_scheme u, u_hostname = u_hostname u, u_port = u_port u, u_path = u_path u, u_query = u_query u\<rparr> = u"
  by (cases u) simp

lemma c_str_plain: "0 \<notin> set s \<Longrightarrow> c_str s = s"
  by (auto simp: c_str_def takeWhile_eq_all_conv)

lemma show_nat_no_NUL: "0 \<notin> set (show_nat n)"
  using show_nat_digits [of n] by (auto simp: list_all_iff in_range_digits)

lemma c_str_reencoded:
  assumes "url_ok u"
  shows "c_str (reencoded u) = reencoded u"
proof (rule c_str_plain)
  have "(0 :: byte) \<notin> set (lit '':'')" "(0 :: byte) \<notin> set (lit ''://'')" "(0 :: byte) \<notin> set (lit ''?'')"
    by (simp_all add: ch_def)
  then show "0 \<notin> set (reencoded u)"
    using assms show_nat_no_NUL [of "u_port u"] by (simp add: reencoded_def url_ok_def del: lit_simps)
qed

lemma asHexDigit_value:
  assumes "n < 16"
  obtains h where "asHexDigit n = Ok h" "isHexDigit h" "hexDigitToInt h = int n" "isAlphanumeric h"
proof -
  let ?P = "\<lambda>n. case asHexDigit n of Inr h \<Rightarrow> isHexDigit h \<and> hexDigitToInt h = int n \<and> isAlphanumeric h | _ \<Rightarrow> False"
  have "list_all ?P [0..<16]" by code_simp
  then have "?P n" using assms by (simp add: list_all_iff)
  then show ?thesis by (cases "asHexDigit n") (auto intro: that)
qed

lemma escape_unescape:
  assumes "ch CHR ''%'' \<notin> set (case ex of None \<Rightarrow> [] | Some e \<Rightarrow> e)"
  shows "\<exists>r. escape s ex = Ok r \<and> unescape r = s
    \<and> (\<forall>c \<in> set r. isURLSafe c \<or> c = ch CHR ''%'' \<or> (\<exists>e. ex = Some e \<and> c \<in> set e))"
proof (induction s)
  case (Cons c s)
  then obtain r where r: "escape s ex = Ok r" "unescape r = s"
    "\<forall>c \<in> set r. isURLSafe c \<or> c = ch CHR ''%'' \<or> (\<exists>e. ex = Some e \<and> c \<in> set e)" by blast
  let ?safe = "isURLSafe c \<or> (case ex of None \<Rightarrow> False | Some e \<Rightarrow> strchr e c)"
  show ?case
  proof (cases ?safe)
    case True
    then have c: "isURLSafe c \<or> (\<exists>e. ex = Some e \<and> c \<in> set e)"
      by (auto simp: strchr_def isURLSafe_def split: option.splits)
    have "\<not> isURLSafe (ch CHR ''%'')"
      by (simp add: isURLSafe_def isAlphanumeric_def in_range_def strchr_def inj_ch) (simp add: ch_def)
    with c assms have "c \<noteq> ch CHR ''%''" by auto
    then have "unescape (c # r) = c # s" using r(2) by (cases "(c # r)" rule: unescape.cases) auto
    then show ?thesis using True r(1,3) c by auto
  next
    case False
    have n: "unat c div 16 < 16" "unat c mod 16 < 16" using unsigned_less [of c, where ?'a = nat] by (simp_all add: less_mult_imp_div_less)
    obtain h where h: "asHexDigit (unat c div 16) = Ok h" "isHexDigit h" "hexDigitToInt h = int (unat c div 16)" "isAlphanumeric h"
      by (rule asHexDigit_value [OF n(1)])
    obtain l where l: "asHexDigit (unat c mod 16) = Ok l" "isHexDigit l" "hexDigitToInt l = int (unat c mod 16)" "isAlphanumeric l"
      by (rule asHexDigit_value [OF n(2)])
    have "16 * hexDigitToInt h + hexDigitToInt l = int (unat c)" unfolding h l by (metis of_nat_add of_nat_mult of_nat_numeral mult_div_mod_eq)
    then have "word_of_int (16 * hexDigitToInt h + hexDigitToInt l) = c" by simp
    then show ?thesis using False r h l by (simp add: isURLSafe_def)
  qed
qed simp

subsection \<open>Properties\<close>

text \<open>
  C39. A URL that is put together from its parts, and one made from the resulting string, have exactly those parts, if no part has a delimiter
  in the wrong place or a NUL.
\<close>

theorem url_roundtrip:
  assumes "url_ok u"
  shows "URL_of_parts (u_scheme u) (u_hostname u) (u_port u) (u_path u) (u_query u) = Ok (reencoded u, u)
    \<and> URL_of_string (reencoded u) = Ok (reencoded u, u) \<and> URL_parse (c_str (reencoded u)) v = Ok u"
  using tlsuv_parse_url_reencoded [OF assms] c_str_reencoded [OF assms]
  by (simp add: URLRef_eta URL_of_parts_def URL_reencode_def URL_of_string_def URL_parse_def tryParse_def Let_def)

theorem url_roundtrip_witness:
  "let u = \<lparr>u_scheme = lit ''http'', u_hostname = lit ''h.com'', u_port = 8080, u_path = lit ''/a/b'', u_query = lit ''x=1''\<rparr>
   in url_ok u \<and> reencoded u = lit ''http://h.com:8080/a/b?x=1'' \<and> URL_of_string (reencoded u) = Ok (reencoded u, u)"
proof -
  let ?u = "\<lparr>u_scheme = lit ''http'', u_hostname = lit ''h.com'', u_port = 8080, u_path = lit ''/a/b'', u_query = lit ''x=1''\<rparr>"
  have ok: "url_ok ?u" by (simp add: url_ok_def inj_ch) (simp add: ch_def)
  have "reencoded ?u = lit ''http://h.com:8080/a/b?x=1''" by (simp add: reencoded_def show_nat.simps digit_ch)
  then show ?thesis using url_roundtrip [OF ok, of ?u] ok unfolding Let_def by simp
qed

text \<open>Escaping always succeeds, leaves only safe characters, percent signs and the exceptions, and unescaping gives the string back
  unless the percent sign is an exception.\<close>

theorem escape_roundtrip:
  assumes "ch CHR ''%'' \<notin> set (case ex of None \<Rightarrow> [] | Some e \<Rightarrow> e)"
  shows "\<exists>r. escape s ex = Ok r \<and> unescape r = s
    \<and> (\<forall>c \<in> set r. isURLSafe c \<or> c = ch CHR ''%'' \<or> (\<exists>e. ex = Some e \<and> c \<in> set e))"
  by (rule escape_unescape [OF assms])

theorem escape_roundtrip_witness:
  "escape (lit ''a b/c'') (Some (lit ''/'')) = Ok (lit ''a%20b/c'') \<and> unescape (lit ''a%20b/c'') = lit ''a b/c''"
proof -
  have e: "escape (lit ''a b/c'') (Some (lit ''/'')) = Ok (lit ''a%20b/c'')"
    by (simp add: isURLSafe_def isAlphanumeric_def in_range_def strchr_def asHexDigit_def inj_ch) (simp add: ch_def)
  show ?thesis using escape_roundtrip [of "Some (lit ''/'')" "lit ''a b/c''"] unfolding e by (auto simp: inj_ch)
qed

end
