(* ===== verification/BlipMessage.thy ===== *)
theory BlipMessage
  imports Varint StringUtils
begin

text \<open>
  BLIP messages as bytes (\<^verbatim>\<open>include/crouton/io/blip/Protocol.hh\<close>, \<^verbatim>\<open>src/io/blip/MessageBuilder.cc\<close> and the property accessors of
  \<^verbatim>\<open>src/io/blip/Message.cc\<close>): types and flags, the builder, and looking properties up in the encoded form. The lemmas show that the
  accessors find what the builder was given.
\<close>

subsection \<open>Types, flags and errors\<close>

definition kRequestType :: byte where "kRequestType = 0"
definition kResponseType :: byte where "kResponseType = 1"
definition kErrorType :: byte where "kErrorType = 2"
definition kAckRequestType :: byte where "kAckRequestType = 4"
definition kAckResponseType :: byte where "kAckResponseType = 5"

definition kTypeMask :: byte where "kTypeMask = 0x07"
definition kCompressed :: byte where "kCompressed = 0x08"
definition kUrgent :: byte where "kUrgent = 0x10"
definition kNoReply :: byte where "kNoReply = 0x20"
definition kMoreComing :: byte where "kMoreComing = 0x40"

lemmas blip_consts = kRequestType_def kResponseType_def kErrorType_def kAckRequestType_def kAckResponseType_def
  kTypeMask_def kCompressed_def kUrgent_def kNoReply_def kMoreComing_def

definition kMaxPropertiesSize :: nat where "kMaxPropertiesSize = 100 * 1024"

datatype ProtocolError = InvalidFrame | PropertiesTooLarge | CompressionError | BadChecksum

primrec protocol_code :: "ProtocolError \<Rightarrow> int" where
  "protocol_code InvalidFrame = 1"
| "protocol_code PropertiesTooLarge = 2"
| "protocol_code CompressionError = 3"
| "protocol_code BadChecksum = 4"

definition raise_blip :: "ProtocolError \<Rightarrow> 'a outcome" where
  "raise_blip e = Throw (Raise DBlipProtocol (protocol_code e))"

record blip_error =
  be_domain :: str
  be_code :: int
  be_message :: str

subsection \<open>MessageBuilder\<close>

record MessageBuilder =
  bld_urgent :: bool
  bld_compressed :: bool
  bld_noreply :: bool
  bld_type :: byte
  bld_out :: "byte list"
  bld_properties :: "byte list"
  bld_wroteProperties :: bool

definition empty_builder :: MessageBuilder where
  "empty_builder = \<lparr>bld_urgent = False, bld_compressed = False, bld_noreply = False, bld_type = kRequestType,
     bld_out = [], bld_properties = [], bld_wroteProperties = False\<rparr>"

definition writeTokenizedString :: "byte list \<Rightarrow> str \<Rightarrow> byte list outcome" where
  "writeTokenizedString out s = assert_that (0 \<notin> set s) (Ok (out @ s @ [0]))"

definition addProperty :: "str \<Rightarrow> str \<Rightarrow> MessageBuilder \<Rightarrow> MessageBuilder outcome" where
  "addProperty name v mb = assert_that (\<not> bld_wroteProperties mb)
     (obind (writeTokenizedString (bld_properties mb) name) (\<lambda>p1.
      obind (writeTokenizedString p1 v) (\<lambda>p2. Ok (mb\<lparr>bld_properties := p2\<rparr>))))"

definition addProperty_int :: "str \<Rightarrow> int \<Rightarrow> MessageBuilder \<Rightarrow> MessageBuilder outcome" where
  "addProperty_int name v mb = addProperty name (show_int v) mb"

fun addProperties :: "(str \<times> str) list \<Rightarrow> MessageBuilder \<Rightarrow> MessageBuilder outcome" where
  "addProperties [] mb = Ok mb"
| "addProperties ((k, v) # ps) mb = obind (addProperty k v mb) (addProperties ps)"

definition new_builder :: "str \<Rightarrow> MessageBuilder outcome" where
  "new_builder profile = (if profile \<noteq> [] then addProperty (lit ''Profile'') profile empty_builder else Ok empty_builder)"

text \<open>The constructor for a reply takes the type and urgency of the message replied to.\<close>

definition new_reply_builder :: "byte \<Rightarrow> MessageBuilder outcome" where
  "new_reply_builder replyTo_flags = assert_that (\<not> (replyTo_flags AND kTypeMask) \<ge> kResponseType)
     (Ok (empty_builder\<lparr>bld_type := kResponseType, bld_urgent := (replyTo_flags AND kUrgent \<noteq> 0)\<rparr>))"

definition new_props_builder :: "(str \<times> str) list \<Rightarrow> MessageBuilder outcome" where
  "new_props_builder ps = addProperties ps empty_builder"

definition finishProperties :: "MessageBuilder \<Rightarrow> MessageBuilder outcome" where
  "finishProperties mb =
     (if \<not> bld_wroteProperties mb then
        (let properties = bld_properties mb; propertiesSize = length properties
         in if propertiesSize > kMaxPropertiesSize then raise_blip PropertiesTooLarge
            else Ok (mb\<lparr>bld_properties := [],
                        bld_out := bld_out mb @ varint_put (word_of_nat propertiesSize) @ properties,
                        bld_wroteProperties := True\<rparr>))
      else Ok mb)"

definition bld_write :: "byte list \<Rightarrow> MessageBuilder \<Rightarrow> MessageBuilder outcome" where
  "bld_write data mb = obind (if \<not> bld_wroteProperties mb then finishProperties mb else Ok mb)
     (\<lambda>mb1. Ok (mb1\<lparr>bld_out := bld_out mb1 @ data\<rparr>))"

definition makeError :: "blip_error \<Rightarrow> MessageBuilder \<Rightarrow> MessageBuilder outcome" where
  "makeError e mb = assert_that (be_domain e \<noteq> [] \<and> be_code e \<noteq> 0)
     (obind (addProperty (lit ''Error-Domain'') (be_domain e) (mb\<lparr>bld_type := kErrorType\<rparr>)) (\<lambda>mb1.
      obind (addProperty_int (lit ''Error-Code'') (be_code e) mb1) (\<lambda>mb2.
      bld_write (be_message e) mb2)))"

definition bld_flags :: "MessageBuilder \<Rightarrow> byte" where
  "bld_flags mb =
     (bld_type mb AND kTypeMask) OR (if bld_urgent mb then kUrgent else 0)
     OR (if bld_compressed mb then kCompressed else 0) OR (if bld_noreply mb then kNoReply else 0)"

definition bld_finish :: "MessageBuilder \<Rightarrow> (byte list \<times> MessageBuilder) outcome" where
  "bld_finish mb = obind (finishProperties mb) (\<lambda>mb1. Ok (bld_out mb1, mb1))"

definition bld_reset :: "MessageBuilder \<Rightarrow> MessageBuilder" where
  "bld_reset mb = mb\<lparr>bld_urgent := False, bld_compressed := False, bld_noreply := False, bld_out := [], bld_properties := [],
     bld_wroteProperties := False\<rparr>"

subsection \<open>Looking up properties\<close>

text \<open>
  \<^verbatim>\<open>MessageIn::property\<close>. The pointer \<^verbatim>\<open>key\<close> is the rest of \<^verbatim>\<open>_properties\<close> from there; the string's own terminator stops
  \<^verbatim>\<open>strlen\<close> at its end.
\<close>

definition cstr :: "byte list \<Rightarrow> str" where
  "cstr p = takeWhile (\<lambda>c. c \<noteq> 0) p"

function property :: "byte list \<Rightarrow> str \<Rightarrow> str" where
  "property key prop =
     (if key = [] then []
      else
        let k = cstr key; val = drop (length k + 1) key
        in if val = [] then []
           else
             let v = cstr val
             in if prop = k then v else property (drop (length v + 1) val) prop)"
  by pat_completeness auto
termination
  by (relation "measure (\<lambda>(key, _). length key)") auto

declare property.simps [simp del]

text \<open>\<^verbatim>\<open>value.c_str()\<close> ends at a NUL, but a value has none.\<close>

definition intProperty :: "byte list \<Rightarrow> str \<Rightarrow> int \<Rightarrow> int" where
  "intProperty props name defaultValue =
     (let v = property props name
      in if v = [] then defaultValue
         else case strtol v of (result, end_) \<Rightarrow> if end_ \<noteq> [] then defaultValue else result)"

definition boolProperty :: "byte list \<Rightarrow> str \<Rightarrow> bool \<Rightarrow> bool" where
  "boolProperty props name defaultValue =
     (let v = property props name
      in if equalIgnoringCase v (lit ''true'') \<or> equalIgnoringCase v (lit ''YES'') then True
         else if equalIgnoringCase v (lit ''false'') \<or> equalIgnoringCase v (lit ''NO'') then False
         else intProperty props name (if defaultValue then 1 else 0) \<noteq> 0)"

text \<open>\<^verbatim>\<open>getError\<close> of a message with these flags; the code is narrowed to \<^verbatim>\<open>int\<close>.\<close>

definition narrow_int :: "int \<Rightarrow> int" where
  "narrow_int i = (i + 2 ^ 31) mod 2 ^ 32 - 2 ^ 31"

definition getError :: "byte \<Rightarrow> byte list \<Rightarrow> byte list \<Rightarrow> blip_error" where
  "getError flags props body =
     (if flags AND kTypeMask \<noteq> kErrorType then \<lparr>be_domain = [], be_code = 0, be_message = []\<rparr>
      else \<lparr>be_domain = property props (lit ''Error-Domain''),
            be_code = narrow_int (intProperty props (lit ''Error-Code'') 0), be_message = body\<rparr>)"

subsection \<open>What the accessors find\<close>

definition encode_props :: "(str \<times> str) list \<Rightarrow> byte list" where
  "encode_props ps = concat (map (\<lambda>(k, v). k @ 0 # v @ [0]) ps)"

definition nul_free :: "(str \<times> str) list \<Rightarrow> bool" where
  "nul_free ps \<longleftrightarrow> list_all (\<lambda>(k, v). 0 \<notin> set k \<and> 0 \<notin> set v) ps"

lemma encode_props_simps [simp]:
  "encode_props [] = []" "encode_props ((k, v) # ps) = k @ 0 # v @ 0 # encode_props ps"
  by (simp_all add: encode_props_def)

lemma encode_props_append [simp]: "encode_props (ps @ qs) = encode_props ps @ encode_props qs"
  by (simp add: encode_props_def)

lemma nul_free_simps [simp]:
  "nul_free []" "nul_free ((k, v) # ps) \<longleftrightarrow> 0 \<notin> set k \<and> 0 \<notin> set v \<and> nul_free ps"
  by (simp_all add: nul_free_def)

lemma cstr_terminated [simp]: "0 \<notin> set s \<Longrightarrow> cstr (s @ 0 # r) = s"
  by (induction s) (auto simp: cstr_def)

lemma writeTokenizedString_Ok: "writeTokenizedString out s = (if 0 \<in> set s then Throw Terminated else Ok (out @ s @ [0]))"
  by (simp add: writeTokenizedString_def assert_that_def)

lemma addProperty_Ok:
  "\<not> bld_wroteProperties mb \<Longrightarrow> 0 \<notin> set k \<Longrightarrow> 0 \<notin> set v \<Longrightarrow>
     addProperty k v mb = Ok (mb\<lparr>bld_properties := bld_properties mb @ encode_props [(k, v)]\<rparr>)"
  by (simp add: addProperty_def writeTokenizedString_Ok)

lemma addProperties_Ok:
  "\<not> bld_wroteProperties mb \<Longrightarrow> nul_free ps \<Longrightarrow>
     addProperties ps mb = Ok (mb\<lparr>bld_properties := bld_properties mb @ encode_props ps\<rparr>)"
proof (induction ps arbitrary: mb)
  case (Cons p ps)
  then show ?case by (cases p) (simp add: addProperty_Ok)
qed simp

lemma addProperties_refuses: "\<not> nul_free ps \<Longrightarrow> addProperties ps mb = Throw Terminated"
proof (induction ps arbitrary: mb)
  case (Cons p ps)
  then show ?case
    by (cases p) (auto simp: addProperty_def assert_that_def writeTokenizedString_Ok)
qed simp

lemma property_encode:
  "nul_free ps \<Longrightarrow> property (encode_props ps) name = (case map_of ps name of None \<Rightarrow> [] | Some v \<Rightarrow> v)"
proof (induction ps)
  case Nil
  then show ?case by (simp add: property.simps)
next
  case (Cons p ps)
  obtain k v where p: "p = (k, v)" by (cases p)
  have "property (k @ 0 # v @ 0 # encode_props ps) name = (if name = k then v else property (encode_props ps) name)"
    using Cons.prems p by (subst property.simps) (simp add: Let_def)
  then show ?case using Cons p by auto
qed

lemma size_roundtrip: "n \<le> kMaxPropertiesSize \<Longrightarrow> unat (word_of_nat n :: u64) = n"
  by (simp add: kMaxPropertiesSize_def unsigned_of_nat take_bit_nat_eq_self)

lemma finish_payload:
  assumes "\<not> bld_wroteProperties mb" "bld_out mb = []" "length (bld_properties mb) \<le> kMaxPropertiesSize"
  shows "\<exists>mb'. obind (bld_write body mb) bld_finish =
    Ok (varint_put (word_of_nat (length (bld_properties mb))) @ bld_properties mb @ body, mb') \<and> bld_flags mb' = bld_flags mb"
  using assms by (simp add: bld_write_def bld_finish_def finishProperties_def bld_flags_def Let_def)

lemma show_int_nul_free: "0 \<notin> set (show_int i)"
proof -
  have "0 \<notin> set (show_nat n)" for n
    using show_nat_digits [of n] by (auto simp: list_all_iff in_range_digits dest!: bspec)
  then show ?thesis by (simp add: show_int_def ch_def)
qed

lemma int_of_show_int:
  assumes "nul_free ps" "map_of ps name = Some (show_int i)" "LONG_MIN \<le> i" "i \<le> LONG_MAX"
  shows "intProperty (encode_props ps) name d = i"
proof -
  have "show_int i \<noteq> []" using show_nat_digits by (simp add: show_int_def)
  then show ?thesis using assms by (simp add: intProperty_def property_encode strtol_show_int Let_def)
qed

subsection \<open>The invariant of the builder\<close>

text \<open>Encoded properties fit the limit and end with a NUL.\<close>

definition props_ok :: "byte list \<Rightarrow> bool" where
  "props_ok props \<longleftrightarrow> props = [] \<or> last props = 0"

definition payload_ok :: "byte list \<Rightarrow> bool" where
  "payload_ok payload \<longleftrightarrow> (\<exists>props body. payload = varint_put (word_of_nat (length props)) @ props @ body
     \<and> length props \<le> kMaxPropertiesSize \<and> props_ok props)"

definition bld_ok :: "MessageBuilder \<Rightarrow> bool" where
  "bld_ok mb \<longleftrightarrow> props_ok (bld_properties mb) \<and> (if bld_wroteProperties mb then payload_ok (bld_out mb) else bld_out mb = [])"

lemma bld_ok_empty: "bld_ok empty_builder"
  by (simp add: bld_ok_def empty_builder_def props_ok_def)

lemma addProperty_bld_ok: "addProperty k v mb = Ok mb' \<Longrightarrow> bld_ok mb \<Longrightarrow> bld_ok mb'"
  by (auto simp: addProperty_def writeTokenizedString_def assert_that_eq_Ok obind_eq_Ok bld_ok_def props_ok_def)

lemma addProperties_bld_ok: "addProperties ps mb = Ok mb' \<Longrightarrow> bld_ok mb \<Longrightarrow> bld_ok mb'"
  by (induction ps mb rule: addProperties.induct) (auto simp: obind_eq_Ok dest: addProperty_bld_ok)

lemma payload_okI:
  "length props \<le> kMaxPropertiesSize \<Longrightarrow> props_ok props \<Longrightarrow> payload_ok (varint_put (word_of_nat (length props)) @ props @ body)"
  unfolding payload_ok_def by blast

lemma finishProperties_bld_ok:
  assumes "finishProperties mb = Ok mb'" "bld_ok mb"
  shows "bld_ok mb' \<and> bld_wroteProperties mb' \<and> bld_flags mb' = bld_flags mb"
proof (cases "bld_wroteProperties mb")
  case True
  then show ?thesis using assms by (simp add: finishProperties_def)
next
  case False
  let ?ps = "bld_properties mb"
  have l: "length ?ps \<le> kMaxPropertiesSize" using assms(1) False by (simp add: finishProperties_def raise_blip_def Let_def split: if_splits)
  then have mb': "mb' = mb\<lparr>bld_properties := [], bld_out := bld_out mb @ varint_put (word_of_nat (length ?ps)) @ ?ps, bld_wroteProperties := True\<rparr>"
    using assms(1) False by (simp add: finishProperties_def Let_def)
  have "payload_ok (bld_out mb')" using payload_okI [OF l, of "[]"] assms(2) False by (simp add: mb' bld_ok_def)
  then show ?thesis by (simp add: mb' bld_ok_def props_ok_def bld_flags_def)
qed

lemma payload_ok_append:
  assumes "payload_ok p"
  shows "payload_ok (p @ data)"
proof -
  obtain props body where "p = varint_put (word_of_nat (length props)) @ props @ body" "length props \<le> kMaxPropertiesSize" "props_ok props"
    using assms by (auto simp: payload_ok_def)
  then show ?thesis using payload_okI [of props "body @ data"] by simp
qed

lemma bld_write_bld_ok: "bld_write data mb = Ok mb' \<Longrightarrow> bld_ok mb \<Longrightarrow> bld_ok mb'"
  unfolding bld_write_def
  by (auto simp: obind_eq_Ok split: if_splits dest!: finishProperties_bld_ok) (auto simp: bld_ok_def payload_ok_append)

lemma bld_finish_payload:
  "bld_finish mb = Ok (payload, mb') \<Longrightarrow> bld_ok mb \<Longrightarrow> payload_ok payload \<and> bld_ok mb' \<and> bld_flags mb' = bld_flags mb \<and> bld_out mb' = payload"
  unfolding bld_finish_def by (auto simp: obind_eq_Ok dest!: finishProperties_bld_ok) (simp add: bld_ok_def)

lemma bld_ok_fields [simp]:
  "bld_ok (mb\<lparr>bld_type := t\<rparr>) = bld_ok mb" "bld_ok (mb\<lparr>bld_urgent := u, bld_compressed := c, bld_noreply := n\<rparr>) = bld_ok mb"
  "bld_ok (mb\<lparr>bld_type := t, bld_urgent := u\<rparr>) = bld_ok mb" "bld_ok (bld_reset mb)"
  by (simp_all add: bld_ok_def bld_reset_def props_ok_def)

lemma makeError_bld_ok: "makeError e mb = Ok mb' \<Longrightarrow> bld_ok mb \<Longrightarrow> bld_ok mb'"
  using bld_ok_fields(1) [of kErrorType mb]
  by (auto simp: makeError_def addProperty_int_def assert_that_eq_Ok obind_eq_Ok simp del: bld_ok_fields(1)
      dest!: addProperty_bld_ok intro: bld_write_bld_ok)

text \<open>The calls that can be made on a builder.\<close>

inductive builder_reachable :: "MessageBuilder \<Rightarrow> bool" where
  new: "new_builder profile = Ok mb \<Longrightarrow> builder_reachable mb"
| reply: "new_reply_builder fl = Ok mb \<Longrightarrow> builder_reachable mb"
| props: "new_props_builder ps = Ok mb \<Longrightarrow> builder_reachable mb"
| flags: "builder_reachable mb \<Longrightarrow> builder_reachable (mb\<lparr>bld_urgent := u, bld_compressed := c, bld_noreply := n\<rparr>)"
| add: "builder_reachable mb \<Longrightarrow> addProperty k v mb = Ok mb' \<Longrightarrow> builder_reachable mb'"
| add_int: "builder_reachable mb \<Longrightarrow> addProperty_int k i mb = Ok mb' \<Longrightarrow> builder_reachable mb'"
| writing: "builder_reachable mb \<Longrightarrow> bld_write data mb = Ok mb' \<Longrightarrow> builder_reachable mb'"
| make_error: "builder_reachable mb \<Longrightarrow> makeError e mb = Ok mb' \<Longrightarrow> builder_reachable mb'"
| finish: "builder_reachable mb \<Longrightarrow> bld_finish mb = Ok (payload, mb') \<Longrightarrow> builder_reachable mb'"
| reset: "builder_reachable mb \<Longrightarrow> builder_reachable (bld_reset mb)"

lemma builder_ok: "builder_reachable mb \<Longrightarrow> bld_ok mb"
proof (induction rule: builder_reachable.induct)
  case (new profile mb)
  then show ?case using bld_ok_empty by (auto simp: new_builder_def split: if_splits intro: addProperty_bld_ok)
next
  case (reply fl mb)
  then show ?case using bld_ok_empty by (auto simp: new_reply_builder_def assert_that_eq_Ok bld_ok_empty)
next
  case (props ps mb)
  then show ?case using bld_ok_empty by (auto simp: new_props_builder_def intro: addProperties_bld_ok)
next
  case (add_int mb k i mb')
  then show ?case by (auto simp: addProperty_int_def intro: addProperty_bld_ok)
next
  case (finish mb payload mb')
  then show ?case using bld_finish_payload by blast
qed (auto intro: addProperty_bld_ok bld_write_bld_ok makeError_bld_ok)

lemma error_payload:
  assumes "replyTo AND kTypeMask = kRequestType" "be_domain e \<noteq> []" "0 \<notin> set (be_domain e)" "length (be_domain e) \<le> 1000"
    "be_code e \<noteq> 0" "- (2 ^ 31) \<le> be_code e" "be_code e < 2 ^ 31"
  shows "\<exists>props payload mb. obind (new_reply_builder replyTo) (\<lambda>mb0. obind (makeError e mb0) bld_finish) = Ok (payload, mb)
    \<and> payload = varint_put (word_of_nat (length props)) @ props @ be_message e \<and> length payload \<le> length (be_domain e) + length (be_message e) + 60
    \<and> bld_flags mb AND kTypeMask = kErrorType
    \<and> getError (bld_flags mb) props (be_message e) = e"
proof -
  define ps where "ps = [(lit ''Error-Domain'', be_domain e), (lit ''Error-Code'', show_int (be_code e))]"
  have d: "0 \<notin> set (lit ''Error-Domain'')" "0 \<notin> set (lit ''Error-Code'')" by (simp_all add: ch_def)
  have nf: "nul_free ps" using assms d show_int_nul_free by (simp add: ps_def)
  define mb where "mb = empty_builder\<lparr>bld_type := kErrorType, bld_urgent := (replyTo AND kUrgent \<noteq> 0), bld_properties := encode_props ps\<rparr>"
  have "nat (be_code e) < 10 ^ Suc 9" "nat (- be_code e) < 10 ^ Suc 9" using assms by simp_all
  from this [THEN length_show_nat] have "length (show_int (be_code e)) \<le> 11" by (simp add: show_int_def)
  then have len0: "length (encode_props ps) \<le> length (be_domain e) + 37" by (simp add: ps_def)
  then have len: "length (bld_properties mb) \<le> kMaxPropertiesSize" using assms(4) by (simp add: mb_def kMaxPropertiesSize_def)
  have "length (varint_put (word_of_nat (length (encode_props ps)))) \<le> 10" using length_varint_put [of "word_of_nat (length (encode_props ps))"] by (simp add: kMaxSize_def)
  then have len1: "length (varint_put (word_of_nat (length (encode_props ps))) @ encode_props ps @ be_message e) \<le> length (be_domain e) + length (be_message e) + 60"
    using len0 by simp
  have m: "obind (new_reply_builder replyTo) (\<lambda>mb0. obind (makeError e mb0) bld_finish) = obind (bld_write (be_message e) mb) bld_finish"
    using assms d show_int_nul_free
    by (simp add: new_reply_builder_def makeError_def addProperty_int_def addProperty_Ok empty_builder_def mb_def ps_def
        blip_consts del: lit_simps)
  obtain mb' where f: "obind (bld_write (be_message e) mb) bld_finish =
      Ok (varint_put (word_of_nat (length (bld_properties mb))) @ bld_properties mb @ be_message e, mb')" "bld_flags mb' = bld_flags mb"
    using finish_payload [OF _ _ len] by (auto simp: mb_def empty_builder_def)
  have t: "bld_flags mb AND kTypeMask = kErrorType"
    by (simp add: mb_def bld_flags_def blip_consts empty_builder_def)
  have "intProperty (encode_props ps) (lit ''Error-Code'') 0 = be_code e"
    using assms nf by (intro int_of_show_int) (simp_all add: ps_def LONG_MIN_def LONG_MAX_def inj_ch)
  moreover have "property (encode_props ps) (lit ''Error-Domain'') = be_domain e"
    unfolding property_encode [OF nf] by (simp add: ps_def)
  moreover have "narrow_int (be_code e) = be_code e" using assms by (simp add: narrow_int_def)
  ultimately have "getError (bld_flags mb) (encode_props ps) (be_message e) = e"
    using t by (simp add: getError_def del: lit_simps)
  then show ?thesis using m f t len1
    by (intro exI [of _ "encode_props ps"] exI [of _ "varint_put (word_of_nat (length (encode_props ps))) @ encode_props ps @ be_message e"]
        exI [of _ mb']) (simp add: mb_def)
qed

subsection \<open>Properties\<close>

text \<open>
  C38. A message built from properties and a body is a varint with the size of the properties, the properties and the body. Looking up any
  name in the properties gives the first value added under that name, or nothing. A name or value with a NUL byte in it is refused.
\<close>

theorem message_roundtrip:
  assumes "length (encode_props ps) \<le> kMaxPropertiesSize"
  shows "if nul_free ps then
      \<exists>payload mb. obind (new_props_builder ps) (\<lambda>mb0. obind (bld_write body mb0) bld_finish) = Ok (payload, mb)
        \<and> varint_read payload = Ok (word_of_nat (length (encode_props ps)), encode_props ps @ body)
        \<and> property (encode_props ps) name = (case map_of ps name of None \<Rightarrow> [] | Some v \<Rightarrow> v)
        \<and> (\<forall>i d. map_of ps name = Some (show_int i) \<and> LONG_MIN \<le> i \<and> i \<le> LONG_MAX
             \<longrightarrow> intProperty (encode_props ps) name d = i)
    else obind (new_props_builder ps) (\<lambda>mb0. obind (bld_write body mb0) bld_finish) = Throw Terminated"
proof (cases "nul_free ps")
  case True
  have b: "new_props_builder ps = Ok (empty_builder\<lparr>bld_properties := encode_props ps\<rparr>)"
    using True by (simp add: new_props_builder_def addProperties_Ok empty_builder_def)
  show ?thesis
    using True assms finish_payload [of "empty_builder\<lparr>bld_properties := encode_props ps\<rparr>" body]
    by (auto simp: b empty_builder_def property_encode int_of_show_int)
next
  case False
  then show ?thesis by (simp add: new_props_builder_def addProperties_refuses)
qed

theorem message_roundtrip_witness:
  "let ps = [(lit ''Profile'', lit ''x''), (lit ''n'', show_int (-7)), (lit ''n'', lit ''z'')]
   in length (encode_props ps) \<le> kMaxPropertiesSize \<and> nul_free ps
      \<and> property (encode_props ps) (lit ''Profile'') = lit ''x'' \<and> intProperty (encode_props ps) (lit ''n'') 0 = -7"
proof -
  let ?ps = "[(lit ''Profile'', lit ''x''), (lit ''n'', show_int (-7)), (lit ''n'', lit ''z'')]"
  have n: "nul_free ?ps" using show_int_nul_free [of "-7"] by (simp add: ch_def)
  have l: "length (encode_props ?ps) \<le> kMaxPropertiesSize"
    by (simp add: kMaxPropertiesSize_def show_int_def show_nat.simps)
  show ?thesis
    using message_roundtrip [OF l, of "[]" "lit ''Profile''"] message_roundtrip [OF l, of "[]" "lit ''n''"] n l
    by (auto simp: Let_def inj_ch LONG_MIN_def LONG_MAX_def)
qed

text \<open>
  An error response made with \<^verbatim>\<open>makeError\<close> has the error type, and \<^verbatim>\<open>getError\<close> of its properties and body gives back domain, code and
  message.
\<close>

theorem error_response_roundtrip:
  assumes "replyTo AND kTypeMask = kRequestType" "be_domain e \<noteq> []" "0 \<notin> set (be_domain e)" "length (be_domain e) \<le> 1000"
    "be_code e \<noteq> 0" "- (2 ^ 31) \<le> be_code e" "be_code e < 2 ^ 31"
  shows "\<exists>props payload mb. obind (new_reply_builder replyTo) (\<lambda>mb0. obind (makeError e mb0) bld_finish) = Ok (payload, mb)
    \<and> varint_read payload = Ok (word_of_nat (length props), props @ be_message e)
    \<and> bld_flags mb AND kTypeMask = kErrorType
    \<and> getError (bld_flags mb) props (be_message e) = e"
  using error_payload [OF assms] by auto

theorem error_response_roundtrip_witness:
  "let e = \<lparr>be_domain = lit ''BLIP'', be_code = 404, be_message = lit ''no handler for message''\<rparr>
   in \<exists>props payload mb. obind (new_reply_builder 0) (\<lambda>mb0. obind (makeError e mb0) bld_finish) = Ok (payload, mb)
        \<and> getError (bld_flags mb) props (be_message e) = e"
proof -
  let ?e = "\<lparr>be_domain = lit ''BLIP'', be_code = 404, be_message = lit ''no handler for message''\<rparr>"
  show ?thesis using error_response_roundtrip [of 0 ?e] by (auto simp: kTypeMask_def kRequestType_def ch_def Let_def)
qed

text \<open>
  Whatever calls were made on a builder, the message it finishes is well formed: it starts with the size of its properties, which are
  within the limit and end with a NUL, as a receiver requires.
\<close>

theorem finished_well_formed:
  assumes "builder_reachable mb" "bld_finish mb = Ok (payload, mb')"
  shows "payload_ok payload"
  using bld_finish_payload [OF assms(2) builder_ok [OF assms(1)]] by simp

theorem finished_well_formed_witness:
  "payload_ok (varint_put 5 @ [97, 0, 98, 99, 0] @ [1])"
proof -
  define mb where "mb = empty_builder\<lparr>bld_properties := [97, 0, 98, 99, 0]\<rparr>"
  have "new_props_builder [([97], [98, 99])] = Ok mb" by (simp add: new_props_builder_def addProperty_Ok empty_builder_def mb_def)
  then have r: "builder_reachable mb" by (rule builder_reachable.props)
  have "bld_write [1] mb = Ok (mb\<lparr>bld_properties := [], bld_out := varint_put 5 @ [97, 0, 98, 99, 0] @ [1], bld_wroteProperties := True\<rparr>)"
    by (simp add: bld_write_def finishProperties_def mb_def empty_builder_def kMaxPropertiesSize_def)
  note r = builder_reachable.writing [OF r this]
  show ?thesis by (rule finished_well_formed [OF r]) (simp add: bld_finish_def finishProperties_def)
qed

end
