(* ===== verification/Codec.thy ===== *)
theory Codec
  imports BlipMessage
begin

text \<open>
  The codecs that BLIP frames go through (\<^verbatim>\<open>src/io/blip/Codec.cc\<close>, as compiled with miniz): the running checksum, uncompressed copying,
  compression and decompression. The functions of miniz that are called (\<^verbatim>\<open>crc32\<close>, \<^verbatim>\<open>tdefl_compress\<close>, \<^verbatim>\<open>tinfl_decompress\<close>) are
  parameters, collected in a record with the byte order of the machine. The lemmas show what the checksum covers and that the inflater's
  output buffer loses and reorders nothing.
\<close>

subsection \<open>The interface of miniz\<close>

datatype tdefl_status = TDEFL_BAD_PARAM | TDEFL_PUT_BUF_FAILED | TDEFL_OKAY
datatype tdefl_flush = TDEFL_NO_FLUSH | TDEFL_SYNC_FLUSH | TDEFL_FULL_FLUSH | TDEFL_FINISH
datatype tinfl_status = TINFL_BAD_PARAM | TINFL_ADLER32_MISMATCH | TINFL_FAILED | TINFL_OKAY

text \<open>
  \<^verbatim>\<open>tdefl_compress\<close> gets a state, input, the room for output and the flush mode, and returns its status, how much of the input it read, the
  output and the new state. \<^verbatim>\<open>tinfl_decompress\<close> gets a state, input, the output buffer, the position and room in it and whether there is
  more input to come.
\<close>

record ('d, 'i) miniz =
  z_crc32 :: "u32 \<Rightarrow> byte list \<Rightarrow> u32"
  z_crc32_init :: u32
  z_tdefl :: "'d \<Rightarrow> byte list \<Rightarrow> nat \<Rightarrow> tdefl_flush \<Rightarrow> tdefl_status \<times> nat \<times> byte list \<times> 'd"
  z_tinfl :: "'i \<Rightarrow> byte list \<Rightarrow> byte list \<Rightarrow> nat \<Rightarrow> nat \<Rightarrow> bool \<Rightarrow> tinfl_status \<times> nat \<times> byte list \<times> 'i"
  z_big :: bool

subsection \<open>Codec\<close>

datatype Mode = Raw | NoFlush | PartialFlush | SyncFlush | FullFlush | Finish | Block | Trees

text \<open>The inflater has a position to write at and a position the client has read up to in a buffer of 32768 bytes.\<close>

record 'i inflater =
  in_state :: 'i
  in_outputPos :: nat
  in_clientPos :: nat
  in_outputBuf :: "byte list"

datatype ('d, 'i) codec_kind = NullCodec | MiniZDeflater 'd | MiniZInflater "'i inflater"

record ('d, 'i) Codec =
  cd_checksum :: u32
  cd_kind :: "('d, 'i) codec_kind"

definition kChecksumSize :: nat where "kChecksumSize = 4"
definition kOutputBufSize :: nat where "kOutputBufSize = 32768"

definition new_Codec :: "('d, 'i) miniz \<Rightarrow> ('d, 'i) codec_kind \<Rightarrow> ('d, 'i) Codec" where
  "new_Codec z k = \<lparr>cd_checksum = z_crc32_init z, cd_kind = k\<rparr>"

definition new_inflater :: "('d, 'i) miniz \<Rightarrow> 'i \<Rightarrow> ('d, 'i) Codec" where
  "new_inflater z st = new_Codec z
     (MiniZInflater \<lparr>in_state = st, in_outputPos = 0, in_clientPos = 0, in_outputBuf = replicate kOutputBufSize 0\<rparr>)"

definition addToChecksum :: "('d, 'i) miniz \<Rightarrow> byte list \<Rightarrow> ('d, 'i) Codec \<Rightarrow> ('d, 'i) Codec" where
  "addToChecksum z data c = c\<lparr>cd_checksum := z_crc32 z (cd_checksum c) data\<rparr>"

definition writeChecksum :: "('d, 'i) miniz \<Rightarrow> ('d, 'i) Codec \<Rightarrow> MutableBytes \<Rightarrow> MutableBytes outcome" where
  "writeChecksum z c output =
     (let chk = store_native (z_big z) 4 (encodeBig32 (z_big z) (cd_checksum c));
          (n, output1) = MutableBytes_write chk output
      in assert_that (n \<noteq> 0) (Ok output1))"

definition readChecksum :: "('d, 'i) miniz \<Rightarrow> byte list \<Rightarrow> u32 outcome" where
  "readChecksum z input =
     (case ConstBytes_readAll 4 input of (n, chk, rest) \<Rightarrow>
        if n = 0 then raise_blip InvalidFrame else Ok (decodeBig32 (z_big z) (load_native (z_big z) chk)))"

definition verifyChecksum :: "u32 \<Rightarrow> ('d, 'i) Codec \<Rightarrow> unit outcome" where
  "verifyChecksum expectedChecksum c = (if expectedChecksum \<noteq> cd_checksum c then raise_blip BadChecksum else Ok ())"

definition readAndVerifyChecksum :: "('d, 'i) miniz \<Rightarrow> byte list \<Rightarrow> ('d, 'i) Codec \<Rightarrow> unit outcome" where
  "readAndVerifyChecksum z input c = obind (readChecksum z input) (\<lambda>chk. verifyChecksum chk c)"

text \<open>The results of a write: what was written, the rest of the input, the output and the codec.\<close>

type_synonym ('d, 'i) written = "byte list \<times> byte list \<times> MutableBytes \<times> ('d, 'i) Codec"

definition writeRaw :: "('d, 'i) miniz \<Rightarrow> byte list \<Rightarrow> MutableBytes \<Rightarrow> ('d, 'i) Codec \<Rightarrow> ('d, 'i) written outcome" where
  "writeRaw z input output c = assert_that (mb_room output > 0)
     (let (count, output1) = MutableBytes_write input output;
          c1 = addToChecksum z (take count input) c
      in obind (Bytes_without_first count input) (\<lambda>input1. Ok (take count input, input1, output1, c1)))"

subsection \<open>The deflater\<close>

fun kModeToFlush :: "Mode \<Rightarrow> tdefl_flush option" where
  "kModeToFlush NoFlush = Some TDEFL_NO_FLUSH"
| "kModeToFlush PartialFlush = Some TDEFL_SYNC_FLUSH"
| "kModeToFlush SyncFlush = Some TDEFL_SYNC_FLUSH"
| "kModeToFlush FullFlush = Some TDEFL_FULL_FLUSH"
| "kModeToFlush Finish = Some TDEFL_FINISH"
| "kModeToFlush _ = None"

record 'd deflating =
  df_state :: 'd
  df_checksum :: u32
  df_input :: "byte list"
  df_output :: MutableBytes

definition deflater_write1 :: "('d, 'i) miniz \<Rightarrow> Mode \<Rightarrow> nat \<Rightarrow> 'd deflating \<Rightarrow> 'd deflating outcome" where
  "deflater_write1 z mode maxInput d =
     (case kModeToFlush mode of
        None \<Rightarrow> Throw Terminated
      | Some flush \<Rightarrow>
          (let input = df_input d; output = df_output d;
               inSize0 = min (length input) maxInput;
               (status, inSize, bytes, st) = z_tdefl z (df_state d) (take inSize0 input) (mb_room output) flush
           in if status = TDEFL_BAD_PARAM then raise_crouton InvalidArgument
              else assert_that (status = TDEFL_OKAY)
                (obind (Bytes_first inSize input) (\<lambda>used.
                 obind (Bytes_without_first inSize input) (\<lambda>input1.
                 if length bytes \<le> mb_room output
                 then Ok \<lparr>df_state = st, df_checksum = z_crc32 z (df_checksum d) used, df_input = input1,
                          df_output = output\<lparr>mb_written := mb_written output @ bytes,
                                             mb_room := mb_room output - length bytes\<rparr>\<rparr>
                 else Throw UndefinedBehavior)))))"

definition size_t_minus :: "nat \<Rightarrow> nat \<Rightarrow> nat" where
  "size_t_minus a b = (if b \<le> a then a - b else 2 ^ 64 + a - b)"

partial_function (option) writeAndFlush_loop ::
  "('d, 'i) miniz \<Rightarrow> Mode \<Rightarrow> 'd deflating \<Rightarrow> (Mode \<times> 'd deflating) outcome option" where
  "writeAndFlush_loop z curMode d =
     (if df_input d \<noteq> [] then
        (let fits = (mb_room (df_output d) \<ge> length (df_input d) + 12);
             curMode1 = (if fits then SyncFlush else curMode);
             r = (if fits then deflater_write1 z SyncFlush (2 ^ 64 - 1) d
                  else deflater_write1 z curMode (size_t_minus (mb_room (df_output d)) 12) d)
         in case r of
              Inl e \<Rightarrow> Some (Inl e)
            | Inr d1 \<Rightarrow>
                if mb_room (df_output d1) \<le> 100 then Some (Inr (curMode1, d1))
                else writeAndFlush_loop z curMode1 d1)
      else Some (Inr (curMode, d)))"

definition writeAndFlush :: "('d, 'i) miniz \<Rightarrow> 'd deflating \<Rightarrow> 'd deflating outcome" where
  "writeAndFlush z d = obind (returns (writeAndFlush_loop z PartialFlush d)) (\<lambda>(curMode, d1).
     if curMode \<noteq> SyncFlush then deflater_write1 z SyncFlush 0 d1 else Ok d1)"

text \<open>The arguments of the last log message divide by the number of bytes consumed.\<close>

definition deflater_write ::
  "('d, 'i) miniz \<Rightarrow> 'd \<Rightarrow> byte list \<Rightarrow> MutableBytes \<Rightarrow> ('d, 'i) Codec \<Rightarrow> ('d, 'i) written outcome" where
  "deflater_write z st input output c =
     obind (writeAndFlush z \<lparr>df_state = st, df_checksum = cd_checksum c, df_input = input, df_output = output\<rparr>) (\<lambda>d.
       if length input = length (df_input d) then Throw UndefinedBehavior
       else Ok (drop (length (mb_written output)) (mb_written (df_output d)), df_input d, df_output d,
                c\<lparr>cd_checksum := df_checksum d, cd_kind := MiniZDeflater (df_state d)\<rparr>))"

subsection \<open>The inflater\<close>

fun tinfl_error :: "tinfl_status \<Rightarrow> exn option" where
  "tinfl_error TINFL_BAD_PARAM = Some (Raise DCrouton (crouton_code InvalidArgument))"
| "tinfl_error TINFL_ADLER32_MISMATCH = Some (Raise DBlipProtocol (protocol_code CompressionError))"
| "tinfl_error TINFL_FAILED = Some (Raise DCrouton (crouton_code ParseError))"
| "tinfl_error TINFL_OKAY = None"

definition inflate_some :: "('d, 'i) miniz \<Rightarrow> Mode \<Rightarrow> byte list \<Rightarrow> 'i inflater \<Rightarrow> (byte list \<times> 'i inflater) outcome" where
  "inflate_some z mode input s =
     (let pos = in_outputPos s; avail = kOutputBufSize - pos;
          (status, inSize, bytes, st) = z_tinfl z (in_state s) input (in_outputBuf s) pos avail (mode \<noteq> Finish)
      in case tinfl_error status of
           Some e \<Rightarrow> Throw e
         | None \<Rightarrow>
             if length bytes \<le> avail then
               obind (Bytes_without_first inSize input) (\<lambda>input1.
                 Ok (input1, s\<lparr>in_state := st, in_outputPos := pos + length bytes,
                              in_outputBuf := take pos (in_outputBuf s) @ bytes @ drop (pos + length bytes) (in_outputBuf s)\<rparr>))
             else Throw UndefinedBehavior)"

definition recycle :: "'i inflater \<Rightarrow> bool \<times> 'i inflater" where
  "recycle s =
     (let bufferFull = (in_outputPos s = kOutputBufSize)
      in if bufferFull \<and> in_clientPos s = in_outputPos s then (False, s\<lparr>in_outputPos := 0, in_clientPos := 0\<rparr>)
         else (bufferFull, s))"

definition inflater_write ::
  "('d, 'i) miniz \<Rightarrow> Mode \<Rightarrow> 'i inflater \<Rightarrow> byte list \<Rightarrow> MutableBytes \<Rightarrow> ('d, 'i) Codec \<Rightarrow> ('d, 'i) written outcome" where
  "inflater_write z mode s0 input output c =
     (let (bufferFull, s) = recycle s0
      in obind (if input \<noteq> [] \<and> \<not> bufferFull then inflate_some z mode input s else Ok (input, s)) (\<lambda>(input1, s1).
         let bytesAvailable = in_outputPos s1 - in_clientPos s1
         in if bytesAvailable > 0 then
              (let (resultSize, output1) =
                     MutableBytes_write (take bytesAvailable (drop (in_clientPos s1) (in_outputBuf s1))) output;
                   result = take resultSize (drop (in_clientPos s1) (in_outputBuf s1));
                   s2 = s1\<lparr>in_clientPos := in_clientPos s1 + resultSize\<rparr>
               in Ok (result, input1, output1, (addToChecksum z result c)\<lparr>cd_kind := MiniZInflater s2\<rparr>))
            else Ok ([], input1, output, c\<lparr>cd_kind := MiniZInflater s1\<rparr>)))"

subsection \<open>Virtual methods\<close>

fun codec_write :: "('d, 'i) miniz \<Rightarrow> Mode \<Rightarrow> byte list \<Rightarrow> MutableBytes \<Rightarrow> ('d, 'i) Codec \<Rightarrow> ('d, 'i) written outcome" where
  "codec_write z mode input output c =
     (if mode = Raw then writeRaw z input output c
      else case cd_kind c of
             NullCodec \<Rightarrow> raise_blip CompressionError
           | MiniZDeflater st \<Rightarrow> deflater_write z st input output c
           | MiniZInflater s \<Rightarrow> inflater_write z mode s input output c)"

definition unflushedBytes :: "('d, 'i) Codec \<Rightarrow> nat" where
  "unflushedBytes c = (case cd_kind c of MiniZInflater s \<Rightarrow> in_outputPos s - in_clientPos s | _ \<Rightarrow> 0)"

text \<open>The loop of \<^verbatim>\<open>writeAll\<close>: \<open>output\<close> is the string up to \<^verbatim>\<open>outputLen\<close>, \<open>sz\<close> is its current size.\<close>

partial_function (option) writeAll_loop ::
  "('d, 'i) miniz \<Rightarrow> Mode \<Rightarrow> byte list \<Rightarrow> byte list \<Rightarrow> nat \<Rightarrow> ('d, 'i) Codec \<Rightarrow> (byte list \<times> ('d, 'i) Codec) outcome option" where
  "writeAll_loop z mode input output sz c =
     (let sz1 = (if length output = sz then sz + min (max (4 * length input) 4096) 32768 else sz)
      in case codec_write z mode input \<lparr>mb_written = [], mb_room = sz1 - length output\<rparr> c of
           Inl e \<Rightarrow> Some (Inl e)
         | Inr (written, input1, _, c1) \<Rightarrow>
             (let output1 = output @ written
              in if input1 = [] \<and> length output1 < sz1 then Some (Inr (output1, c1))
                 else writeAll_loop z mode input1 output1 sz1 c1))"

definition writeAll :: "('d, 'i) miniz \<Rightarrow> Mode \<Rightarrow> byte list \<Rightarrow> byte list \<Rightarrow> ('d, 'i) Codec \<Rightarrow> (byte list \<times> ('d, 'i) Codec) outcome" where
  "writeAll z mode input output c =
     (if mode = Raw then Ok (output @ input, addToChecksum z input c)
      else returns (writeAll_loop z mode input output (length output) c))"

subsection \<open>What the checksum covers\<close>

definition crc_ok :: "('d, 'i) miniz \<Rightarrow> bool" where
  "crc_ok z \<longleftrightarrow> (\<forall>c. z_crc32 z c [] = c) \<and> (\<forall>c xs ys. z_crc32 z c (xs @ ys) = z_crc32 z (z_crc32 z c xs) ys)"

lemma crc_okD:
  "crc_ok z \<Longrightarrow> z_crc32 z c [] = c" "crc_ok z \<Longrightarrow> z_crc32 z c (xs @ ys) = z_crc32 z (z_crc32 z c xs) ys"
  by (simp_all add: crc_ok_def)

lemma writeRaw_Ok:
  "mb_room output > 0 \<Longrightarrow>
     writeRaw z input output c =
       (let n = min (length input) (mb_room output)
        in Ok (take n input, drop n input,
               output\<lparr>mb_written := mb_written output @ take n input, mb_room := mb_room output - n\<rparr>,
               addToChecksum z (take n input) c))"
  by (simp add: writeRaw_def MutableBytes_write_def Let_def)

lemma codec_write_Raw: "codec_write z Raw input output c = writeRaw z input output c"
  by simp

declare codec_write.simps [simp del]

text \<open>What a step of the deflater keeps: the input is used from its front, and the checksum covers what was used.\<close>

definition deflated :: "('d, 'i) miniz \<Rightarrow> 'd deflating \<Rightarrow> 'd deflating \<Rightarrow> bool" where
  "deflated z d d' \<longleftrightarrow>
     (\<exists>used. df_input d = used @ df_input d' \<and> df_checksum d' = z_crc32 z (df_checksum d) used)
     \<and> (\<exists>bytes. mb_written (df_output d') = mb_written (df_output d) @ bytes
          \<and> mb_room (df_output d) = mb_room (df_output d') + length bytes)"

lemma deflated_refl: "crc_ok z \<Longrightarrow> deflated z d d"
  by (auto simp: deflated_def crc_okD)

lemma deflated_trans: "crc_ok z \<Longrightarrow> deflated z d1 d2 \<Longrightarrow> deflated z d2 d3 \<Longrightarrow> deflated z d1 d3"
  unfolding deflated_def by (fastforce simp: crc_okD)

lemma Bytes_first_rest:
  "Bytes_first n bs = Ok a \<Longrightarrow> Bytes_without_first n bs = Ok b \<Longrightarrow> bs = a @ b"
  by (auto simp: Bytes_first_def Bytes_without_first_def split: if_splits)

lemma deflater_write1_deflated: "deflater_write1 z mode m d = Ok d' \<Longrightarrow> deflated z d d'"
  by (auto simp: deflater_write1_def deflated_def obind_eq_Ok assert_that_eq_Ok Let_def
      split: option.splits prod.splits if_splits) (metis Bytes_first_rest)

lemma writeAndFlush_loop_deflated:
  assumes ret: "writeAndFlush_loop z m d = Some r" and crc: "crc_ok z"
  shows "case r of Inl _ \<Rightarrow> True | Inr (_, d') \<Rightarrow> deflated z d d'"
proof -
  let ?P = "\<lambda>z d r. crc_ok z \<longrightarrow> (case r of Inl _ \<Rightarrow> True | Inr (_, d') \<Rightarrow> deflated z d d')"
  have "?P z d r"
  proof (rule writeAndFlush_loop.raw_induct [where P = "\<lambda>z m d r. ?P z d r", OF _ ret])
    fix f :: "('a, 'b) miniz \<Rightarrow> Mode \<Rightarrow> 'a deflating \<Rightarrow> (Mode \<times> 'a deflating) outcome option" and z m d r
    assume IH: "\<And>z m d r. f z m d = Some r \<Longrightarrow> ?P z d r"
      and eq: "(if df_input d \<noteq> [] then
        (let fits = (mb_room (df_output d) \<ge> length (df_input d) + 12);
             curMode1 = (if fits then SyncFlush else m);
             r = (if fits then deflater_write1 z SyncFlush (2 ^ 64 - 1) d
                  else deflater_write1 z m (size_t_minus (mb_room (df_output d)) 12) d)
         in case r of
              Inl e \<Rightarrow> Some (Inl e)
            | Inr d1 \<Rightarrow> if mb_room (df_output d1) \<le> 100 then Some (Inr (curMode1, d1)) else f z curMode1 d1)
      else Some (Inr (m, d))) = Some r"
    show "?P z d r"
    proof (rule impI)
      assume crc: "crc_ok z"
      let ?w = "if mb_room (df_output d) \<ge> length (df_input d) + 12 then deflater_write1 z SyncFlush (2 ^ 64 - 1) d
                  else deflater_write1 z m (size_t_minus (mb_room (df_output d)) 12) d"
      have step: "?w = Inr d1 \<Longrightarrow> deflated z d d1" for d1 by (auto dest: deflater_write1_deflated split: if_splits)
      show "case r of Inl _ \<Rightarrow> True | Inr (_, d') \<Rightarrow> deflated z d d'"
      proof (cases "df_input d = []")
        case True
        then show ?thesis using eq crc by (auto simp: deflated_refl)
      next
        case False
        show ?thesis
        proof (cases ?w)
          case (Inl e)
          then show ?thesis using eq False by (auto simp: Let_def)
        next
          case (Inr d1)
          then have "deflated z d d1" by (rule step)
          then show ?thesis using eq False Inr IH [of z _ d1 r] crc
            by (auto simp: Let_def split: if_splits sum.splits intro: deflated_trans)
        qed
      qed
    qed
  qed
  then show ?thesis using crc by simp
qed

lemma returns_Ok: "returns r = Ok x \<longleftrightarrow> r = Some (Inr x)"
  by (auto simp: returns_def split: option.splits)

lemma writeAndFlush_deflated: "writeAndFlush z d = Ok d' \<Longrightarrow> crc_ok z \<Longrightarrow> deflated z d d'"
  by (auto simp: writeAndFlush_def obind_eq_Ok returns_Ok split: if_splits
      dest!: writeAndFlush_loop_deflated deflater_write1_deflated intro: deflated_trans)


lemma deflater_write_checksum:
  assumes "deflater_write z st input output c = Ok (written, input', output', c')" "crc_ok z"
  shows "\<exists>used. input = used @ input' \<and> used \<noteq> [] \<and> cd_checksum c' = z_crc32 z (cd_checksum c) used
    \<and> mb_written output' = mb_written output @ written \<and> mb_room output = mb_room output' + length written"
proof -
  obtain d where d: "writeAndFlush z \<lparr>df_state = st, df_checksum = cd_checksum c, df_input = input, df_output = output\<rparr> = Ok d"
    "length input \<noteq> length (df_input d)" "written = drop (length (mb_written output)) (mb_written (df_output d))"
    "input' = df_input d" "output' = df_output d" "cd_checksum c' = df_checksum d"
    using assms(1) by (auto simp: deflater_write_def obind_eq_Ok split: if_splits)
  from writeAndFlush_deflated [OF d(1) assms(2)] show ?thesis using d(2-) by (auto simp: deflated_def)
qed

subsection \<open>The inflater's buffer is a FIFO\<close>

definition inflater_ok :: "'i inflater \<Rightarrow> bool" where
  "inflater_ok s \<longleftrightarrow>
     in_clientPos s \<le> in_outputPos s \<and> in_outputPos s \<le> kOutputBufSize \<and> length (in_outputBuf s) = kOutputBufSize"

text \<open>The bytes that the client has not got yet, and those a call of the inflater adds to them.\<close>

definition in_pending :: "'i inflater \<Rightarrow> byte list" where
  "in_pending s = take (in_outputPos s - in_clientPos s) (drop (in_clientPos s) (in_outputBuf s))"

definition inflated :: "('d, 'i) miniz \<Rightarrow> Mode \<Rightarrow> byte list \<Rightarrow> 'i inflater \<Rightarrow> byte list" where
  "inflated z mode input s0 =
     (let (bufferFull, s) = recycle s0
      in if input \<noteq> [] \<and> \<not> bufferFull
         then fst (snd (snd (z_tinfl z (in_state s) input (in_outputBuf s) (in_outputPos s)
                (kOutputBufSize - in_outputPos s) (mode \<noteq> Finish))))
         else [])"

lemma length_in_pending: "inflater_ok s \<Longrightarrow> length (in_pending s) = in_outputPos s - in_clientPos s"
  by (auto simp: inflater_ok_def in_pending_def)

lemma recycle_ok: "recycle s = (b, s') \<Longrightarrow> inflater_ok s \<Longrightarrow> inflater_ok s' \<and> in_pending s' = in_pending s"
  by (auto simp: recycle_def inflater_ok_def in_pending_def Let_def kOutputBufSize_def split: if_splits)

lemma take_drop_splice:
  "c \<le> p \<Longrightarrow> p + length bs \<le> length buf \<Longrightarrow>
     take (p + length bs - c) (drop c (take p buf @ bs @ drop (p + length bs) buf)) = take (p - c) (drop c buf) @ bs"
  by (simp add: drop_take)

lemma inflate_some_ok:
  assumes "inflate_some z mode input s = Ok (input', s')" "inflater_ok s"
  shows "inflater_ok s' \<and> (\<exists>bytes. bytes = fst (snd (snd (z_tinfl z (in_state s) input (in_outputBuf s) (in_outputPos s)
                (kOutputBufSize - in_outputPos s) (mode \<noteq> Finish)))) \<and> in_pending s' = in_pending s @ bytes)"
  using assms
  by (auto simp: inflate_some_def inflater_ok_def in_pending_def Let_def obind_eq_Ok take_drop_splice drop_take
      split: prod.splits option.splits if_splits)

lemma inflater_write_fifo:
  assumes w: "inflater_write z mode s input output c = Ok (written, input', output', c')" and ok: "inflater_ok s" and crc: "crc_ok z"
  shows "\<exists>s'. cd_kind c' = MiniZInflater s' \<and> inflater_ok s' \<and> written @ in_pending s' = in_pending s @ inflated z mode input s
    \<and> (written = [] \<longrightarrow> mb_room output = 0 \<or> in_pending s' = [])
    \<and> mb_written output' = mb_written output @ written \<and> mb_room output = mb_room output' + length written
    \<and> cd_checksum c' = z_crc32 z (cd_checksum c) written"
proof -
  obtain b s0 where r: "recycle s = (b, s0)" by (cases "recycle s")
  from recycle_ok [OF r ok] have s0: "inflater_ok s0" "in_pending s0 = in_pending s" by auto
  obtain input1 s1 where i: "(if input \<noteq> [] \<and> \<not> b then inflate_some z mode input s0 else Ok (input, s0)) = Ok (input1, s1)"
    using w unfolding inflater_write_def r by (auto simp: obind_eq_Ok)
  have s1: "inflater_ok s1" "in_pending s1 = in_pending s @ inflated z mode input s"
    using i s0 inflate_some_ok [of z mode input s0 input1 s1] unfolding inflated_def r by (auto split: if_splits)
  note w = w [unfolded inflater_write_def r Let_def prod.case i obind_Ok]
  show ?thesis
  proof (cases "in_outputPos s1 - in_clientPos s1 > 0")
    case True
    define n where "n = min (in_outputPos s1 - in_clientPos s1) (mb_room output)"
    have n: "n \<le> in_outputPos s1 - in_clientPos s1" by (simp add: n_def)
    have ok1: "in_clientPos s1 + n \<le> in_outputPos s1" using n True by simp
    have len: "length (in_pending s1) = in_outputPos s1 - in_clientPos s1" using s1(1) by (rule length_in_pending)
    have t: "take n (drop (in_clientPos s1) (in_outputBuf s1)) = take n (in_pending s1)"
      using n by (simp add: in_pending_def min_def)
    have p: "in_pending (s1\<lparr>in_clientPos := in_clientPos s1 + n\<rparr>) = drop n (in_pending s1)"
      by (simp add: in_pending_def drop_take add.commute)
    have "MutableBytes_write (take (in_outputPos s1 - in_clientPos s1) (drop (in_clientPos s1) (in_outputBuf s1))) output =
        (n, output\<lparr>mb_written := mb_written output @ take n (in_pending s1), mb_room := mb_room output - n\<rparr>)"
      using len by (simp add: MutableBytes_write_def in_pending_def [symmetric] n_def Let_def)
    then have res: "written = take n (in_pending s1)" "c' = (addToChecksum z written c)\<lparr>cd_kind := MiniZInflater (s1\<lparr>in_clientPos := in_clientPos s1 + n\<rparr>)\<rparr>"
      "output' = output\<lparr>mb_written := mb_written output @ written, mb_room := mb_room output - n\<rparr>"
      using w True t by auto
    have w0: "written = [] \<longrightarrow> mb_room output = 0" using res(1) len n True by (auto simp: n_def)
    have l: "length written = n" using res(1) len n by simp
    have s2: "inflater_ok (s1\<lparr>in_clientPos := in_clientPos s1 + n\<rparr>)" using s1(1) ok1 by (simp add: inflater_ok_def)
    have o: "mb_written output' = mb_written output @ written" "mb_room output = mb_room output' + length written"
      unfolding l using res(3) by (simp_all add: n_def)
    have fifo: "written @ in_pending (s1\<lparr>in_clientPos := in_clientPos s1 + n\<rparr>) = in_pending s @ inflated z mode input s"
      unfolding p res(1) append_take_drop_id by (rule s1(2))
    show ?thesis unfolding res(2)
      by (intro exI [of _ "s1\<lparr>in_clientPos := in_clientPos s1 + n\<rparr>"] conjI fifo o s2) (use w0 in \<open>simp_all add: addToChecksum_def\<close>)
  next
    case False
    then have "in_pending s1 = []" by (simp add: in_pending_def)
    then show ?thesis using w False s1 crc by (auto simp: crc_okD)
  qed
qed

subsection \<open>A concrete instance\<close>

text \<open>The CRC-32 of zlib and a pair of stream functions that copy, for the examples.\<close>

definition crc_byte :: "u32 \<Rightarrow> byte \<Rightarrow> u32" where
  "crc_byte c b = ((\<lambda>x. if bit x 0 then drop_bit 1 x XOR 0xEDB88320 else drop_bit 1 x) ^^ 8) (c XOR ucast b)"

definition crc32 :: "u32 \<Rightarrow> byte list \<Rightarrow> u32" where
  "crc32 c bs = NOT (foldl crc_byte (NOT c) bs)"

definition stored_miniz :: "(unit, unit) miniz" where
  "stored_miniz = \<lparr>z_crc32 = crc32, z_crc32_init = 0,
     z_tdefl = (\<lambda>_ input room _. (TDEFL_OKAY, min (length input) room, take room input, ())),
     z_tinfl = (\<lambda>_ input _ _ avail _. (TINFL_OKAY, min (length input) avail, take avail input, ())), z_big = False\<rparr>"

lemma crc_ok_stored [simp]: "crc_ok stored_miniz"
  by (simp add: crc_ok_def stored_miniz_def crc32_def)

subsection \<open>Properties\<close>

text \<open>The output and checksum of a series of calls of the inflater with the given modes, inputs and rooms; also what miniz produced.\<close>

fun inflate_calls ::
  "('d, 'i) miniz \<Rightarrow> (Mode \<times> byte list \<times> nat) list \<Rightarrow> ('d, 'i) Codec \<Rightarrow> (byte list \<times> byte list \<times> ('d, 'i) Codec) outcome" where
  "inflate_calls z [] c = Ok ([], [], c)"
| "inflate_calls z ((mode, input, room) # calls) c =
     obind (codec_write z mode input \<lparr>mb_written = [], mb_room = room\<rparr> c) (\<lambda>(written, _, _, c1).
     obind (inflate_calls z calls c1) (\<lambda>(w, p, c2).
       Ok (written @ w, (case cd_kind c of MiniZInflater s \<Rightarrow> inflated z mode input s | _ \<Rightarrow> []) @ p, c2)))"

lemma inflate_calls_fifo:
  "inflate_calls z calls c = Ok (w, p, c') \<Longrightarrow> crc_ok z \<Longrightarrow> cd_kind c = MiniZInflater s \<Longrightarrow> inflater_ok s \<Longrightarrow>
   \<forall>(mode, _) \<in> set calls. mode \<noteq> Raw \<Longrightarrow>
     \<exists>s'. cd_kind c' = MiniZInflater s' \<and> inflater_ok s' \<and> w @ in_pending s' = in_pending s @ p
       \<and> cd_checksum c' = z_crc32 z (cd_checksum c) w"
proof (induction z calls c arbitrary: w p s rule: inflate_calls.induct)
  case (1 z c)
  then show ?case by (auto simp: crc_okD)
next
  case (2 z mode input room calls c)
  from 2(2,4,6) obtain written input1 out1 c1 w2 p2 where
    w: "inflater_write z mode s input \<lparr>mb_written = [], mb_room = room\<rparr> c = Ok (written, input1, out1, c1)"
    and calls: "inflate_calls z calls c1 = Ok (w2, p2, c')" and wp: "w = written @ w2" "p = inflated z mode input s @ p2"
    by (auto simp: obind_eq_Ok codec_write.simps)
  from inflater_write_fifo [OF w 2(5,3)] obtain s1 where s1: "cd_kind c1 = MiniZInflater s1" "inflater_ok s1"
    "written @ in_pending s1 = in_pending s @ inflated z mode input s" "cd_checksum c1 = z_crc32 z (cd_checksum c) written" by blast
  from 2(1) [OF calls 2(3) s1(1,2)] 2(6) obtain s2 where
    s2: "cd_kind c' = MiniZInflater s2" "inflater_ok s2" "w2 @ in_pending s2 = in_pending s1 @ p2"
      "cd_checksum c' = z_crc32 z (cd_checksum c1) w2" by auto
  have "w @ in_pending s2 = in_pending s @ p"
    unfolding wp append_assoc s2(3) by (simp flip: append_assoc add: s1(3))
  then show ?case using s2 s1 2(3) wp by (auto simp: crc_okD)
qed

text \<open>
  Whatever calls are made of an inflater, with any room for the output, the client gets exactly the bytes miniz produced, in order, apart
  from those still in the inflater's buffer; the recycling of the buffer loses nothing, and the checksum is that of the bytes handed out.
\<close>

theorem inflater_stream:
  assumes "crc_ok z" "\<forall>(mode, _) \<in> set calls. mode \<noteq> Raw" "inflate_calls z calls (new_inflater z st) = Ok (w, p, c)"
  shows "\<exists>s. cd_kind c = MiniZInflater s \<and> w @ in_pending s = p \<and> length (in_pending s) = unflushedBytes c
    \<and> cd_checksum c = z_crc32 z (z_crc32_init z) w"
proof -
  let ?s = "\<lparr>in_state = st, in_outputPos = 0, in_clientPos = 0, in_outputBuf = replicate kOutputBufSize 0\<rparr>"
  have k: "cd_kind (new_inflater z st) = MiniZInflater ?s" "inflater_ok ?s" "in_pending ?s = []"
    by (simp_all add: new_inflater_def new_Codec_def inflater_ok_def in_pending_def)
  from inflate_calls_fifo [OF assms(3,1) k(1,2) assms(2)] show ?thesis
    by (auto simp: k(3) length_in_pending unflushedBytes_def new_inflater_def new_Codec_def)
qed

theorem inflater_stream_witness:
  "\<exists>c. inflate_calls stored_miniz [(SyncFlush, [1, 2, 3], 2), (SyncFlush, [], 5)] (new_inflater stored_miniz ()) = Ok ([1, 2, 3], [1, 2, 3], c)
    \<and> cd_checksum c = crc32 0 [1, 2, 3]"
proof -
  have "\<exists>c. inflate_calls stored_miniz [(SyncFlush, [1, 2, 3], 2), (SyncFlush, [], 5)] (new_inflater stored_miniz ()) = Ok ([1, 2, 3], [1, 2, 3], c)"
    by (simp add: codec_write.simps new_inflater_def new_Codec_def inflater_write_def recycle_def inflate_some_def stored_miniz_def
        inflated_def MutableBytes_write_def kOutputBufSize_def addToChecksum_def Let_def)
  then obtain c where c: "inflate_calls stored_miniz [(SyncFlush, [1, 2, 3], 2), (SyncFlush, [], 5)] (new_inflater stored_miniz ()) =
      Ok ([1, 2, 3], [1, 2, 3], c)" ..
  from inflater_stream [OF crc_ok_stored _ c] show ?thesis using c by (auto simp: stored_miniz_def)
qed

text \<open>
  A successful write of any codec adds to the output what it returns and never more than there is room for, and takes its input from the
  front. The checksum is continued with the unencoded bytes: those taken from the input, or for an inflater those written.
\<close>

theorem codec_write_correct:
  assumes "crc_ok z" "case cd_kind c of MiniZInflater s \<Rightarrow> inflater_ok s | _ \<Rightarrow> True"
    "codec_write z mode input output c = Ok (written, input', output', c')"
  shows "mb_written output' = mb_written output @ written \<and> mb_room output = mb_room output' + length written
    \<and> (\<exists>used. input = used @ input'
         \<and> cd_checksum c' = z_crc32 z (cd_checksum c)
             (if mode \<noteq> Raw \<and> (\<exists>s. cd_kind c = MiniZInflater s) then written else used))"
proof (cases "mode = Raw")
  case True
  then show ?thesis using assms(3)
    by (auto simp: codec_write.simps writeRaw_def assert_that_eq_Ok MutableBytes_write_def addToChecksum_def Let_def
        intro!: exI [of _ "take (min (length input) (mb_room output)) input"])
next
  case False
  show ?thesis
  proof (cases "cd_kind c")
    case NullCodec
    then show ?thesis using assms(3) False by (simp add: codec_write.simps raise_blip_def)
  next
    case (MiniZDeflater st)
    then show ?thesis using assms(3) False deflater_write_checksum [OF _ assms(1)] by (fastforce simp: codec_write.simps)
  next
    case (MiniZInflater s)
    then have w: "inflater_write z mode s input output c = Ok (written, input', output', c')" using assms(3) False
      by (simp add: codec_write.simps)
    have "\<exists>used. input = used @ input'"
      using w by (auto simp: inflater_write_def inflate_some_def obind_eq_Ok Let_def Bytes_without_first_def Bytes_last_def
          split: prod.splits if_splits option.splits intro: append_take_drop_id [symmetric])
    then show ?thesis using inflater_write_fifo [OF w _ assms(1)] MiniZInflater assms(2) False by auto
  qed
qed

theorem codec_write_correct_witness:
  "\<exists>c. codec_write stored_miniz SyncFlush [1, 2, 3] \<lparr>mb_written = [], mb_room = 50\<rparr> (new_Codec stored_miniz (MiniZDeflater ()))
      = Ok ([1, 2, 3], [], \<lparr>mb_written = [1, 2, 3], mb_room = 47\<rparr>, c) \<and> cd_checksum c = crc32 0 [1, 2, 3]"
proof -
  have "\<exists>c. codec_write stored_miniz SyncFlush [1, 2, 3] \<lparr>mb_written = [], mb_room = 50\<rparr> (new_Codec stored_miniz (MiniZDeflater ()))
      = Ok ([1, 2, 3], [], \<lparr>mb_written = [1, 2, 3], mb_room = 47\<rparr>, c)"
    by (simp add: codec_write.simps new_Codec_def deflater_write_def writeAndFlush_def writeAndFlush_loop.simps deflater_write1_def
        stored_miniz_def returns_def Let_def)
  then obtain c where c: "codec_write stored_miniz SyncFlush [1, 2, 3] \<lparr>mb_written = [], mb_room = 50\<rparr>
      (new_Codec stored_miniz (MiniZDeflater ())) = Ok ([1, 2, 3], [], \<lparr>mb_written = [1, 2, 3], mb_room = 47\<rparr>, c)" ..
  from codec_write_correct [OF crc_ok_stored _ c] show ?thesis using c by (auto simp: new_Codec_def stored_miniz_def)
qed

end
