(* ===== verification/BlipIO.thy ===== *)
theory BlipIO
  imports Codec Queue "HOL-Library.AList"
begin

text \<open>
  The BLIP engine: \<^verbatim>\<open>src/io/blip/MessageOut.cc\<close>, the receiving half of \<^verbatim>\<open>Message.cc\<close>, \<^verbatim>\<open>BLIPIO.cc\<close> and \<^verbatim>\<open>Dispatcher.cc\<close>. An outgoing
  message is in one place at a time, so the boxes hold its record; \<open>mo_id\<close> is its identity as an object. An incoming message is in one of the
  maps of pending messages until its last frame. The futures of responses are numbers, and the state records how they were resolved. The
  order of the association lists stands for the unspecified order of the \<^verbatim>\<open>unordered_map\<close>s.
\<close>

subsection \<open>Message\<close>

definition msg_type :: "byte \<Rightarrow> byte" where "msg_type f = f AND kTypeMask"
definition hasFlag :: "byte \<Rightarrow> byte \<Rightarrow> bool" where "hasFlag f x \<longleftrightarrow> f AND x \<noteq> 0"
definition isResponse :: "byte \<Rightarrow> bool" where "isResponse f \<longleftrightarrow> msg_type f \<ge> kResponseType"
definition isAck :: "byte \<Rightarrow> bool" where "isAck f \<longleftrightarrow> msg_type f = kAckRequestType \<or> msg_type f = kAckResponseType"
definition message_flags :: "byte \<Rightarrow> byte" where "message_flags f = f AND NOT kMoreComing"

abbreviation "is_urgent f \<equiv> hasFlag f kUrgent"
abbreviation "noReply f \<equiv> hasFlag f kNoReply"

subsection \<open>MessageOut\<close>

record MessageOut =
  mo_id :: nat
  mo_flags :: byte
  mo_number :: u64
  mo_payload :: "byte list"
  mo_unsentPayload :: "byte list"
  mo_uncompressedBytesSent :: u32
  mo_bytesSent :: u32
  mo_unackedBytes :: u32
  mo_onResponse :: "nat option"

definition new_MessageOut :: "nat \<Rightarrow> byte \<Rightarrow> byte list \<Rightarrow> u64 \<Rightarrow> MessageOut outcome" where
  "new_MessageOut i flags payload number = assert_that (length payload \<le> 2 ^ 32 - 1)
     (Ok \<lparr>mo_id = i, mo_flags = message_flags flags, mo_number = number, mo_payload = payload, mo_unsentPayload = payload,
          mo_uncompressedBytesSent = 0, mo_bytesSent = 0, mo_unackedBytes = 0, mo_onResponse = None\<rparr>)"

definition new_MessageOut_built :: "nat \<Rightarrow> MessageBuilder \<Rightarrow> u64 \<Rightarrow> (MessageOut \<times> MessageBuilder) outcome" where
  "new_MessageOut_built i mb number = obind (bld_finish mb) (\<lambda>(payload, mb1).
     obind (new_MessageOut i 0 payload number) (\<lambda>m. Ok (m\<lparr>mo_flags := bld_flags mb1\<rparr>, mb1)))"

definition isNew :: "MessageOut \<Rightarrow> bool" where "isNew m \<longleftrightarrow> mo_bytesSent m = 0"
definition kMaxUnackedBytes :: u32 where "kMaxUnackedBytes = 128000"
definition needsAck :: "MessageOut \<Rightarrow> bool" where "needsAck m \<longleftrightarrow> mo_unackedBytes m \<ge> kMaxUnackedBytes"
definition hasMoreDataToSend :: "MessageOut \<Rightarrow> bool" where "hasMoreDataToSend m \<longleftrightarrow> length (mo_unsentPayload m) > 0"

partial_function (option) frame_loop ::
  "('d, 'i) miniz \<Rightarrow> Mode \<Rightarrow> byte list \<Rightarrow> MutableBytes \<Rightarrow> u32 \<Rightarrow> ('d, 'i) Codec
     \<Rightarrow> (byte list \<times> MutableBytes \<times> u32 \<times> ('d, 'i) Codec) outcome option" where
  "frame_loop z mode data frame sent c =
     (if data = [] then Some (Inr (data, frame, sent, c))
      else case codec_write z mode data frame c of
             Inl e \<Rightarrow> Some (Inl e)
           | Inr (_, data1, frame1, c1) \<Rightarrow>
               (let sent1 = sent + word_of_nat (length data) - word_of_nat (length data1)
                in if mb_room frame1 \<ge> 1024 then frame_loop z mode data1 frame1 sent1 c1
                   else Some (Inr (data1, frame1, sent1, c1))))"

definition deflate_trailer :: "byte list" where "deflate_trailer = [0x00, 0x00, 0xFF, 0xFF]"

definition trim_trailer :: "nat \<Rightarrow> MutableBytes \<Rightarrow> MutableBytes outcome" where
  "trim_trailer bytesWritten frame =
     (if bytesWritten > 0 then
        assert_that (bytesWritten \<ge> 4 \<and> drop (length (mb_written frame) - 4) (mb_written frame) = deflate_trailer)
          (Ok (frame\<lparr>mb_written := take (length (mb_written frame) - 4) (mb_written frame), mb_room := mb_room frame + 4\<rparr>))
      else Ok frame)"

definition nextFrameToSend ::
  "('d, 'i) miniz \<Rightarrow> MessageOut \<Rightarrow> ('d, 'i) Codec \<Rightarrow> MutableBytes \<Rightarrow> (byte \<times> MutableBytes \<times> MessageOut \<times> ('d, 'i) Codec) outcome" where
  "nextFrameToSend z msg codec dst =
     (if isAck (mo_flags msg) then
        (let (n, dst1) = MutableBytes_write (mo_unsentPayload msg) dst
         in Ok (mo_flags msg, dst1, msg\<lparr>mo_bytesSent := mo_bytesSent msg + word_of_nat n\<rparr>, codec))
      else
        (let frameSize = mb_room dst;
             frameRoom = size_t_minus frameSize kChecksumSize;
             mode = (if hasFlag (mo_flags msg) kCompressed then SyncFlush else Raw)
         in obind (returns (frame_loop z mode (mo_unsentPayload msg) (dst\<lparr>mb_room := frameRoom\<rparr>) (mo_uncompressedBytesSent msg) codec))
              (\<lambda>(data, frame, sent, codec1).
            if unflushedBytes codec1 > 0 then raise_blip CompressionError
            else obind (if mode = SyncFlush then trim_trailer (frameRoom - mb_room frame) frame else Ok frame) (\<lambda>frame1.
            obind (writeChecksum z codec1 (frame1\<lparr>mb_room := mb_room frame1 + kChecksumSize\<rparr>)) (\<lambda>dst1.
              let n = frameSize - mb_room dst1;
                  msg1 = msg\<lparr>mo_unsentPayload := data, mo_uncompressedBytesSent := sent, mo_bytesSent := mo_bytesSent msg + word_of_nat n,
                             mo_unackedBytes := mo_unackedBytes msg + word_of_nat n\<rparr>
              in Ok (if hasMoreDataToSend msg1 then mo_flags msg OR kMoreComing else mo_flags msg, dst1, msg1, codec1))))))"

definition mo_receivedAck :: "u32 \<Rightarrow> MessageOut \<Rightarrow> MessageOut" where
  "mo_receivedAck byteCount m =
     (if byteCount \<le> mo_bytesSent m then m\<lparr>mo_unackedBytes := min (mo_unackedBytes m) (mo_bytesSent m - byteCount)\<rparr> else m)"

subsection \<open>MessageIn\<close>

record MessageIn =
  mi_flags :: byte
  mi_number :: u64
  mi_rawBytesReceived :: u64
  mi_propertiesSize :: nat
  mi_unackedBytes :: u32
  mi_properties :: "byte list"
  mi_body :: "byte list"
  mi_outgoingSize :: u64
  mi_onResponse :: "nat option"
  mi_gotProperties :: bool
  mi_complete :: bool
  mi_responded :: bool

definition new_MessageIn :: "byte \<Rightarrow> u64 \<Rightarrow> u64 \<Rightarrow> nat option \<Rightarrow> MessageIn" where
  "new_MessageIn flags number outgoingSize onResponse =
     \<lparr>mi_flags = message_flags flags, mi_number = number, mi_rawBytesReceived = 0, mi_propertiesSize = 0, mi_unackedBytes = 0,
      mi_properties = [], mi_body = [], mi_outgoingSize = outgoingSize, mi_onResponse = onResponse, mi_gotProperties = False,
      mi_complete = False, mi_responded = False\<rparr>"

text \<open>\<^verbatim>\<open>createResponse\<close> moves the future's provider from the request to the response.\<close>

definition createResponse :: "MessageOut \<Rightarrow> (MessageIn \<times> MessageOut) option" where
  "createResponse m =
     (if msg_type (mo_flags m) \<noteq> kRequestType \<or> noReply (mo_flags m) then None
      else Some (new_MessageIn kResponseType (mo_number m) (ucast (mo_uncompressedBytesSent m)) (mo_onResponse m),
                 m\<lparr>mo_onResponse := None\<rparr>))"

datatype ReceiveState = kOther | kBeginning | kEnd

subsection \<open>BLIPIO: state and queues\<close>

text \<open>
  \<open>io_outputCodec\<close> and \<open>io_generator\<close> are the locals of the coroutine \<^verbatim>\<open>frameGenerator\<close>. \<open>io_nextId\<close> numbers objects and futures, and
  \<open>io_resolved\<close> lists the futures that have a result.
\<close>

record ('d, 'i) BLIPIO =
  io_inputCodec :: "('d, 'i) Codec"
  io_outbox :: "MessageOut aqueue"
  io_wayOutBox :: "MessageOut aqueue"
  io_icebox :: "MessageOut list"
  io_pendingRequests :: "(u64 \<times> MessageIn) list"
  io_pendingResponses :: "(u64 \<times> MessageIn) list"
  io_lastMessageNo :: u64
  io_numRequestsReceived :: u64
  io_sendOpen :: bool
  io_receiveOpen :: bool
  io_maxOutboxDepth :: nat
  io_totalOutboxDepth :: nat
  io_countOutboxDepth :: nat
  io_totalBytesWritten :: u64
  io_totalBytesRead :: u64
  io_outputCodec :: "('d, 'i) Codec"
  io_generator :: gen_pc
  io_nextId :: nat
  io_resolved :: "(nat \<times> MessageIn option) list"

definition kMaxFrameOverhead :: nat where "kMaxFrameOverhead = kMaxSize + 1 + kChecksumSize"
definition kDefaultFrameSize :: nat where "kDefaultFrameSize = 4096"
definition kBigFrameSize :: nat where "kBigFrameSize = 32768"
definition kOutboxCapacity :: nat where "kOutboxCapacity = 10"
definition kIncomingAckThreshold :: nat where "kIncomingAckThreshold = 50000"

definition new_BLIPIO :: "('d, 'i) miniz \<Rightarrow> bool \<Rightarrow> 'd \<Rightarrow> 'i \<Rightarrow> ('d, 'i) BLIPIO" where
  "new_BLIPIO z enableCompression d i =
     \<lparr>io_inputCodec = new_inflater z i, io_outbox = new_aqueue None, io_wayOutBox = new_aqueue None, io_icebox = [],
      io_pendingRequests = [], io_pendingResponses = [], io_lastMessageNo = 0, io_numRequestsReceived = 0, io_sendOpen = True,
      io_receiveOpen = True, io_maxOutboxDepth = 0, io_totalOutboxDepth = 0, io_countOutboxDepth = 0, io_totalBytesWritten = 0,
      io_totalBytesRead = 0, io_outputCodec = new_Codec z (if enableCompression then MiniZDeflater d else NullCodec),
      io_generator = GStart, io_nextId = 0, io_resolved = []\<rparr>"

definition hasOutput :: "('d, 'i) BLIPIO \<Rightarrow> bool" where
  "hasOutput io \<longleftrightarrow> aq_queue (io_outbox io) \<noteq> [] \<or> aq_queue (io_wayOutBox io) \<noteq> [] \<or> io_icebox io \<noteq> []"

text \<open>Setting a result twice throws, as shown in theory \<open>Future\<close>.\<close>

definition resolve :: "nat \<Rightarrow> MessageIn option \<Rightarrow> ('d, 'i) BLIPIO \<Rightarrow> ('d, 'i) BLIPIO outcome" where
  "resolve f r io =
     (if f \<in> fst ` set (io_resolved io) then raise_crouton LogicError
      else Ok (io\<lparr>io_resolved := io_resolved io @ [(f, r)]\<rparr>))"

definition noResponse :: "MessageOut \<Rightarrow> ('d, 'i) BLIPIO \<Rightarrow> ('d, 'i) BLIPIO outcome" where
  "noResponse m io = (case mo_onResponse m of None \<Rightarrow> Ok io | Some f \<Rightarrow> resolve f None io)"

definition mo_disconnected :: "MessageOut \<Rightarrow> ('d, 'i) BLIPIO \<Rightarrow> ('d, 'i) BLIPIO outcome" where
  "mo_disconnected m io = noResponse m io"

definition mi_disconnected :: "MessageIn \<Rightarrow> ('d, 'i) BLIPIO \<Rightarrow> ('d, 'i) BLIPIO outcome" where
  "mi_disconnected m io = (case mi_onResponse m of None \<Rightarrow> Ok io | Some f \<Rightarrow> resolve f None io)"

definition same_object :: "MessageOut \<Rightarrow> MessageOut \<Rightarrow> bool" where
  "same_object m m' \<longleftrightarrow> mo_id m = mo_id m'"

definition findMessage :: "u64 \<Rightarrow> bool \<Rightarrow> MessageOut aqueue \<Rightarrow> MessageOut option" where
  "findMessage msgNo isResp q = aq_find_if (\<lambda>m. mo_number m = msgNo \<and> isResponse (mo_flags m) = isResp) q"

text \<open>The loop of \<^verbatim>\<open>requeue\<close> with the iterator just before \<open>Suc j\<close>; the result is the position to insert at.\<close>

fun requeue_loop :: "bool \<Rightarrow> MessageOut list \<Rightarrow> nat \<Rightarrow> nat" where
  "requeue_loop new q 0 = 0"
| "requeue_loop new q (Suc j) =
     (if is_urgent (mo_flags (q ! j)) then (if j + 1 \<noteq> length q then j + 2 else j + 1)
      else if new \<and> isNew (q ! j) then j + 1
      else if j = 0 then 1
      else requeue_loop new q j)"

definition requeue_position :: "MessageOut \<Rightarrow> MessageOut list \<Rightarrow> nat" where
  "requeue_position msg q =
     (if is_urgent (mo_flags msg) \<and> length q > 1 then requeue_loop (isNew msg) q (length q) else length q)"

definition requeue :: "MessageOut \<Rightarrow> MessageOut aqueue \<Rightarrow> MessageOut aqueue outcome" where
  "requeue msg q = assert_that (aq_find_if (same_object msg) q = None)
     (Ok (snd (aq_pushBefore (requeue_position msg (aq_queue q)) msg q)))"

definition outbox_urgent :: "MessageOut aqueue \<Rightarrow> bool" where
  "outbox_urgent q = (case aq_peek q of None \<Rightarrow> False | Some m \<Rightarrow> is_urgent (mo_flags m))"

subsection \<open>BLIPIO: sending\<close>

definition queueMessage :: "MessageOut \<Rightarrow> ('d, 'i) BLIPIO \<Rightarrow> (bool \<times> ('d, 'i) BLIPIO) outcome" where
  "queueMessage msg io =
     (if \<not> io_sendOpen io then obind (mo_disconnected msg io) (\<lambda>io1. Ok (False, io1))
      else
        (let n = length (aq_queue (io_outbox io)) + 1
         in obind (requeue msg (io_outbox io)) (\<lambda>q. Ok (True, io\<lparr>io_maxOutboxDepth := max (io_maxOutboxDepth io) n,
              io_totalOutboxDepth := io_totalOutboxDepth io + n, io_countOutboxDepth := io_countOutboxDepth io + 1, io_outbox := q\<rparr>))))"

definition io_send :: "MessageOut \<Rightarrow> ('d, 'i) BLIPIO \<Rightarrow> (bool \<times> ('d, 'i) BLIPIO) outcome" where
  "io_send msg io =
     (if is_urgent (mo_flags msg) \<or> length (aq_queue (io_outbox io)) < kOutboxCapacity then queueMessage msg io
      else case aq_push msg (io_wayOutBox io) of (ok, q) \<Rightarrow> Ok (ok, io\<lparr>io_wayOutBox := q\<rparr>))"

text \<open>\<^verbatim>\<open>onResponse()\<close> is called on the message wherever it is now; a message that was refused is in no box.\<close>

definition set_onResponse :: "nat \<Rightarrow> nat \<Rightarrow> MessageOut list \<Rightarrow> MessageOut list" where
  "set_onResponse i f ms = map (\<lambda>m. if mo_id m = i then m\<lparr>mo_onResponse := Some f\<rparr> else m) ms"

definition sendRequest :: "MessageBuilder \<Rightarrow> ('d, 'i) BLIPIO \<Rightarrow> (nat \<times> MessageBuilder \<times> ('d, 'i) BLIPIO) outcome" where
  "sendRequest mb io =
     (let i = io_nextId io; f = io_nextId io + 1
      in obind (new_MessageOut_built i mb 0) (\<lambda>(message, mb1).
         assert_that (msg_type (mo_flags message) = kRequestType)
           (obind (io_send message (io\<lparr>io_nextId := f + 1\<rparr>)) (\<lambda>(_, io1).
              Ok (f, mb1, io1\<lparr>io_outbox := (io_outbox io1)\<lparr>aq_queue := set_onResponse i f (aq_queue (io_outbox io1))\<rparr>,
                              io_wayOutBox := (io_wayOutBox io1)\<lparr>aq_queue := set_onResponse i f (aq_queue (io_wayOutBox io1))\<rparr>\<rparr>)))))"

definition freezeMessage :: "MessageOut \<Rightarrow> ('d, 'i) BLIPIO \<Rightarrow> ('d, 'i) BLIPIO outcome" where
  "freezeMessage msg io =
     assert_that (aq_find_if (same_object msg) (io_outbox io) = None \<and> List.find (same_object msg) (io_icebox io) = None)
       (Ok (io\<lparr>io_icebox := io_icebox io @ [msg]\<rparr>))"

definition thawMessage :: "MessageOut \<Rightarrow> ('d, 'i) BLIPIO \<Rightarrow> ('d, 'i) BLIPIO outcome" where
  "thawMessage msg io =
     assert_that (List.find (same_object msg) (io_icebox io) \<noteq> None)
       (obind (requeue msg (io_outbox io)) (\<lambda>q.
          Ok (io\<lparr>io_icebox := filter (\<lambda>m. \<not> same_object msg m) (io_icebox io), io_outbox := q\<rparr>)))"

definition assign_number :: "MessageOut \<Rightarrow> ('d, 'i) BLIPIO \<Rightarrow> MessageOut \<times> ('d, 'i) BLIPIO" where
  "assign_number msg io =
     (if mo_number msg = 0
      then (msg\<lparr>mo_number := io_lastMessageNo io + 1\<rparr>, io\<lparr>io_lastMessageNo := io_lastMessageNo io + 1\<rparr>)
      else (msg, io))"

definition frame_room :: "MessageOut \<Rightarrow> ('d, 'i) BLIPIO \<Rightarrow> nat" where
  "frame_room msg io =
     (if is_urgent (mo_flags msg) \<or> \<not> outbox_urgent (io_outbox io) then kBigFrameSize else kDefaultFrameSize) + kMaxFrameOverhead"

text \<open>What \<^verbatim>\<open>createNextFrame\<close> does with the message after its frame has been written.\<close>

definition message_sent :: "MessageOut \<Rightarrow> ('d, 'i) BLIPIO \<Rightarrow> ('d, 'i) BLIPIO outcome" where
  "message_sent msg io =
     obind (aq_maybePop (io_wayOutBox io)) (\<lambda>(newMsg, way).
     obind (case newMsg of None \<Rightarrow> Ok (io\<lparr>io_wayOutBox := way\<rparr>)
              | Some m \<Rightarrow> obind (queueMessage m (io\<lparr>io_wayOutBox := way\<rparr>)) (\<lambda>(_, io1). Ok io1)) (\<lambda>io1.
     case createResponse msg of
       Some (response, _) \<Rightarrow>
         Ok (if map_of (io_pendingResponses io1) (mi_number response) = None
             then io1\<lparr>io_pendingResponses := AList.update (mi_number response) response (io_pendingResponses io1)\<rparr> else io1)
     | None \<Rightarrow> noResponse msg io1))"

definition frame_sent :: "byte \<Rightarrow> MessageOut \<Rightarrow> ('d, 'i) BLIPIO \<Rightarrow> ('d, 'i) BLIPIO outcome" where
  "frame_sent frameFlags msg io =
     (if isAck (mo_flags msg) then Ok io
      else if hasFlag frameFlags kMoreComing then
        (if needsAck msg \<and> io_receiveOpen io then freezeMessage msg io
         else obind (requeue msg (io_outbox io)) (\<lambda>q. Ok (io\<lparr>io_outbox := q\<rparr>)))
      else message_sent msg io)"

definition createNextFrame :: "('d, 'i) miniz \<Rightarrow> MessageOut \<Rightarrow> ('d, 'i) BLIPIO \<Rightarrow> (byte list \<times> ('d, 'i) BLIPIO) outcome" where
  "createNextFrame z msg0 io0 =
     (let (msg, io) = assign_number msg0 io0; maxSize = frame_room msg io
      in obind (varint_write (mo_number msg) \<lparr>mb_written = [], mb_room = maxSize\<rparr>) (\<lambda>out.
         obind (nextFrameToSend z msg (io_outputCodec io) \<lparr>mb_written = [], mb_room = mb_room out - 1\<rparr>)
           (\<lambda>(frameFlags, out1, msg1, codec).
         obind (frame_sent frameFlags msg1 (io\<lparr>io_outputCodec := codec\<rparr>)) (\<lambda>io1.
           Ok (mb_written out @ frameFlags # mb_written out1, io1)))))"

text \<open>
  \<^verbatim>\<open>frameGenerator\<close>, from one suspension to the next. \<open>g\<close> is its handle. It tests the condition of its loop unless it was waiting for
  the queue, and leaves the loop when the queue's generator returns an error or ends.
\<close>

datatype frame_event = FrameYielded "byte list" | FramesBlocked | FramesDone

definition frameGenerator :: "('d, 'i) miniz \<Rightarrow> coro_handle \<Rightarrow> ('d, 'i) BLIPIO \<Rightarrow> (frame_event \<times> ('d, 'i) BLIPIO) outcome" where
  "frameGenerator z g io =
     (if io_generator io = GAwaiting \<or> io_sendOpen io \<or> hasOutput io then
        obind (gen_run g (io_generator io) (io_outbox io)) (\<lambda>(ev, pc, q).
          let io1 = io\<lparr>io_generator := pc, io_outbox := q\<rparr>
          in case ev of
               GenItem msg \<Rightarrow> obind (createNextFrame z msg io1) (\<lambda>(frame, io2).
                 Ok (FrameYielded frame, io2\<lparr>io_totalBytesWritten := io_totalBytesWritten io2 + word_of_nat (length frame)\<rparr>))
             | GenBlocked \<Rightarrow> Ok (FramesBlocked, io1)
             | GenError _ \<Rightarrow> Ok (FramesDone, io1)
             | GenFinished \<Rightarrow> Ok (FramesDone, io1))
      else Ok (FramesDone, io))"

subsection \<open>BLIPIO: receiving\<close>

definition mi_acknowledge :: "nat \<Rightarrow> MessageIn \<Rightarrow> ('d, 'i) BLIPIO \<Rightarrow> (MessageIn \<times> ('d, 'i) BLIPIO) outcome" where
  "mi_acknowledge frameSize m io =
     (let unacked = mi_unackedBytes m + word_of_nat frameSize
      in if unat unacked \<ge> kIncomingAckThreshold then
           (let msgType = (if isResponse (mi_flags m) then kAckResponseType else kAckRequestType)
            in obind (new_MessageOut (io_nextId io) (msgType OR kUrgent OR kNoReply) (varint_put (mi_rawBytesReceived m)) (mi_number m)) (\<lambda>ack.
               obind (io_send ack (io\<lparr>io_nextId := io_nextId io + 1\<rparr>)) (\<lambda>(_, io1).
                 Ok (m\<lparr>mi_unackedBytes := 0\<rparr>, io1))))
         else Ok (m\<lparr>mi_unackedBytes := unacked\<rparr>, io))"

text \<open>The part of \<^verbatim>\<open>receivedFrame\<close> that reads the size of the properties from the first frame.\<close>

definition read_properties_size ::
  "('d, 'i) miniz \<Rightarrow> Mode \<Rightarrow> byte \<Rightarrow> byte list \<Rightarrow> MessageIn \<Rightarrow> ('d, 'i) Codec \<Rightarrow> (byte list \<times> MessageIn \<times> ('d, 'i) Codec) outcome" where
  "read_properties_size z mode frameFlags frame m codec =
     (if \<not> mi_gotProperties m then
        obind (codec_write z mode frame \<lparr>mb_written = [], mb_room = 10\<rparr> codec) (\<lambda>(dst, frame1, _, codec1).
        obind (varint_read dst) (\<lambda>(psize, dst1).
          if unat psize > kMaxPropertiesSize then raise_blip PropertiesTooLarge
          else
            (let (props, dst2) = ConstBytes_read (unat psize) dst1;
                 flags = (if isResponse (mi_flags m) \<and> frameFlags AND kTypeMask = kErrorType
                          then (mi_flags m AND NOT kTypeMask) OR kErrorType else mi_flags m)
             in Ok (frame1, m\<lparr>mi_propertiesSize := unat psize, mi_properties := mi_properties m @ props, mi_body := mi_body m @ dst2,
                              mi_gotProperties := True, mi_flags := flags\<rparr>, codec1))))
      else Ok (frame, m, codec))"

text \<open>The part that reads the rest of the properties.\<close>

definition read_properties ::
  "('d, 'i) miniz \<Rightarrow> Mode \<Rightarrow> byte list \<Rightarrow> MessageIn \<Rightarrow> ('d, 'i) Codec
     \<Rightarrow> (ReceiveState \<times> byte list \<times> MessageIn \<times> ('d, 'i) Codec) outcome" where
  "read_properties z mode frame m codec =
     (let curSize = length (mi_properties m)
      in if curSize < mi_propertiesSize m then
           obind (codec_write z mode frame \<lparr>mb_written = [], mb_room = mi_propertiesSize m - curSize\<rparr> codec) (\<lambda>(_, frame1, out, codec1).
             let props = mi_properties m @ mb_written out; m1 = m\<lparr>mi_properties := props\<rparr>
             in if length props = mi_propertiesSize m then
                  (if mi_propertiesSize m > 0 \<and> props ! (mi_propertiesSize m - 1) \<noteq> 0 then raise_blip InvalidFrame
                   else Ok (kBeginning, frame1, m1, codec1))
                else Ok (kOther, frame1, m1, codec1))
         else Ok (kBeginning, frame, m, codec))"

definition finish_message :: "ReceiveState \<Rightarrow> MessageIn \<Rightarrow> ('d, 'i) BLIPIO \<Rightarrow> (ReceiveState \<times> MessageIn \<times> ('d, 'i) BLIPIO) outcome" where
  "finish_message rs m io =
     (if rs = kOther then raise_blip InvalidFrame
      else
        (let m1 = m\<lparr>mi_complete := True\<rparr>
         in case mi_onResponse m1 of
              None \<Rightarrow> Ok (kEnd, m1, io)
            | Some f \<Rightarrow> obind (resolve f (Some m1) io) (\<lambda>io1. Ok (kEnd, m1, io1))))"

definition receivedFrame ::
  "('d, 'i) miniz \<Rightarrow> byte list \<Rightarrow> byte \<Rightarrow> MessageIn \<Rightarrow> ('d, 'i) BLIPIO \<Rightarrow> (ReceiveState \<times> MessageIn \<times> ('d, 'i) BLIPIO) outcome" where
  "receivedFrame z entireFrame frameFlags m0 io0 =
     obind (mi_acknowledge (length entireFrame)
              (m0\<lparr>mi_rawBytesReceived := mi_rawBytesReceived m0 + word_of_nat (length entireFrame)\<rparr>) io0) (\<lambda>(m1, io1).
     let mode = (if hasFlag frameFlags kCompressed then SyncFlush else Raw)
     in obind (Bytes_last kChecksumSize entireFrame) (\<lambda>checksumBytes.
        obind (readChecksum z checksumBytes) (\<lambda>checksum.
        obind (if mode = SyncFlush then Ok (take (length entireFrame - 4) entireFrame @ deflate_trailer)
               else Bytes_without_last kChecksumSize entireFrame) (\<lambda>frame.
        obind (read_properties_size z mode frameFlags frame m1 (io_inputCodec io1)) (\<lambda>(frame2, m2, codec2).
        obind (read_properties z mode frame2 m2 codec2) (\<lambda>(rs, frame3, m3, codec3).
        obind (writeAll z mode frame3 (mi_body m3) codec3) (\<lambda>(body, codec4).
        obind (verifyChecksum checksum codec4) (\<lambda>_.
          let m4 = m3\<lparr>mi_body := body\<rparr>; io2 = io1\<lparr>io_inputCodec := codec4\<rparr>
          in if \<not> hasFlag frameFlags kMoreComing then finish_message rs m4 io2 else Ok (rs, m4, io2)))))))))"

definition pendingRequest :: "u64 \<Rightarrow> byte \<Rightarrow> ('d, 'i) BLIPIO \<Rightarrow> (MessageIn \<times> ('d, 'i) BLIPIO) outcome" where
  "pendingRequest msgNo flags io =
     (case map_of (io_pendingRequests io) msgNo of
        Some m \<Rightarrow>
          Ok (m, if \<not> hasFlag flags kMoreComing then io\<lparr>io_pendingRequests := AList.delete msgNo (io_pendingRequests io)\<rparr> else io)
      | None \<Rightarrow>
          if msgNo = io_numRequestsReceived io + 1 then
            (let m = new_MessageIn flags msgNo 0 None; io1 = io\<lparr>io_numRequestsReceived := msgNo\<rparr>
             in Ok (m, if hasFlag flags kMoreComing
                       then io1\<lparr>io_pendingRequests := AList.update msgNo m (io_pendingRequests io1)\<rparr> else io1))
          else raise_blip InvalidFrame)"

definition pendingResponse :: "u64 \<Rightarrow> byte \<Rightarrow> ('d, 'i) BLIPIO \<Rightarrow> (MessageIn \<times> ('d, 'i) BLIPIO) outcome" where
  "pendingResponse msgNo flags io =
     (case map_of (io_pendingResponses io) msgNo of
        Some m \<Rightarrow>
          Ok (m, if \<not> hasFlag flags kMoreComing then io\<lparr>io_pendingResponses := AList.delete msgNo (io_pendingResponses io)\<rparr> else io)
      | None \<Rightarrow> raise_blip InvalidFrame)"

text \<open>The object that the pointer to a message in a box refers to is updated there.\<close>

definition update_message :: "MessageOut \<Rightarrow> MessageOut list \<Rightarrow> MessageOut list" where
  "update_message msg ms = map (\<lambda>m. if same_object msg m then msg else m) ms"

definition io_receivedAck :: "u64 \<Rightarrow> bool \<Rightarrow> byte list \<Rightarrow> ('d, 'i) BLIPIO \<Rightarrow> ('d, 'i) BLIPIO outcome" where
  "io_receivedAck msgNo onResp body io =
     (case findMessage msgNo onResp (io_outbox io) of
        Some msg \<Rightarrow>
          obind (varint_read body) (\<lambda>(byteCount, _).
            Ok (io\<lparr>io_outbox := (io_outbox io)\<lparr>aq_queue := update_message (mo_receivedAck (ucast byteCount) msg) (aq_queue (io_outbox io))\<rparr>\<rparr>))
      | None \<Rightarrow>
          (case List.find (\<lambda>m. mo_number m = msgNo \<and> isResponse (mo_flags m) = onResp) (io_icebox io) of
             None \<Rightarrow> Ok io
           | Some msg \<Rightarrow>
               obind (varint_read body) (\<lambda>(byteCount, _).
                 let msg1 = mo_receivedAck (ucast byteCount) msg; io1 = io\<lparr>io_icebox := update_message msg1 (io_icebox io)\<rparr>
                 in if \<not> needsAck msg1 then thawMessage msg1 io1 else Ok io1)))"

text \<open>
  \<^verbatim>\<open>receive\<close>: the message the frame belongs to, if any, is updated in the map it is still in.
\<close>

definition update_request :: "u64 \<Rightarrow> MessageIn \<Rightarrow> ('d, 'i) BLIPIO \<Rightarrow> ('d, 'i) BLIPIO" where
  "update_request n m io =
     (if map_of (io_pendingRequests io) n = None then io
      else io\<lparr>io_pendingRequests := AList.update n m (io_pendingRequests io)\<rparr>)"

definition update_response :: "u64 \<Rightarrow> MessageIn \<Rightarrow> ('d, 'i) BLIPIO \<Rightarrow> ('d, 'i) BLIPIO" where
  "update_response n m io =
     (if map_of (io_pendingResponses io) n = None then io
      else io\<lparr>io_pendingResponses := AList.update n m (io_pendingResponses io)\<rparr>)"

definition receive :: "('d, 'i) miniz \<Rightarrow> byte list \<Rightarrow> ('d, 'i) BLIPIO \<Rightarrow> (MessageIn option \<times> ('d, 'i) BLIPIO) outcome" where
  "receive z frame0 io0 =
     (let io = io0\<lparr>io_totalBytesRead := io_totalBytesRead io0 + word_of_nat (length frame0)\<rparr>
      in obind (varint_read frame0) (\<lambda>(msgNo, frame1).
         obind (varint_read frame1) (\<lambda>(f, frame).
         if f > 0x80 then raise_blip InvalidFrame
         else
           (let flags = ucast f; t = flags AND kTypeMask
            in if t = kRequestType then
                 (if io_receiveOpen io then
                    obind (pendingRequest msgNo flags io) (\<lambda>(m, io1).
                    obind (receivedFrame z frame flags m io1) (\<lambda>(rs, m1, io2).
                      Ok (if rs = kEnd then Some m1 else None, update_request msgNo m1 io2)))
                  else Ok (None, io))
               else if t = kResponseType \<or> t = kErrorType then
                 (if io_receiveOpen io then
                    obind (pendingResponse msgNo flags io) (\<lambda>(m, io1).
                    obind (receivedFrame z frame flags m io1) (\<lambda>(rs, m1, io2).
                      Ok (None, update_response msgNo m1 io2)))
                  else Ok (None, io))
               else if t = kAckRequestType \<or> t = kAckResponseType then
                 obind (io_receivedAck msgNo (t = kAckResponseType) frame io) (\<lambda>io1. Ok (None, io1))
               else Ok (None, io)))))"

subsection \<open>BLIPIO: responding and closing\<close>

definition canRespond :: "MessageIn \<Rightarrow> ('d, 'i) BLIPIO \<Rightarrow> bool" where
  "canRespond m io \<longleftrightarrow> \<not> noReply (mi_flags m) \<and> io_sendOpen io"

definition respond :: "MessageBuilder \<Rightarrow> MessageIn \<Rightarrow> ('d, 'i) BLIPIO \<Rightarrow> (MessageIn \<times> ('d, 'i) BLIPIO) outcome" where
  "respond mb m io =
     (if noReply (mi_flags m) then Ok (m, io)
      else assert_that (\<not> mi_responded m)
        (let mb1 = (if bld_type mb = kRequestType then mb\<lparr>bld_type := kResponseType\<rparr> else mb)
         in obind (new_MessageOut_built (io_nextId io) mb1 (mi_number m)) (\<lambda>(out, _).
            obind (io_send out (io\<lparr>io_nextId := io_nextId io + 1\<rparr>)) (\<lambda>(_, io1). Ok (m\<lparr>mi_responded := True\<rparr>, io1)))))"

definition respondWithError :: "blip_error \<Rightarrow> MessageIn \<Rightarrow> ('d, 'i) BLIPIO \<Rightarrow> (MessageIn \<times> ('d, 'i) BLIPIO) outcome" where
  "respondWithError e m io =
     (if \<not> noReply (mi_flags m) then
        obind (new_reply_builder (mi_flags m)) (\<lambda>mb. obind (makeError e mb) (\<lambda>mb1. respond mb1 m io))
      else Ok (m, io))"

definition respond_default :: "MessageIn \<Rightarrow> ('d, 'i) BLIPIO \<Rightarrow> (MessageIn \<times> ('d, 'i) BLIPIO) outcome" where
  "respond_default m io =
     (if \<not> noReply (mi_flags m) then obind (new_reply_builder (mi_flags m)) (\<lambda>mb. respond mb m io) else Ok (m, io))"

definition notHandled :: "MessageIn \<Rightarrow> ('d, 'i) BLIPIO \<Rightarrow> (MessageIn \<times> ('d, 'i) BLIPIO) outcome" where
  "notHandled m io = respondWithError \<lparr>be_domain = lit ''BLIP'', be_code = 404, be_message = lit ''no handler for message''\<rparr> m io"

definition closeSend :: "('d, 'i) BLIPIO \<Rightarrow> ('d, 'i) BLIPIO" where
  "closeSend io =
     (if io_sendOpen io then
        (let io1 = io\<lparr>io_sendOpen := False\<rparr>
         in if \<not> hasOutput io1 then io1\<lparr>io_outbox := aq_close no_err (io_outbox io1)\<rparr> else io1)
      else io)"

definition cancel_pending :: "('d, 'i) BLIPIO \<Rightarrow> ('d, 'i) BLIPIO outcome" where
  "cancel_pending io =
     obind (foldo (\<lambda>(_, m) io. mi_disconnected m io) (io_pendingRequests io) io) (\<lambda>io1.
     obind (foldo (\<lambda>(_, m) io. mi_disconnected m io) (io_pendingResponses io) (io1\<lparr>io_pendingRequests := []\<rparr>)) (\<lambda>io2.
       Ok (io2\<lparr>io_pendingResponses := []\<rparr>)))"

definition closeRead :: "('d, 'i) BLIPIO \<Rightarrow> ('d, 'i) BLIPIO outcome" where
  "closeRead io = cancel_pending (io\<lparr>io_receiveOpen := False\<rparr>)"

definition closeReceive :: "('d, 'i) BLIPIO \<Rightarrow> ('d, 'i) BLIPIO outcome" where
  "closeReceive io = (if io_receiveOpen io then closeRead io else Ok io)"

definition io_stop :: "('d, 'i) BLIPIO \<Rightarrow> ('d, 'i) BLIPIO outcome" where
  "io_stop io =
     (let ms = aq_queue (io_outbox io) @ io_icebox io @ aq_queue (io_wayOutBox io)
      in obind (foldo mo_disconnected ms (io\<lparr>io_receiveOpen := False, io_sendOpen := False\<rparr>)) (\<lambda>io1.
         closeRead (io1\<lparr>io_icebox := [], io_outbox := aq_close no_err (io_outbox io1),
                        io_wayOutBox := aq_close no_err (io_wayOutBox io1)\<rparr>)))"

definition destruct_BLIPIO :: "('d, 'i) BLIPIO \<Rightarrow> ('d, 'i) BLIPIO outcome" where
  "destruct_BLIPIO io = (if io_receiveOpen io \<or> io_sendOpen io then io_stop io else Ok io)"

end
