(* ===== verification/BlipDelivery.thy ===== *)
theory BlipDelivery
  imports BlipIO "HOL-Library.Multiset"
begin

text \<open>
  Uncompressed BLIP messages from one peer to the other: what a frame is made of, what the receiver makes of it, and that the requests a peer
  sends, cut into frames and interleaved by its outbox, arrive complete and unaltered.
\<close>

subsection \<open>The frames of a message\<close>

lemma word_diff_sent: "n \<le> len \<Longrightarrow> (sent :: u32) + word_of_nat len - word_of_nat (len - n) = sent + word_of_nat n"
  by (simp add: of_nat_diff)

lemma frame_loop_raw:
  fixes data :: "byte list" and frame :: MutableBytes
  assumes "mb_room frame > 0" "crc_ok z"
  defines "n \<equiv> min (length data) (mb_room frame)"
  shows "frame_loop z Raw data frame sent c =
    Some (Inr (drop n data, frame\<lparr>mb_written := mb_written frame @ take n data, mb_room := mb_room frame - n\<rparr>,
      sent + word_of_nat n, addToChecksum z (take n data) c))"
proof (cases "data = []")
  case True
  then show ?thesis using assms(2) by (simp add: frame_loop.simps n_def addToChecksum_def crc_okD)
next
  case False
  have n: "n \<le> length data" by (simp add: n_def)
  have w: "codec_write z Raw data frame c =
      Ok (take n data, drop n data, frame\<lparr>mb_written := mb_written frame @ take n data, mb_room := mb_room frame - n\<rparr>,
          addToChecksum z (take n data) c)"
    using assms(1) by (simp add: codec_write_Raw writeRaw_Ok n_def Let_def)
  have s: "sent + word_of_nat (length data) - word_of_nat (length data - n) = sent + word_of_nat n" using n by (rule word_diff_sent)
  show ?thesis
  proof (cases "mb_room frame - n \<ge> 1024")
    case True
    then have "drop n data = []" by (simp add: n_def)
    then show ?thesis using False True w s by (subst frame_loop.simps) (simp add: frame_loop.simps)
  next
    case lt: False
    then show ?thesis using False w s by (subst frame_loop.simps) simp
  qed
qed

lemma writeChecksum_Ok:
  "mb_room out \<ge> 4 \<Longrightarrow> writeChecksum z c out =
     Ok (out\<lparr>mb_written := mb_written out @ be_bytes 4 (cd_checksum c), mb_room := mb_room out - 4\<rparr>)"
  by (simp add: writeChecksum_def store_encodeBig MutableBytes_write_fits)

lemma readChecksum_be: "readChecksum z (be_bytes 4 x) = Ok x"
proof -
  have "load_native (z_big z) (store_native (z_big z) 4 (encodeBig32 (z_big z) x)) = encodeBig32 (z_big z) x"
    by (rule load_store_native) simp
  then have "decodeBig32 (z_big z) (load_native (z_big z) (be_bytes 4 x)) = x"
    unfolding store_encodeBig decodeBig32_def by (simp add: encodeBig32_def bswap32_involution)
  then show ?thesis by (simp add: readChecksum_def ConstBytes_readAll_def)
qed

definition out_codec_ok :: "('d, 'i) Codec \<Rightarrow> bool" where
  "out_codec_ok c \<longleftrightarrow> (\<forall>s. cd_kind c \<noteq> MiniZInflater s)"

lemma unflushed_out [simp]: "out_codec_ok c \<Longrightarrow> unflushedBytes c = 0"
  by (cases "cd_kind c") (auto simp: out_codec_ok_def unflushedBytes_def)

lemma out_codec_ok_add [simp]: "out_codec_ok (addToChecksum z xs c) = out_codec_ok c"
  by (simp add: out_codec_ok_def addToChecksum_def)

lemma cd_checksum_add [simp]: "cd_checksum (addToChecksum z xs c) = z_crc32 z (cd_checksum c) xs"
  by (simp add: addToChecksum_def)

text \<open>The part of the payload that goes into a frame with this room.\<close>

lemma nextFrameToSend_raw:
  fixes msg :: MessageOut and room :: nat and z :: "('d, 'i) miniz" and codec :: "('d, 'i) Codec"
  assumes "\<not> isAck (mo_flags msg)" "\<not> hasFlag (mo_flags msg) kCompressed" "room > 4" "crc_ok z" "out_codec_ok codec"
  defines "n \<equiv> min (length (mo_unsentPayload msg)) (room - 4)"
  defines "codec1 \<equiv> addToChecksum z (take n (mo_unsentPayload msg)) codec"
  defines "msg1 \<equiv> msg\<lparr>mo_unsentPayload := drop n (mo_unsentPayload msg),
    mo_uncompressedBytesSent := mo_uncompressedBytesSent msg + word_of_nat n,
    mo_bytesSent := mo_bytesSent msg + word_of_nat (n + 4), mo_unackedBytes := mo_unackedBytes msg + word_of_nat (n + 4)\<rparr>"
  shows "nextFrameToSend z msg codec \<lparr>mb_written = [], mb_room = room\<rparr> =
    Ok (if drop n (mo_unsentPayload msg) \<noteq> [] then mo_flags msg OR kMoreComing else mo_flags msg,
        \<lparr>mb_written = take n (mo_unsentPayload msg) @ be_bytes 4 (cd_checksum codec1), mb_room = room - 4 - n\<rparr>, msg1, codec1)"
proof -
  have l: "returns (frame_loop z Raw (mo_unsentPayload msg) \<lparr>mb_written = [], mb_room = room - 4\<rparr> (mo_uncompressedBytesSent msg) codec) =
      Ok (drop n (mo_unsentPayload msg), \<lparr>mb_written = take n (mo_unsentPayload msg), mb_room = room - 4 - n\<rparr>,
          mo_uncompressedBytesSent msg + word_of_nat n, codec1)"
    using assms(3,4) by (simp add: frame_loop_raw returns_def n_def codec1_def)
  have n: "n \<le> room - 4" by (simp add: n_def)
  have w: "writeChecksum z codec1 \<lparr>mb_written = x, mb_room = y + 4\<rparr> = Ok \<lparr>mb_written = x @ be_bytes 4 (cd_checksum codec1), mb_room = y\<rparr>"
    for x y by (simp add: writeChecksum_Ok)
  have d: "room - (room - (4 + n)) = n + 4" using assms(3) n by simp
  have u: "unflushedBytes codec1 = 0" using assms(5) by (simp add: codec1_def)
  show ?thesis
    using assms(1,2,3) by (simp add: nextFrameToSend_def size_t_minus_def kChecksumSize_def l u w d msg1_def hasMoreDataToSend_def Let_def
        del: of_nat_add)
qed

subsection \<open>The boxes\<close>

definition all_msgs :: "('d, 'i) BLIPIO \<Rightarrow> MessageOut list" where
  "all_msgs io = aq_queue (io_outbox io) @ io_icebox io @ aq_queue (io_wayOutBox io)"

lemma all_msgs_update [simp]:
  "all_msgs (io\<lparr>io_nextId := i\<rparr>) = all_msgs io" "all_msgs (io\<lparr>io_inputCodec := c\<rparr>) = all_msgs io"
  "all_msgs (io\<lparr>io_lastMessageNo := n, io_outputCodec := c\<rparr>) = all_msgs io" "all_msgs (io\<lparr>io_totalBytesWritten := w\<rparr>) = all_msgs io"
  "all_msgs (io\<lparr>io_pendingResponses := p\<rparr>) = all_msgs io"
  by (simp_all add: all_msgs_def)

definition queue_open :: "'v aqueue \<Rightarrow> bool" where
  "queue_open q \<longleftrightarrow> aq_state q = AQOpen \<and> aq_max q = None \<and> \<not> aq_closeWhenEmpty q"

definition boxes_ok :: "('d, 'i) BLIPIO \<Rightarrow> bool" where
  "boxes_ok io \<longleftrightarrow> distinct (map mo_id (all_msgs io)) \<and> (\<forall>m \<in> set (all_msgs io). mo_id m < io_nextId io)
     \<and> queue_open (io_outbox io) \<and> queue_open (io_wayOutBox io)"

lemma notify_first_item_simps [simp]:
  "aq_queue (notify_first_item q) = aq_queue q" "queue_open (notify_first_item q) = queue_open q"
  by (simp_all add: notify_first_item_def queue_open_def)

lemma queue_open_update [simp]: "queue_open (q\<lparr>aq_queue := xs\<rparr>) = queue_open q"
  by (simp add: queue_open_def)

lemma mset_insert_at: "mset (take n xs @ x # drop n xs) = add_mset x (mset xs)"
  by (metis append_take_drop_id mset.simps(2) mset_append union_mset_add_mset_right)

text \<open>Wherever it goes, a requeued message is added to the queue, unless the queue is closed.\<close>

lemma requeue_cases:
  assumes "requeue m q = Ok q'"
  shows "q' = q \<or> (mset (aq_queue q') = add_mset m (mset (aq_queue q)) \<and> (queue_open q \<longrightarrow> queue_open q'))"
  using assms by (auto simp: requeue_def assert_that_eq_Ok aq_pushBefore_def super_pushBefore_def mset_insert_at split: if_splits simp del: mset_append)

lemma requeue_open:
  assumes "requeue m q = Ok q'" "queue_open q"
  shows "mset (aq_queue q') = add_mset m (mset (aq_queue q)) \<and> queue_open q'"
  using assms by (auto simp: requeue_def assert_that_eq_Ok aq_pushBefore_def super_pushBefore_def queue_open_def aq_full_def
      notify_first_item_def mset_insert_at split: if_splits simp del: mset_append)

lemma find_same_object: "List.find (same_object m) ms = None \<longleftrightarrow> mo_id m \<notin> mo_id ` set ms"
  by (auto simp: find_None_iff same_object_def)

lemma requeue_Ok: "mo_id m \<notin> mo_id ` set (aq_queue q) \<Longrightarrow> \<exists>q'. requeue m q = Ok q'"
  by (simp add: requeue_def aq_find_if_def find_same_object)

text \<open>What the sending side of an operation leaves alone.\<close>

definition in_same :: "('d, 'i) BLIPIO \<Rightarrow> ('d, 'i) BLIPIO \<Rightarrow> bool" where
  "in_same io io' \<longleftrightarrow>
     io_inputCodec io' = io_inputCodec io \<and> io_pendingRequests io' = io_pendingRequests io
     \<and> io_pendingResponses io' = io_pendingResponses io \<and> io_numRequestsReceived io' = io_numRequestsReceived io
     \<and> io_receiveOpen io' = io_receiveOpen io \<and> io_sendOpen io' = io_sendOpen io \<and> io_lastMessageNo io' = io_lastMessageNo io
     \<and> io_outputCodec io' = io_outputCodec io \<and> io_resolved io' = io_resolved io \<and> io_generator io' = io_generator io"

text \<open>The messages in the boxes are the same, but for one that was added.\<close>

definition added :: "MessageOut \<Rightarrow> ('d, 'i) BLIPIO \<Rightarrow> ('d, 'i) BLIPIO \<Rightarrow> bool" where
  "added m io io' \<longleftrightarrow> mset (all_msgs io') = mset (all_msgs io) \<or> mset (all_msgs io') = add_mset m (mset (all_msgs io))"

lemma boxes_ok_added:
  assumes "boxes_ok io" "added m io io'" "io_nextId io' > io_nextId io" "mo_id m = io_nextId io"
    "queue_open (io_outbox io')" "queue_open (io_wayOutBox io')"
  shows "boxes_ok io'"
proof -
  have *: "\<forall>m \<in> set (all_msgs io). mo_id m < io_nextId io" using assms(1) by (simp add: boxes_ok_def)
  have d: "distinct (map mo_id ms) \<longleftrightarrow> distinct (map mo_id (all_msgs io))" if "mset ms = mset (all_msgs io)" for ms
    using that by (metis mset_eq_imp_distinct_iff mset_map)
  from assms(2) consider "mset (all_msgs io') = mset (all_msgs io)" | "mset (all_msgs io') = mset (m # all_msgs io)"
    by (auto simp: added_def)
  then show ?thesis
  proof cases
    case 1
    then show ?thesis using assms d [of "all_msgs io'"] * mset_eq_setD [OF 1] by (fastforce simp: boxes_ok_def)
  next
    case 2
    then have "distinct (map mo_id (all_msgs io')) \<longleftrightarrow> distinct (map mo_id (m # all_msgs io))"
      by (metis mset_eq_imp_distinct_iff mset_map)
    then show ?thesis using assms * mset_eq_setD [OF 2] by (fastforce simp: boxes_ok_def)
  qed
qed

lemma added_refl [simp]: "all_msgs io' = all_msgs io \<Longrightarrow> added m io io'"
  by (simp add: added_def)

lemma queueMessage_cases:
  assumes "queueMessage m io = Ok (b, io')" "mo_onResponse m = None"
  shows "in_same io io' \<and> added m io io' \<and> io_nextId io' = io_nextId io
    \<and> (queue_open (io_outbox io) \<longrightarrow> queue_open (io_outbox io')) \<and> io_wayOutBox io' = io_wayOutBox io"
proof (cases "io_sendOpen io")
  case True
  then obtain q where q: "requeue m (io_outbox io) = Ok q" "io' = io\<lparr>io_maxOutboxDepth := max (io_maxOutboxDepth io) (length (aq_queue (io_outbox io)) + 1),
      io_totalOutboxDepth := io_totalOutboxDepth io + (length (aq_queue (io_outbox io)) + 1),
      io_countOutboxDepth := io_countOutboxDepth io + 1, io_outbox := q\<rparr>"
    using assms(1) by (auto simp: queueMessage_def obind_eq_Ok Let_def)
  from requeue_cases [OF q(1)] show ?thesis using q(2) by (auto simp: in_same_def added_def all_msgs_def)
next
  case False
  then show ?thesis using assms by (auto simp: queueMessage_def mo_disconnected_def noResponse_def in_same_def)
qed

lemma queueMessage_Ok:
  assumes "mo_onResponse m = None" "mo_id m \<notin> mo_id ` set (aq_queue (io_outbox io))"
  shows "\<exists>b io'. queueMessage m io = Ok (b, io')"
  using requeue_Ok [OF assms(2)] assms(1)
  by (auto simp: queueMessage_def mo_disconnected_def noResponse_def Let_def)

definition ack_flags :: "byte \<Rightarrow> bool" where
  "ack_flags f \<longleftrightarrow> f = kAckRequestType OR kUrgent OR kNoReply \<or> f = kAckResponseType OR kUrgent OR kNoReply"

lemma ack_flags_simps:
  "ack_flags f \<Longrightarrow> f < 0x80" "ack_flags f \<Longrightarrow> isAck f" "ack_flags f \<Longrightarrow> is_urgent f"
  "ack_flags f \<Longrightarrow> f AND kTypeMask = kAckRequestType \<or> f AND kTypeMask = kAckResponseType"
  by (auto simp: ack_flags_def blip_consts isAck_def msg_type_def hasFlag_def)

definition ack_ok :: "MessageOut \<Rightarrow> bool" where
  "ack_ok m \<longleftrightarrow> ack_flags (mo_flags m) \<and> (\<exists>k. mo_unsentPayload m = varint_put k) \<and> mo_onResponse m = None"

lemma acknowledge_ok:
  assumes "boxes_ok io"
  shows "\<exists>u io' ack. mi_acknowledge n m io = Ok (m\<lparr>mi_unackedBytes := u\<rparr>, io') \<and> in_same io io' \<and> boxes_ok io'
    \<and> added ack io io' \<and> ack_ok ack \<and> mo_number ack = mi_number m"
proof (cases "unat (mi_unackedBytes m + word_of_nat n) \<ge> kIncomingAckThreshold")
  case True
  define flags where "flags = (if isResponse (mi_flags m) then kAckResponseType else kAckRequestType) OR kUrgent OR kNoReply"
  obtain ack where ack: "new_MessageOut (io_nextId io) flags (varint_put (mi_rawBytesReceived m)) (mi_number m) = Ok ack"
    "mo_id ack = io_nextId io" "mo_flags ack = flags" "mo_unsentPayload ack = varint_put (mi_rawBytesReceived m)" "mo_onResponse ack = None"
    "mo_number ack = mi_number m"
    using length_varint_put [of "mi_rawBytesReceived m"]
    by (auto simp: new_MessageOut_def kMaxSize_def message_flags_def flags_def blip_consts)
  let ?io = "io\<lparr>io_nextId := io_nextId io + 1\<rparr>"
  have "mo_id ack \<notin> mo_id ` set (aq_queue (io_outbox ?io))"
    using assms ack(2) by (auto simp: boxes_ok_def all_msgs_def)
  from queueMessage_Ok [OF ack(5) this] obtain b io' where q: "queueMessage ack ?io = Ok (b, io')" by blast
  from queueMessage_cases [OF q ack(5)] assms have io': "in_same io io'" "added ack io io'" "io_nextId io' = io_nextId io + 1"
    "queue_open (io_outbox io')" "queue_open (io_wayOutBox io')"
    by (auto simp: in_same_def added_def all_msgs_def boxes_ok_def)
  have "is_urgent (mo_flags ack)" unfolding ack(3) flags_def by (auto simp: hasFlag_def blip_consts)
  then have "mi_acknowledge n m io = Ok (m\<lparr>mi_unackedBytes := 0\<rparr>, io')"
    using True ack(1) q by (simp add: mi_acknowledge_def io_send_def flags_def [symmetric] Let_def)
  moreover have "ack_ok ack" using ack by (auto simp: ack_ok_def flags_def ack_flags_def)
  moreover have "boxes_ok io'" using boxes_ok_added [OF assms io'(2)] io'(3-) ack(2) by simp
  ultimately show ?thesis using io' ack(6) by blast
next
  case False
  have "\<exists>a. ack_ok a \<and> mo_number a = mi_number m"
    by (rule exI [of _ "\<lparr>mo_id = 0, mo_flags = kAckRequestType OR kUrgent OR kNoReply, mo_number = mi_number m, mo_payload = [],
      mo_unsentPayload = varint_put 0, mo_uncompressedBytesSent = 0, mo_bytesSent = 0, mo_unackedBytes = 0, mo_onResponse = None\<rparr>"])
      (auto simp: ack_ok_def ack_flags_def)
  then show ?thesis using False assms by (auto simp: mi_acknowledge_def in_same_def)
qed

subsection \<open>Receiving a frame\<close>

text \<open>The message has got the size of its properties, \<open>k\<close>, and after that the bytes \<open>Q\<close>.\<close>

definition mi_received :: "MessageIn \<Rightarrow> nat \<Rightarrow> byte list \<Rightarrow> bool" where
  "mi_received m k Q \<longleftrightarrow> mi_gotProperties m \<and> mi_propertiesSize m = k \<and> mi_properties m = take k Q \<and> mi_body m = drop k Q"

definition mi_fresh :: "MessageIn \<Rightarrow> bool" where
  "mi_fresh m \<longleftrightarrow> \<not> mi_gotProperties m \<and> mi_properties m = [] \<and> mi_body m = []"

definition mi_store :: "nat \<Rightarrow> byte list \<Rightarrow> MessageIn \<Rightarrow> MessageIn" where
  "mi_store k Q m = m\<lparr>mi_propertiesSize := k, mi_properties := take k Q, mi_body := drop k Q, mi_gotProperties := True\<rparr>"

lemma mi_store_simps [simp]:
  "mi_received (mi_store k Q m) k Q" "mi_flags (mi_store k Q m) = mi_flags m" "mi_number (mi_store k Q m) = mi_number m"
  "mi_onResponse (mi_store k Q m) = mi_onResponse m" "mi_complete (mi_store k Q m) = mi_complete m"
  by (simp_all add: mi_store_def mi_received_def)

lemma addToChecksum_append:
  "crc_ok z \<Longrightarrow> addToChecksum z ys (addToChecksum z xs c) = addToChecksum z (xs @ ys) c"
  by (simp add: addToChecksum_def crc_okD)

lemma addToChecksum_Nil [simp]: "crc_ok z \<Longrightarrow> addToChecksum z [] c = c"
  by (simp add: addToChecksum_def crc_okD)

lemma read_properties_size_first:
  assumes "mi_fresh m" "\<not> (isResponse (mi_flags m) \<and> fl AND kTypeMask = kErrorType)" "k \<le> kMaxPropertiesSize"
  defines "v \<equiv> varint_put (word_of_nat k)"
  shows "read_properties_size z Raw fl (v @ Q) m c =
    Ok (drop (10 - length v) Q, mi_store k (take (10 - length v) Q) m, addToChecksum z (v @ take (10 - length v) Q) c)"
proof -
  have l: "length v \<le> 10" using length_varint_put [of "word_of_nat k"] by (simp add: v_def kMaxSize_def)
  then have t: "min (length (v @ Q)) 10 = length v + min (length Q) (10 - length v)" by simp
  have "codec_write z Raw (v @ Q) \<lparr>mb_written = [], mb_room = 10\<rparr> c =
      Ok (v @ take (10 - length v) Q, drop (10 - length v) Q, \<lparr>mb_written = v @ take (10 - length v) Q, mb_room = 10 - (length v + min (length Q) (10 - length v))\<rparr>,
          addToChecksum z (v @ take (10 - length v) Q) c)"
    unfolding codec_write_Raw using l by (simp add: writeRaw_Ok t Let_def min_def)
  moreover have "unat (word_of_nat k :: u64) = k" using assms(3) by (rule size_roundtrip)
  ultimately show ?thesis
    using assms(1,3) by (simp only: read_properties_size_def v_def mi_fresh_def if_False assms(2)) (simp add: mi_store_def)
qed

lemma read_properties_rest:
  assumes "mi_received m k Q" "crc_ok z" "k \<le> length (Q @ Y) \<Longrightarrow> k > 0 \<Longrightarrow> (Q @ Y) ! (k - 1) = 0"
  shows "\<exists>n \<le> length Y. read_properties z Raw Y m c =
      Ok (if k \<le> length (Q @ Y) then kBeginning else kOther, drop n Y, m\<lparr>mi_properties := take k (Q @ Y)\<rparr>, addToChecksum z (take n Y) c)
    \<and> drop k Q @ drop n Y = drop k (Q @ Y)"
proof (cases "length Q < k")
  case True
  define n where "n = min (length Y) (k - length Q)"
  have "codec_write z Raw Y \<lparr>mb_written = [], mb_room = k - length Q\<rparr> c =
      Ok (take n Y, drop n Y, \<lparr>mb_written = take n Y, mb_room = k - length Q - n\<rparr>, addToChecksum z (take n Y) c)"
    unfolding codec_write_Raw using True by (simp add: writeRaw_Ok n_def Let_def)
  moreover have "Q @ take n Y = take k (Q @ Y)" using True by (simp add: n_def min_def)
  moreover have "k \<le> length (Q @ Y) \<Longrightarrow> length Q + n = k" "\<not> k \<le> length (Q @ Y) \<Longrightarrow> length Q + n \<noteq> k" using True by (auto simp: n_def)
  moreover have "k \<le> length (Q @ Y) \<Longrightarrow> take k (Q @ Y) ! (k - 1) = 0" using assms(3) True by (simp del: take_append)
  moreover have "n \<le> length Y" by (simp add: n_def)
  moreover have "drop n Y = drop k (Q @ Y)" using True by (auto simp: n_def min_def)
  ultimately show ?thesis using assms(1) True
    by (intro exI [of _ n]) (auto simp: read_properties_def mi_received_def Let_def simp del: take_append drop_append)
next
  case False
  then have m: "read_properties z Raw Y m c = Ok (kBeginning, Y, m\<lparr>mi_properties := take k (Q @ Y)\<rparr>, c)"
    using assms(1) by (simp add: read_properties_def mi_received_def)
  show ?thesis using False assms(2) m by (intro exI [of _ 0]) simp
qed

text \<open>
  A frame with the part \<open>X\<close> of a payload in it, which is the first part or goes on from \<open>Q\<close>, when the sender's checksum agrees with the
  receiver's. \<open>R\<close> is what the message has received then.
\<close>

definition continues :: "MessageIn \<Rightarrow> nat \<Rightarrow> byte list \<Rightarrow> byte list \<Rightarrow> bool" where
  "continues m k X R \<longleftrightarrow> (mi_fresh m \<and> X = varint_put (word_of_nat k) @ R) \<or> (\<exists>Q. mi_received m k Q \<and> R = Q @ X)"

lemma received_store: "mi_received m k Q \<Longrightarrow> m = mi_store k Q m"
  by (simp add: mi_received_def mi_store_def)

lemma read_message_raw:
  assumes c: "continues m k X R" and m: "\<not> (isResponse (mi_flags m) \<and> fl AND kTypeMask = kErrorType)" "k \<le> kMaxPropertiesSize" and z: "crc_ok z"
    and nul: "k \<le> length R \<Longrightarrow> k > 0 \<Longrightarrow> R ! (k - 1) = 0"
  shows "\<exists>X2 m2 c2 X3 m3 c3. read_properties_size z Raw fl X m c = Ok (X2, m2, c2)
    \<and> read_properties z Raw X2 m2 c2 = Ok (if k \<le> length R then kBeginning else kOther, X3, m3, c3)
    \<and> m3\<lparr>mi_body := mi_body m3 @ X3\<rparr> = mi_store k R m \<and> addToChecksum z X3 c3 = addToChecksum z X c"
proof -
  obtain X2 Q c2 Y where r: "read_properties_size z Raw fl X m c = Ok (X2, mi_store k Q m, c2)" "R = Q @ X2" "c2 = addToChecksum z Y c" "X = Y @ X2"
  proof (cases "mi_gotProperties m")
    case True
    then obtain Q where Q: "mi_received m k Q" "R = Q @ X" using c by (auto simp: continues_def mi_fresh_def)
    show ?thesis
      by (rule that [of X Q c "[]"]) (use True Q z received_store [OF Q(1)] in \<open>simp_all add: read_properties_size_def\<close>)
  next
    case False
    then have X: "mi_fresh m" "X = varint_put (word_of_nat k) @ R" using c by (auto simp: continues_def mi_received_def)
    let ?v = "varint_put (word_of_nat k)"
    show ?thesis
      by (rule that [OF _ _ refl, of "drop (10 - length ?v) R" "take (10 - length ?v) R" "?v @ take (10 - length ?v) R"])
        (use X m in \<open>simp_all add: read_properties_size_first\<close>)
  qed
  from read_properties_rest [OF mi_store_simps(1) z, of k Q X2 m c2] nul obtain n where n: "n \<le> length X2"
    "read_properties z Raw X2 (mi_store k Q m) c2 =
      Ok (if k \<le> length (Q @ X2) then kBeginning else kOther, drop n X2, (mi_store k Q m)\<lparr>mi_properties := take k (Q @ X2)\<rparr>, addToChecksum z (take n X2) c2)"
    "drop k Q @ drop n X2 = drop k (Q @ X2)"
    unfolding r(2) by blast
  show ?thesis
    by (intro exI conjI, rule r(1), unfold r(2), rule n(2))
      (use n(3) z r(3,4) in \<open>simp_all add: mi_store_def addToChecksum_append del: take_append drop_append\<close>)
qed

lemma receivedFrame_reads:
  assumes c: "continues m k X R" and m: "\<not> (isResponse (mi_flags m) \<and> fl AND kTypeMask = kErrorType)" "k \<le> kMaxPropertiesSize"
    and z: "crc_ok z" and ids: "boxes_ok io" and raw: "\<not> hasFlag fl kCompressed"
    and nul: "k \<le> length R \<Longrightarrow> k > 0 \<Longrightarrow> R ! (k - 1) = 0" and fin: "\<not> hasFlag fl kMoreComing \<Longrightarrow> k \<le> length R"
  shows "\<exists>m' io'. receivedFrame z (X @ be_bytes 4 (cd_checksum (addToChecksum z X (io_inputCodec io)))) fl m io =
      (if \<not> hasFlag fl kMoreComing then finish_message kBeginning m' io' else Ok (if k \<le> length R then kBeginning else kOther, m', io'))
    \<and> mi_complete m' = mi_complete m \<and> mi_received m' k R \<and> mi_flags m' = mi_flags m \<and> mi_number m' = mi_number m \<and> mi_onResponse m' = mi_onResponse m
    \<and> mi_responded m' = mi_responded m \<and> boxes_ok io' \<and> in_same (io\<lparr>io_inputCodec := addToChecksum z X (io_inputCodec io)\<rparr>) io'
    \<and> (unat (mi_unackedBytes m + word_of_nat (length X + 4)) < kIncomingAckThreshold \<longrightarrow> io' = io\<lparr>io_inputCodec := addToChecksum z X (io_inputCodec io)\<rparr>)"
proof -
  define chk where "chk = cd_checksum (addToChecksum z X (io_inputCodec io))"
  let ?f = "X @ be_bytes 4 chk"
  obtain m1 u r io1 where a: "mi_acknowledge (length ?f) (m\<lparr>mi_rawBytesReceived := mi_rawBytesReceived m + word_of_nat (length ?f)\<rparr>) io = Ok (m1, io1)"
      "in_same io io1" "boxes_ok io1" "m1 = m\<lparr>mi_rawBytesReceived := r, mi_unackedBytes := u\<rparr>"
    using acknowledge_ok [OF ids] by blast
  have c1: "continues m1 k X R" using c a(4) by (auto simp: continues_def mi_fresh_def mi_received_def)
  have e1: "\<not> (isResponse (mi_flags m1) \<and> fl AND kTypeMask = kErrorType)" using m(1) a(4) by simp
  obtain X2 m2 c2 X3 m3 c3 where r: "read_properties_size z Raw fl X m1 (io_inputCodec io1) = Ok (X2, m2, c2)"
    "read_properties z Raw X2 m2 c2 = Ok (if k \<le> length R then kBeginning else kOther, X3, m3, c3)"
    "m3\<lparr>mi_body := mi_body m3 @ X3\<rparr> = mi_store k R m1" "addToChecksum z X3 c3 = addToChecksum z X (io_inputCodec io1)"
    using read_message_raw [OF c1 e1 m(2) z nul, of "io_inputCodec io1"] by auto
  have v: "verifyChecksum chk (addToChecksum z X3 c3) = Ok ()"
    using r(4) a(2) by (simp add: verifyChecksum_def in_same_def chk_def)
  define io2 where "io2 = io1\<lparr>io_inputCodec := addToChecksum z X3 c3\<rparr>"
  define m4 where "m4 = mi_store k R m1"
  have "Bytes_last kChecksumSize ?f = Ok (be_bytes 4 chk)" "Bytes_without_last kChecksumSize ?f = Ok X"
    by (simp_all add: kChecksumSize_def)
  then have "receivedFrame z ?f fl m io =
      (if \<not> hasFlag fl kMoreComing then finish_message kBeginning m4 io2 else Ok (if k \<le> length R then kBeginning else kOther, m4, io2))"
    unfolding receivedFrame_def a(1) obind_Ok prod.case Let_def using raw fin
    by (auto simp: readChecksum_be r(1,2) writeAll_def v r(3) simp flip: io2_def m4_def)
  moreover have "in_same (io\<lparr>io_inputCodec := addToChecksum z X (io_inputCodec io)\<rparr>) io2" "boxes_ok io2"
    using a(2,3) r(4) by (auto simp: io2_def in_same_def boxes_ok_def all_msgs_def)
  moreover have "io2 = io\<lparr>io_inputCodec := addToChecksum z X (io_inputCodec io)\<rparr>" if "unat (mi_unackedBytes m + word_of_nat (length X + 4)) < kIncomingAckThreshold"
    using a(1) that r(4) by (simp add: mi_acknowledge_def io2_def Let_def)
  ultimately show ?thesis unfolding chk_def [symmetric] using a(4)
    by (intro exI [of _ m4] exI [of _ io2]) (simp add: m4_def mi_store_def mi_received_def)
qed

lemma receivedFrame_raw:
  assumes c: "continues m k X R" and m: "\<not> isResponse (mi_flags m)" "k \<le> kMaxPropertiesSize" "mi_onResponse m = None"
    and z: "crc_ok z" and ids: "boxes_ok io" and raw: "\<not> hasFlag fl kCompressed"
    and nul: "k \<le> length R \<Longrightarrow> k > 0 \<Longrightarrow> R ! (k - 1) = 0" and fin: "\<not> hasFlag fl kMoreComing \<Longrightarrow> k \<le> length R"
  shows "\<exists>m' io' rs. receivedFrame z (X @ be_bytes 4 (cd_checksum (addToChecksum z X (io_inputCodec io)))) fl m io = Ok (rs, m', io')
    \<and> (rs = kEnd \<longleftrightarrow> \<not> hasFlag fl kMoreComing) \<and> mi_complete m' = (mi_complete m \<or> \<not> hasFlag fl kMoreComing)
    \<and> mi_received m' k R \<and> mi_flags m' = mi_flags m \<and> mi_number m' = mi_number m \<and> mi_onResponse m' = None
    \<and> boxes_ok io' \<and> in_same (io\<lparr>io_inputCodec := addToChecksum z X (io_inputCodec io)\<rparr>) io'"
proof -
  have e: "\<not> (isResponse (mi_flags m) \<and> fl AND kTypeMask = kErrorType)" using m(1) by simp
  from receivedFrame_reads [OF c e m(2) z ids raw nul fin] obtain m' io' where
    r: "receivedFrame z (X @ be_bytes 4 (cd_checksum (addToChecksum z X (io_inputCodec io)))) fl m io =
      (if \<not> hasFlag fl kMoreComing then finish_message kBeginning m' io' else Ok (if k \<le> length R then kBeginning else kOther, m', io'))"
    and m': "mi_complete m' = mi_complete m" "mi_received m' k R" "mi_flags m' = mi_flags m" "mi_number m' = mi_number m" "mi_onResponse m' = None"
      "boxes_ok io'" "in_same (io\<lparr>io_inputCodec := addToChecksum z X (io_inputCodec io)\<rparr>) io'"
    using m(3) by auto
  show ?thesis unfolding r using m' by (auto simp: finish_message_def mi_received_def Let_def)
qed

subsection \<open>Receiving requests and acknowledgements\<close>

text \<open>The flags of requests that are not compressed.\<close>

definition req_flags :: "byte \<Rightarrow> bool" where
  "req_flags f \<longleftrightarrow> f \<in> {0, kUrgent, kNoReply, kUrgent OR kNoReply}"

lemma req_flags_cases: "req_flags f \<Longrightarrow> f = 0 \<or> f = 0x10 \<or> f = 0x20 \<or> f = 0x30"
  by (auto simp: req_flags_def blip_consts)

lemma req_flags_simps:
  assumes "req_flags f" "g = f \<or> g = f OR kMoreComing"
  shows "g AND kTypeMask = kRequestType" "\<not> hasFlag g kCompressed" "message_flags g = f" "g < 0x80"
    "hasFlag (f OR kMoreComing) kMoreComing" "\<not> hasFlag f kMoreComing" "\<not> isAck f" "\<not> isResponse f"
  using req_flags_cases [OF assms(1)] assms(2)
  by (auto simp: blip_consts hasFlag_def message_flags_def isAck_def isResponse_def msg_type_def)

lemma unat_ucast_byte [simp]: "unat (ucast (g :: byte) :: u64) = unat g"
proof -
  have "unat g < 2 ^ 8" using unsigned_less [of g, where ?'a = nat] by simp
  then show ?thesis by (simp add: unsigned_ucast_eq take_bit_nat_eq_self)
qed

lemma varint_read_byte: "(g :: byte) < 0x80 \<Longrightarrow> varint_read (g # rest) = Ok (ucast g, rest)"
proof -
  assume "g < 0x80"
  then have "unat g < 128" by (simp add: word_less_nat_alt)
  then have "varint_put (ucast g) = [g]"
    by (subst varint_put.simps) (auto simp: word_le_nat_alt intro!: bit_word_eqI simp: bit_simps)
  then show ?thesis using varint_read_put [of "ucast g" rest] by simp
qed

lemma ucast_byte: "(g :: byte) < 0x80 \<Longrightarrow> \<not> (ucast g :: u64) > 0x80" "ucast (ucast g :: u64) = g"
  by (simp add: word_less_nat_alt, rule bit_word_eqI, auto simp: bit_simps)

lemma map_of_alist [simp]:
  "map_of (AList.delete k al) = (map_of al)(k := None)" "map_of (AList.update k v al) = (map_of al)(k \<mapsto> v)"
  by (simp_all add: delete_conv' update_conv')

definition starts_or_continues :: "u64 \<Rightarrow> byte \<Rightarrow> MessageIn \<Rightarrow> ('d, 'i) BLIPIO \<Rightarrow> bool" where
  "starts_or_continues n f m B \<longleftrightarrow>
     map_of (io_pendingRequests B) n = Some m
     \<or> (map_of (io_pendingRequests B) n = None \<and> n = io_numRequestsReceived B + 1 \<and> m = new_MessageIn f n 0 None)"

lemma pendingRequest_Ok:
  assumes "starts_or_continues n fl m B"
  shows "\<exists>B1. pendingRequest n fl B = Ok (m, B1) \<and> all_msgs B1 = all_msgs B \<and> io_nextId B1 = io_nextId B
    \<and> io_outbox B1 = io_outbox B \<and> io_wayOutBox B1 = io_wayOutBox B
    \<and> in_same (B\<lparr>io_numRequestsReceived := if map_of (io_pendingRequests B) n = None then n else io_numRequestsReceived B,
                io_pendingRequests := io_pendingRequests B1\<rparr>) B1
    \<and> map_of (io_pendingRequests B1) = (map_of (io_pendingRequests B))(n := if hasFlag fl kMoreComing then Some m else None)"
  using assms by (auto simp: starts_or_continues_def pendingRequest_def all_msgs_def in_same_def Let_def fun_upd_idem)

lemma receive_request:
  assumes f: "req_flags f" "fl = f \<or> fl = f OR kMoreComing" and s: "starts_or_continues n fl m B" "mi_onResponse m = None" "mi_flags m = f"
    and c: "continues m k X R" "k \<le> kMaxPropertiesSize" and z: "crc_ok z" and B: "boxes_ok B" "io_receiveOpen B"
    and nul: "k \<le> length R \<Longrightarrow> k > 0 \<Longrightarrow> R ! (k - 1) = 0" and fin: "fl = f \<Longrightarrow> k \<le> length R"
  shows "\<exists>m' B'. receive z (varint_put n @ fl # X @ be_bytes 4 (cd_checksum (addToChecksum z X (io_inputCodec B)))) B =
      Ok (if fl = f then Some m' else None, B')
    \<and> mi_received m' k R \<and> mi_flags m' = f \<and> mi_number m' = mi_number m \<and> mi_onResponse m' = None \<and> mi_complete m' = (mi_complete m \<or> fl = f)
    \<and> map_of (io_pendingRequests B') = (map_of (io_pendingRequests B))(n := if fl = f then None else Some m')
    \<and> io_numRequestsReceived B' = (if map_of (io_pendingRequests B) n = None then n else io_numRequestsReceived B)
    \<and> io_inputCodec B' = addToChecksum z X (io_inputCodec B) \<and> boxes_ok B' \<and> io_receiveOpen B'"
proof -
  note fl = req_flags_simps [OF f]
  have more: "hasFlag fl kMoreComing \<longleftrightarrow> fl \<noteq> f" using f(2) fl(5,6) by auto
  define B0 where "B0 = B\<lparr>io_totalBytesRead := io_totalBytesRead B +
    word_of_nat (length (varint_put n @ fl # X @ be_bytes 4 (cd_checksum (addToChecksum z X (io_inputCodec B)))))\<rparr>"
  have b0: "io_pendingRequests B0 = io_pendingRequests B" "io_numRequestsReceived B0 = io_numRequestsReceived B" "all_msgs B0 = all_msgs B"
    "io_nextId B0 = io_nextId B" "io_inputCodec B0 = io_inputCodec B" "io_receiveOpen B0" "io_outbox B0 = io_outbox B" "io_wayOutBox B0 = io_wayOutBox B"
    using B(2) by (simp_all add: B0_def all_msgs_def)
  have "starts_or_continues n fl m B0" using s(1) by (simp add: starts_or_continues_def b0)
  from pendingRequest_Ok [OF this, unfolded b0] obtain B1 where B1: "pendingRequest n fl B0 = Ok (m, B1)" "all_msgs B1 = all_msgs B" "io_nextId B1 = io_nextId B"
    "io_outbox B1 = io_outbox B" "io_wayOutBox B1 = io_wayOutBox B" "io_inputCodec B1 = io_inputCodec B" "io_receiveOpen B1" "io_numRequestsReceived B1 = (if map_of (io_pendingRequests B) n = None then n else io_numRequestsReceived B)"
    "map_of (io_pendingRequests B1) = (map_of (io_pendingRequests B))(n := if fl = f then None else Some m)"
    using more b0 by (auto simp: in_same_def)
  have "boxes_ok B1" using B(1) B1(2-5) by (simp add: boxes_ok_def)
  from receivedFrame_raw [OF c(1) _ c(2) s(2) z this fl(2) nul] fl(8) s(3) fin more obtain m' B2 rs where
    r: "receivedFrame z (X @ be_bytes 4 (cd_checksum (addToChecksum z X (io_inputCodec B)))) fl m B1 = Ok (rs, m', B2)"
      "rs = kEnd \<longleftrightarrow> fl = f" "mi_complete m' = (mi_complete m \<or> fl = f)" "mi_received m' k R" "mi_flags m' = f" "mi_number m' = mi_number m"
      "mi_onResponse m' = None" "boxes_ok B2" "in_same (B1\<lparr>io_inputCodec := addToChecksum z X (io_inputCodec B)\<rparr>) B2"
    by (auto simp: B1(6))
  have "receive z (varint_put n @ fl # X @ be_bytes 4 (cd_checksum (addToChecksum z X (io_inputCodec B)))) B =
      Ok (if fl = f then Some m' else None, update_request n m' B2)"
    unfolding receive_def Let_def B0_def [symmetric] varint_read_put obind_Ok prod.case varint_read_byte [OF fl(4)]
    using fl(1,4) b0(6) B1(1) r(1,2) by (simp add: ucast_byte kRequestType_def)
  then show ?thesis using r(2-) B1(7-)
    by (auto simp: update_request_def in_same_def boxes_ok_def all_msgs_def)
qed

text \<open>A message apart from its count of unacknowledged bytes.\<close>

definition core :: "MessageOut \<Rightarrow> MessageOut" where
  "core m = m\<lparr>mo_unackedBytes := 0\<rparr>"

lemma core_simps [simp]:
  "mo_id (core m) = mo_id m" "mo_flags (core m) = mo_flags m" "mo_number (core m) = mo_number m" "mo_payload (core m) = mo_payload m"
  "mo_unsentPayload (core m) = mo_unsentPayload m" "mo_onResponse (core m) = mo_onResponse m" "core (mo_receivedAck bc m) = core m"
  "mo_id (mo_receivedAck bc m) = mo_id m"
  by (simp_all add: core_def mo_receivedAck_def)

lemma map_core_update:
  assumes "distinct (map mo_id ms)" "msg \<in> set ms"
  shows "map core (update_message (mo_receivedAck bc msg) ms) = map core ms"
proof -
  have "m = msg" if "m \<in> set ms" "mo_id msg = mo_id m" for m using assms that by (metis distinct_map inj_onD)
  then show ?thesis by (auto simp: update_message_def same_object_def)
qed

lemma map_id_update: "map mo_id (update_message msg ms) = map mo_id ms"
  by (induction ms) (auto simp: update_message_def same_object_def)

definition same_cores :: "('d, 'i) BLIPIO \<Rightarrow> ('d, 'i) BLIPIO \<Rightarrow> bool" where
  "same_cores io io' \<longleftrightarrow> mset (map core (all_msgs io')) = mset (map core (all_msgs io)) \<and> io_nextId io' = io_nextId io
     \<and> (queue_open (io_outbox io) \<longrightarrow> queue_open (io_outbox io')) \<and> (queue_open (io_wayOutBox io) \<longrightarrow> queue_open (io_wayOutBox io'))"

lemma same_cores_ids: "same_cores io io' \<Longrightarrow> boxes_ok io \<Longrightarrow> boxes_ok io'"
proof -
  assume s: "same_cores io io'" and ids: "boxes_ok io"
  have "mset (map mo_id (all_msgs io')) = mset (map mo_id (all_msgs io))"
    using arg_cong [of _ _ "image_mset mo_id", OF s [unfolded same_cores_def, THEN conjunct1]]
    by (simp flip: mset_map add: comp_def)
  then have d: "distinct (map mo_id (all_msgs io'))" "mo_id ` set (all_msgs io') = mo_id ` set (all_msgs io)"
    using ids mset_eq_imp_distinct_iff [of "map mo_id (all_msgs io')"] mset_eq_setD by (fastforce simp: boxes_ok_def)+
  have "mo_id m < io_nextId io'" if "m \<in> set (all_msgs io')" for m
  proof -
    have "mo_id m \<in> mo_id ` set (all_msgs io)" using that d(2) by blast
    then show ?thesis using ids s by (auto simp: boxes_ok_def same_cores_def)
  qed
  then show ?thesis using d(1) s ids by (simp add: boxes_ok_def same_cores_def)
qed

lemma mset_filter_object:
  assumes "distinct (map mo_id ms)" "msg \<in> set ms"
  shows "mset ms = add_mset msg (mset (filter (\<lambda>m. \<not> same_object msg m) ms))"
  using assms
proof (induction ms)
  case (Cons a ms)
  show ?case
  proof (cases "a = msg")
    case True
    have "filter (\<lambda>m. \<not> same_object msg m) ms = ms"
      using Cons.prems True by (auto simp: same_object_def intro!: filter_True)
    then show ?thesis using True by (simp add: same_object_def)
  next
    case False
    then have "msg \<in> set ms" "\<not> same_object msg a" using Cons.prems by (auto simp: same_object_def rev_image_eqI)
    then show ?thesis using Cons by (simp add: add_mset_commute)
  qed
qed simp

lemma thaw_cores:
  assumes ids: "distinct (map mo_id (io_icebox io))" and m: "msg \<in> set (io_icebox io)" and o: "queue_open (io_outbox io)"
    and t: "thawMessage msg io = Ok io'"
  shows "in_same io io' \<and> same_cores io io'"
proof -
  obtain q where q: "requeue msg (io_outbox io) = Ok q"
    "io' = io\<lparr>io_icebox := filter (\<lambda>m. \<not> same_object msg m) (io_icebox io), io_outbox := q\<rparr>"
    using t by (auto simp: thawMessage_def assert_that_eq_Ok obind_eq_Ok)
  note r = requeue_open [OF q(1) o]
  have "mset (all_msgs io') = mset (all_msgs io)"
    using mset_filter_object [OF ids m] r by (simp add: all_msgs_def q(2))
  then show ?thesis using r q(2) by (simp add: in_same_def same_cores_def)
qed

lemma receivedAck_cores:
  assumes ok: "boxes_ok io" and r: "io_receivedAck n b body io = Ok io'"
  shows "in_same io io' \<and> same_cores io io'"
proof -
  have d: "distinct (map mo_id (aq_queue (io_outbox io)))" "distinct (map mo_id (io_icebox io))" "queue_open (io_outbox io)"
    using ok by (auto simp: boxes_ok_def all_msgs_def)
  consider (out) msg where "findMessage n b (io_outbox io) = Some msg"
    | (none) "findMessage n b (io_outbox io) = None" "List.find (\<lambda>m. mo_number m = n \<and> isResponse (mo_flags m) = b) (io_icebox io) = None"
    | (ice) msg where "findMessage n b (io_outbox io) = None" "List.find (\<lambda>m. mo_number m = n \<and> isResponse (mo_flags m) = b) (io_icebox io) = Some msg"
    by fastforce
  then show ?thesis
  proof cases
    case out
    then have m: "msg \<in> set (aq_queue (io_outbox io))" by (auto simp: findMessage_def aq_find_if_def find_Some_iff)
    obtain bc where io': "io' = io\<lparr>io_outbox := (io_outbox io)\<lparr>aq_queue := update_message (mo_receivedAck bc msg) (aq_queue (io_outbox io))\<rparr>\<rparr>"
      using out r by (auto simp: io_receivedAck_def obind_eq_Ok)
    show ?thesis unfolding io' using map_core_update [OF d(1) m, of bc]
      by (simp add: in_same_def same_cores_def all_msgs_def flip: mset_map)
  next
    case none
    then show ?thesis using r by (auto simp: io_receivedAck_def in_same_def same_cores_def)
  next
    case ice
    then have m: "msg \<in> set (io_icebox io)" by (auto simp: find_Some_iff)
    define io1 where "io1 bc = io\<lparr>io_icebox := update_message (mo_receivedAck bc msg) (io_icebox io)\<rparr>" for bc
    have c1: "in_same io (io1 bc)" "same_cores io (io1 bc)" for bc
      using map_core_update [OF d(2) m, of bc] by (simp_all add: io1_def in_same_def same_cores_def all_msgs_def flip: mset_map)
    have m1: "mo_receivedAck bc msg \<in> set (io_icebox (io1 bc))" for bc
      using m by (auto simp: io1_def update_message_def same_object_def intro!: image_eqI [of _ _ msg])
    have m2: "distinct (map mo_id (io_icebox (io1 bc)))" "queue_open (io_outbox (io1 bc))" for bc
      using d(2,3) by (simp_all add: io1_def map_id_update)
    obtain bc where "io' = io1 bc \<or> thawMessage (mo_receivedAck bc msg) (io1 bc) = Ok io'"
      using ice r by (auto simp: io_receivedAck_def obind_eq_Ok io1_def Let_def split: if_splits)
    then show ?thesis using c1 thaw_cores [OF m2(1) m1 m2(2)] by (auto simp: in_same_def same_cores_def)
  qed
qed

lemma receivedAck_Ok:
  assumes "boxes_ok io"
  shows "\<exists>io'. io_receivedAck n b (varint_put k) io = Ok io'"
proof -
  have v: "varint_read (varint_put k) = Ok (k, [])" using varint_read_put [of k "[]"] by simp
  have thaw: "\<exists>io'. thawMessage (mo_receivedAck bc msg) (io\<lparr>io_icebox := update_message (mo_receivedAck bc msg) (io_icebox io)\<rparr>) = Ok io'"
    if m: "msg \<in> set (io_icebox io)" for msg bc
  proof -
    have "mo_id msg \<notin> mo_id ` set (aq_queue (io_outbox io))" using assms m by (auto simp: boxes_ok_def all_msgs_def)
    then obtain q where "requeue (mo_receivedAck bc msg) (io_outbox io) = Ok q" using requeue_Ok by fastforce
    moreover have "mo_id msg \<in> mo_id ` set (update_message (mo_receivedAck bc msg) (io_icebox io))"
      using m map_id_update [of "mo_receivedAck bc msg" "io_icebox io"] by (metis image_eqI list.set_map)
    ultimately show ?thesis by (simp add: thawMessage_def find_same_object flip: not_None_eq)
  qed
  show ?thesis using thaw by (auto simp: io_receivedAck_def v Let_def find_Some_iff split: option.split)
qed

lemma receive_ack:
  assumes f: "ack_flags f" and B: "boxes_ok B"
  shows "\<exists>B'. receive z (varint_put n @ f # varint_put k) B = Ok (None, B') \<and> in_same B B' \<and> boxes_ok B'"
proof -
  define B0 where "B0 = B\<lparr>io_totalBytesRead := io_totalBytesRead B + word_of_nat (length (varint_put n @ f # varint_put k))\<rparr>"
  have b0: "boxes_ok B0" "in_same B B0" using B by (simp_all add: B0_def boxes_ok_def all_msgs_def in_same_def)
  obtain B' where B': "io_receivedAck n (f AND kTypeMask = kAckResponseType) (varint_put k) B0 = Ok B'"
    using receivedAck_Ok [OF b0(1)] by blast
  from receivedAck_cores [OF b0(1) B'] have "in_same B0 B'" "boxes_ok B'" using same_cores_ids b0(1) by blast+
  moreover have "receive z (varint_put n @ f # varint_put k) B = Ok (None, B')"
    unfolding receive_def Let_def B0_def [symmetric] varint_read_put obind_Ok prod.case varint_read_byte [OF ack_flags_simps(1) [OF f]]
    using ack_flags_simps [OF f] B' by (auto simp: ucast_byte blip_consts)
  ultimately show ?thesis using b0(2) by (auto simp: in_same_def)
qed

subsection \<open>Sending frames\<close>

lemma frame_room_bounds: "kDefaultFrameSize + kMaxFrameOverhead \<le> frame_room m io"
  by (simp add: frame_room_def kBigFrameSize_def kDefaultFrameSize_def)

text \<open>What the operations on the sending side need and keep, apart from the boxes.\<close>

definition out_same :: "('d, 'i) BLIPIO \<Rightarrow> ('d, 'i) BLIPIO \<Rightarrow> bool" where
  "out_same io io' \<longleftrightarrow> io_sendOpen io' = io_sendOpen io \<and> io_lastMessageNo io' = io_lastMessageNo io
     \<and> io_outputCodec io' = io_outputCodec io \<and> io_nextId io' = io_nextId io
     \<and> (queue_open (io_outbox io) \<longrightarrow> queue_open (io_outbox io')) \<and> (queue_open (io_wayOutBox io) \<longrightarrow> queue_open (io_wayOutBox io'))"

lemma createNextFrame_raw:
  assumes "createNextFrame z m A = Ok (frame, A')" "\<not> isAck (mo_flags m)" "\<not> hasFlag (mo_flags m) kCompressed" "crc_ok z"
    "out_codec_ok (io_outputCodec A)"
  obtains n m1 A1 where "n \<ge> 4096 \<or> n = length (mo_unsentPayload m)" "m1 = m\<lparr>mo_number := if mo_number m = 0 then io_lastMessageNo A + 1 else mo_number m,
      mo_unsentPayload := drop n (mo_unsentPayload m), mo_uncompressedBytesSent := mo_uncompressedBytesSent m1, mo_bytesSent := mo_bytesSent m1,
      mo_unackedBytes := mo_unackedBytes m1\<rparr>"
    "A1 = A\<lparr>io_lastMessageNo := if mo_number m = 0 then io_lastMessageNo A + 1 else io_lastMessageNo A,
      io_outputCodec := addToChecksum z (take n (mo_unsentPayload m)) (io_outputCodec A)\<rparr>"
    "frame_sent (if drop n (mo_unsentPayload m) \<noteq> [] then mo_flags m OR kMoreComing else mo_flags m) m1 A1 = Ok A'"
    "frame = varint_put (mo_number m1) @ (if drop n (mo_unsentPayload m) \<noteq> [] then mo_flags m OR kMoreComing else mo_flags m)
      # take n (mo_unsentPayload m) @ be_bytes 4 (cd_checksum (addToChecksum z (take n (mo_unsentPayload m)) (io_outputCodec A)))"
proof -
  obtain m0 A0 where a: "assign_number m A = (m0, A0)" by (cases "assign_number m A")
  then have m0: "m0 = m\<lparr>mo_number := if mo_number m = 0 then io_lastMessageNo A + 1 else mo_number m\<rparr>"
    "A0 = A\<lparr>io_lastMessageNo := if mo_number m = 0 then io_lastMessageNo A + 1 else io_lastMessageNo A\<rparr>"
    by (auto simp: assign_number_def split: if_splits)
  have l: "length (varint_put (mo_number m0)) \<le> 10" using length_varint_put [of "mo_number m0"] by (simp add: kMaxSize_def)
  define room where "room = frame_room m0 A0 - length (varint_put (mo_number m0)) - 1"
  have room: "room \<ge> 4100" using frame_room_bounds [of m0 A0] l
    by (simp add: room_def kDefaultFrameSize_def kMaxFrameOverhead_def kMaxSize_def kChecksumSize_def)
  have w: "varint_write (mo_number m0) \<lparr>mb_written = [], mb_room = frame_room m0 A0\<rparr> =
      Ok \<lparr>mb_written = varint_put (mo_number m0), mb_room = frame_room m0 A0 - length (varint_put (mo_number m0))\<rparr>"
    using l frame_room_bounds [of m0 A0] by (simp add: varint_write_def MutableBytes_write_fits kDefaultFrameSize_def)
  have as: "\<not> isAck (mo_flags m0)" "\<not> hasFlag (mo_flags m0) kCompressed" "out_codec_ok (io_outputCodec A0)" "room > 4"
    using assms(2,3,5) m0 room by simp_all
  define n where "n = min (length (mo_unsentPayload m0)) (room - 4)"
  define m1 where "m1 = m0\<lparr>mo_unsentPayload := drop n (mo_unsentPayload m0), mo_uncompressedBytesSent := mo_uncompressedBytesSent m0 + word_of_nat n,
    mo_bytesSent := mo_bytesSent m0 + word_of_nat (n + 4), mo_unackedBytes := mo_unackedBytes m0 + word_of_nat (n + 4)\<rparr>"
  define codec1 where "codec1 = addToChecksum z (take n (mo_unsentPayload m0)) (io_outputCodec A0)"
  define fl where "fl = (if drop n (mo_unsentPayload m0) \<noteq> [] then mo_flags m0 OR kMoreComing else mo_flags m0)"
  have "nextFrameToSend z m0 (io_outputCodec A0) \<lparr>mb_written = [], mb_room = room\<rparr> =
      Ok (fl, \<lparr>mb_written = take n (mo_unsentPayload m0) @ be_bytes 4 (cd_checksum codec1), mb_room = room - 4 - n\<rparr>, m1, codec1)"
    unfolding fl_def m1_def codec1_def n_def by (rule nextFrameToSend_raw [OF as(1,2,4) assms(4) as(3)])
  then have c: "frame_sent fl m1 (A0\<lparr>io_outputCodec := codec1\<rparr>) = Ok A'"
    "frame = varint_put (mo_number m0) @ fl # take n (mo_unsentPayload m0) @ be_bytes 4 (cd_checksum codec1)"
    using assms(1) by (auto simp: createNextFrame_def a w room_def obind_eq_Ok)
  have f: "mo_unsentPayload m0 = mo_unsentPayload m" "mo_flags m0 = mo_flags m" "io_outputCodec A0 = io_outputCodec A" "mo_number m1 = mo_number m0"
    using m0 by (simp_all add: m1_def)
  have "n \<ge> 4096 \<or> n = length (mo_unsentPayload m)" using room by (auto simp: n_def f)
  moreover have "m1 = m\<lparr>mo_number := if mo_number m = 0 then io_lastMessageNo A + 1 else mo_number m,
      mo_unsentPayload := drop n (mo_unsentPayload m), mo_uncompressedBytesSent := mo_uncompressedBytesSent m1, mo_bytesSent := mo_bytesSent m1,
      mo_unackedBytes := mo_unackedBytes m1\<rparr>" unfolding m1_def m0 by simp
  moreover have "A0\<lparr>io_outputCodec := codec1\<rparr> = A\<lparr>io_lastMessageNo := if mo_number m = 0 then io_lastMessageNo A + 1 else io_lastMessageNo A,
      io_outputCodec := addToChecksum z (take n (mo_unsentPayload m)) (io_outputCodec A)\<rparr>" unfolding codec1_def f m0(2) by simp
  moreover note c(1) [unfolded fl_def f(1,2)]
  moreover have "frame = varint_put (mo_number m1) @ (if drop n (mo_unsentPayload m) \<noteq> [] then mo_flags m OR kMoreComing else mo_flags m)
      # take n (mo_unsentPayload m) @ be_bytes 4 (cd_checksum (addToChecksum z (take n (mo_unsentPayload m)) (io_outputCodec A)))"
    unfolding c(2) fl_def codec1_def f ..
  ultimately show ?thesis by (rule that)
qed

lemma createNextFrame_ack:
  assumes "createNextFrame z m A = Ok (frame, A')" "ack_ok m" "mo_number m \<noteq> 0"
  shows "A' = A \<and> (\<exists>k. frame = varint_put (mo_number m) @ mo_flags m # varint_put k)"
proof -
  obtain k where k: "mo_unsentPayload m = varint_put k" "ack_flags (mo_flags m)" using assms(2) by (auto simp: ack_ok_def)
  have l: "length (varint_put (mo_number m)) \<le> 10" "length (varint_put k) \<le> 10"
    using length_varint_put [of "mo_number m"] length_varint_put [of k] by (simp_all add: kMaxSize_def)
  have w: "varint_write (mo_number m) \<lparr>mb_written = [], mb_room = frame_room m A\<rparr> =
      Ok \<lparr>mb_written = varint_put (mo_number m), mb_room = frame_room m A - length (varint_put (mo_number m))\<rparr>"
    using l frame_room_bounds [of m A] by (simp add: varint_write_def MutableBytes_write_fits kDefaultFrameSize_def)
  have "length (varint_put k) \<le> frame_room m A - length (varint_put (mo_number m)) - 1"
    using l frame_room_bounds [of m A] by (simp add: kDefaultFrameSize_def)
  then have "MutableBytes_write (varint_put k) \<lparr>mb_written = [], mb_room = frame_room m A - length (varint_put (mo_number m)) - 1\<rparr> =
      (length (varint_put k), \<lparr>mb_written = varint_put k, mb_room = frame_room m A - length (varint_put (mo_number m)) - 1 - length (varint_put k)\<rparr>)"
    by (simp add: MutableBytes_write_fits)
  then show ?thesis using assms(1,3) k w ack_flags_simps(2) [OF k(2)]
    by (auto simp: createNextFrame_def assign_number_def nextFrameToSend_def frame_sent_def)
qed

lemma frame_sent_more:
  assumes "frame_sent fl m io = Ok io'" "\<not> isAck (mo_flags m)" "hasFlag fl kMoreComing" "queue_open (io_outbox io)"
  shows "mset (all_msgs io') = add_mset m (mset (all_msgs io)) \<and> out_same io io' \<and> io_pendingResponses io' = io_pendingResponses io"
  using assms requeue_open
  by (fastforce simp: frame_sent_def freezeMessage_def assert_that_eq_Ok obind_eq_Ok all_msgs_def out_same_def split: if_splits)

text \<open>The numbers of the responses a peer waits for are those of requests it has sent.\<close>

definition resp_ok :: "('d, 'i) BLIPIO \<Rightarrow> bool" where
  "resp_ok io \<longleftrightarrow> (\<forall>n m. map_of (io_pendingResponses io) n = Some m \<longrightarrow> mi_number m \<noteq> 0)"

lemma queueMessage_open:
  assumes "queueMessage m io = Ok (b, io')" "io_sendOpen io" "queue_open (io_outbox io)"
  shows "mset (aq_queue (io_outbox io')) = add_mset m (mset (aq_queue (io_outbox io))) \<and> io_icebox io' = io_icebox io
    \<and> io_wayOutBox io' = io_wayOutBox io \<and> out_same io io' \<and> io_pendingResponses io' = io_pendingResponses io"
  using assms requeue_open by (fastforce simp: queueMessage_def obind_eq_Ok Let_def out_same_def)

lemma aq_maybePop_open:
  assumes "aq_maybePop q = Ok (r, q')" "queue_open q"
  shows "queue_open q' \<and> aq_queue q = (case r of None \<Rightarrow> [] | Some m \<Rightarrow> [m]) @ aq_queue q'"
  using assms by (auto simp: aq_maybePop_def aq_pop_def super_pop_def aq_full_def queue_open_def obind_eq_Ok Let_def split: list.splits if_splits)

lemma resolve_same: "resolve f r io = Ok io' \<Longrightarrow> io' = io\<lparr>io_resolved := io_resolved io @ [(f, r)]\<rparr>"
  by (auto simp: resolve_def split: if_splits)

lemma frame_sent_last:
  assumes "frame_sent fl m io = Ok io'" "\<not> isAck (mo_flags m)" "\<not> hasFlag fl kMoreComing" "queue_open (io_outbox io)"
    "queue_open (io_wayOutBox io)" "io_sendOpen io" "mo_number m \<noteq> 0" "resp_ok io"
  shows "mset (all_msgs io') = mset (all_msgs io) \<and> out_same io io' \<and> resp_ok io'"
proof -
  from assms(1-3) have ms: "message_sent m io = Ok io'" by (simp add: frame_sent_def)
  then obtain r way where p: "aq_maybePop (io_wayOutBox io) = Ok (r, way)" by (auto simp: message_sent_def obind_eq_Ok)
  note pop = aq_maybePop_open [OF p assms(5)]
  from ms p obtain io1 where io1: "(case r of None \<Rightarrow> Ok (io\<lparr>io_wayOutBox := way\<rparr>)
      | Some m \<Rightarrow> obind (queueMessage m (io\<lparr>io_wayOutBox := way\<rparr>)) (\<lambda>(_, io1). Ok io1)) = Ok io1"
    by (auto simp: message_sent_def obind_eq_Ok)
  have all1: "mset (all_msgs io1) = mset (all_msgs io) \<and> out_same io io1 \<and> resp_ok io1"
  proof (cases r)
    case None
    then show ?thesis using io1 pop assms(8) by (auto simp: all_msgs_def out_same_def resp_ok_def)
  next
    case (Some m')
    then obtain b where "queueMessage m' (io\<lparr>io_wayOutBox := way\<rparr>) = Ok (b, io1)" using io1 by (auto simp: obind_eq_Ok)
    from queueMessage_open [OF this] show ?thesis
      using pop assms(4,6,8) Some by (auto simp: all_msgs_def out_same_def resp_ok_def)
  qed
  from ms p io1 have "(case createResponse m of
       Some (response, _) \<Rightarrow>
         Ok (if map_of (io_pendingResponses io1) (mi_number response) = None
             then io1\<lparr>io_pendingResponses := AList.update (mi_number response) response (io_pendingResponses io1)\<rparr> else io1)
     | None \<Rightarrow> noResponse m io1) = Ok io'"
    by (auto simp: message_sent_def)
  then show ?thesis using all1 assms(7)
    by (auto simp: createResponse_def noResponse_def new_MessageIn_def all_msgs_def out_same_def resp_ok_def
        dest!: resolve_same split: if_splits option.splits)
qed

lemma gen_run_item:
  assumes "gen_run g pc q = Ok (GenItem m, pc', q')" "queue_open q"
  shows "aq_queue q = m # aq_queue q' \<and> queue_open q'"
proof -
  have pop: "aq_queue q0 = m # aq_queue q' \<and> queue_open q'" if "gen_pop q0 = Ok (GenItem m, pc', q')" "queue_open q0" for q0
    using that by (auto simp: gen_pop_def aq_pop_def super_pop_def aq_full_def queue_open_def obind_eq_Ok Let_def split: list.splits)
  show ?thesis using assms pop [of q] pop [of "q\<lparr>aq_generating := True\<rparr>"]
    by (cases pc) (auto simp: gen_loop_def gen_tail_def queue_open_def assert_that_eq_Ok split: if_splits)
qed

lemma gen_run_blocked:
  assumes "gen_run g pc q = Ok (GenBlocked, pc', q')" "queue_open q"
  shows "aq_queue q' = aq_queue q \<and> queue_open q'"
  using assms
  by (cases pc) (auto simp: gen_loop_def gen_pop_def gen_tail_def queue_open_def assert_that_eq_Ok obind_eq_Ok split: if_splits)

subsection \<open>New requests\<close>

lemma set_onResponse_map: "set_onResponse i f ms = map (\<lambda>m. if mo_id m = i then m\<lparr>mo_onResponse := Some f\<rparr> else m) ms"
  by (simp add: set_onResponse_def)

lemma io_send_open:
  assumes "io_send m io = Ok (b, io')" "io_sendOpen io" "queue_open (io_outbox io)" "queue_open (io_wayOutBox io)"
  shows "mset (all_msgs io') = add_mset m (mset (all_msgs io)) \<and> io_icebox io' = io_icebox io \<and> out_same io io'
    \<and> io_pendingResponses io' = io_pendingResponses io"
proof (cases "is_urgent (mo_flags m) \<or> length (aq_queue (io_outbox io)) < kOutboxCapacity")
  case True
  then have "queueMessage m io = Ok (b, io')" using assms(1) by (simp add: io_send_def)
  from queueMessage_open [OF this assms(2,3)] show ?thesis by (auto simp: all_msgs_def)
next
  case False
  then have "b" "io' = io\<lparr>io_wayOutBox := notify_first_item ((io_wayOutBox io)\<lparr>aq_queue := aq_queue (io_wayOutBox io) @ [m]\<rparr>)\<rparr>"
    using assms(1,4) by (auto simp: io_send_def aq_push_def super_push_def aq_full_def queue_open_def)
  then show ?thesis by (simp add: all_msgs_def out_same_def)
qed

lemma sendRequest_adds:
  assumes s: "sendRequest mb io = Ok (f, mb', io')" and io: "boxes_ok io" "io_sendOpen io" and mb: "bld_ok mb"
  shows "\<exists>m. mset (all_msgs io') = add_mset m (mset (all_msgs io)) \<and> boxes_ok io' \<and> mo_flags m = bld_flags mb \<and> mo_number m = 0
    \<and> mo_payload m = bld_out mb' \<and> mo_unsentPayload m = bld_out mb' \<and> payload_ok (bld_out mb') \<and> msg_type (bld_flags mb) = kRequestType
    \<and> io_sendOpen io' \<and> io_lastMessageNo io' = io_lastMessageNo io \<and> io_outputCodec io' = io_outputCodec io
    \<and> io_pendingResponses io' = io_pendingResponses io"
proof -
  let ?i = "io_nextId io"
  obtain payload mb1 m0 b io1 where fin: "bld_finish mb = Ok (payload, mb1)" and m0: "new_MessageOut ?i 0 payload 0 = Ok m0" and
    t: "msg_type (bld_flags mb1) = kRequestType" and send: "io_send (m0\<lparr>mo_flags := bld_flags mb1\<rparr>) (io\<lparr>io_nextId := ?i + 1 + 1\<rparr>) = Ok (b, io1)" and
    io': "mb' = mb1" "io' = io1\<lparr>io_outbox := (io_outbox io1)\<lparr>aq_queue := set_onResponse ?i (?i + 1) (aq_queue (io_outbox io1))\<rparr>,
                  io_wayOutBox := (io_wayOutBox io1)\<lparr>aq_queue := set_onResponse ?i (?i + 1) (aq_queue (io_wayOutBox io1))\<rparr>\<rparr>"
    using s by (auto simp: sendRequest_def new_MessageOut_built_def obind_eq_Ok assert_that_eq_Ok Let_def)
  note p = bld_finish_payload [OF fin mb]
  define m1 where "m1 = m0\<lparr>mo_flags := bld_flags mb1\<rparr>"
  define g where "g = (\<lambda>m :: MessageOut. if mo_id m = ?i then m\<lparr>mo_onResponse := Some (?i + 1)\<rparr> else m)"
  have m1: "mo_id m1 = ?i" "mo_flags m1 = bld_flags mb" "mo_number m1 = 0" "mo_payload m1 = payload" "mo_unsentPayload m1 = payload"
    using m0 p by (auto simp: m1_def new_MessageOut_def assert_that_eq_Ok)
  have q: "queue_open (io_outbox io)" "queue_open (io_wayOutBox io)" using io by (auto simp: boxes_ok_def)
  from io_send_open [OF send] io(2) q have a1: "mset (all_msgs io1) = add_mset m1 (mset (all_msgs io))" "io_icebox io1 = io_icebox io"
    "out_same (io\<lparr>io_nextId := ?i + 1 + 1\<rparr>) io1" "io_pendingResponses io1 = io_pendingResponses io"
    by (simp_all add: m1_def)
  have fresh: "\<forall>m \<in> set (all_msgs io). g m = m" using io(1) by (fastforce simp: boxes_ok_def g_def)
  have ice: "map g (io_icebox io) = io_icebox io" using fresh by (intro map_idI) (auto simp: all_msgs_def)
  have "all_msgs io' = map g (all_msgs io1)"
    using a1(2) ice by (simp add: all_msgs_def io'(2) set_onResponse_map g_def)
  then have all: "mset (all_msgs io') = add_mset (g m1) (mset (all_msgs io))"
    using a1(1) map_idI [of "all_msgs io" g] fresh by (metis image_mset_add_mset mset_map)
  have "boxes_ok io'"
    by (rule boxes_ok_added [OF io(1), of "g m1"]) (use all a1(3) q m1 io'(2) in \<open>simp_all add: added_def out_same_def g_def\<close>)
  then show ?thesis using all a1(3,4) m1 p io' io(2) t
    by (intro exI [of _ "g m1"]) (simp add: g_def out_same_def)
qed

subsection \<open>What receiving does to the sending side\<close>

lemma read_properties_number:
  "read_properties_size z mode fl fr m c = Ok (fr', m', c') \<Longrightarrow> mi_number m' = mi_number m"
  "read_properties z mode fr m c = Ok (rs, fr', m', c') \<Longrightarrow> mi_number m' = mi_number m"
  by (auto simp: read_properties_size_def read_properties_def obind_eq_Ok raise_blip_def Let_def split: if_splits)

lemma finish_message_same:
  "finish_message rs m io = Ok (rs', m', io') \<Longrightarrow> mi_number m' = mi_number m \<and> (\<exists>r. io' = io\<lparr>io_resolved := r\<rparr>)"
  by (auto simp: finish_message_def raise_blip_def obind_eq_Ok Let_def split: if_splits option.splits dest!: resolve_same intro: exI [of _ "io_resolved io"])

definition sending_same :: "('d, 'i) BLIPIO \<Rightarrow> ('d, 'i) BLIPIO \<Rightarrow> bool" where
  "sending_same io io' \<longleftrightarrow> io_sendOpen io' = io_sendOpen io \<and> io_lastMessageNo io' = io_lastMessageNo io \<and> io_outputCodec io' = io_outputCodec io"

text \<open>Nothing changes in the boxes but the counts of acknowledged bytes, and an acknowledgement of a message that is pending may be added.\<close>

definition acks_added :: "('d, 'i) BLIPIO \<Rightarrow> ('d, 'i) BLIPIO \<Rightarrow> bool" where
  "acks_added io io' \<longleftrightarrow> boxes_ok io' \<and> sending_same io io'
     \<and> (\<exists>acks. mset (map core (all_msgs io')) = mset (map core (all_msgs io)) + acks \<and> (\<forall>a \<in># acks. ack_ok a \<and> mo_number a \<noteq> 0))"

lemma ack_ok_core: "ack_ok (core m) = ack_ok m"
  by (simp add: ack_ok_def)

lemma receivedFrame_out:
  assumes r: "receivedFrame z fr fl m io = Ok (rs, m', io')" and io: "boxes_ok io" "mi_number m \<noteq> 0"
  shows "acks_added io io' \<and> mi_number m' = mi_number m \<and> io_pendingResponses io' = io_pendingResponses io"
proof -
  let ?m = "m\<lparr>mi_rawBytesReceived := mi_rawBytesReceived m + word_of_nat (length fr)\<rparr>"
  from acknowledge_ok [OF io(1), of "length fr" ?m] obtain u io1 ack where
    a: "mi_acknowledge (length fr) ?m io = Ok (?m\<lparr>mi_unackedBytes := u\<rparr>, io1)" "in_same io io1" "boxes_ok io1" "added ack io io1" "ack_ok ack"
      "mo_number ack = mi_number m" by auto
  have add: "acks_added io (io1\<lparr>io_inputCodec := c, io_resolved := s\<rparr>)" for c s
  proof -
    have "\<exists>acks. mset (map core (all_msgs io1)) = mset (map core (all_msgs io)) + acks \<and> (\<forall>a \<in># acks. ack_ok a \<and> mo_number a \<noteq> 0)"
    proof (cases "mset (all_msgs io1) = mset (all_msgs io)")
      case True
      then show ?thesis by (intro exI [of _ "{#}"]) simp
    next
      case False
      then have "mset (all_msgs io1) = add_mset ack (mset (all_msgs io))" using a(4) by (simp add: added_def)
      then show ?thesis using a(5,6) io(2) by (intro exI [of _ "{#core ack#}"]) (simp add: ack_ok_core)
    qed
    then show ?thesis using a(2,3) by (simp add: acks_added_def sending_same_def in_same_def boxes_ok_def all_msgs_def)
  qed
  have "\<exists>c s. io' = io1\<lparr>io_inputCodec := c, io_resolved := s\<rparr> \<and> mi_number m' = mi_number m"
    using r unfolding receivedFrame_def a(1)
    by (fastforce simp: obind_eq_Ok Let_def split: if_splits dest!: read_properties_number finish_message_same
        intro: exI [of _ "io_resolved io1"])
  then show ?thesis using add a(2) by (auto simp: in_same_def)
qed

definition frame_type :: "byte list \<Rightarrow> byte option" where
  "frame_type fr =
     (case varint_read fr of
        Inl _ \<Rightarrow> None
      | Inr (_, fr1) \<Rightarrow> (case varint_read fr1 of Inl _ \<Rightarrow> None | Inr (f, _) \<Rightarrow> Some (ucast f AND kTypeMask)))"

lemma acks_added_refl: "boxes_ok io \<Longrightarrow> sending_same io io' \<Longrightarrow> same_cores io io' \<Longrightarrow> acks_added io io'"
  using same_cores_ids by (auto simp: acks_added_def same_cores_def intro!: exI [of _ "{#}"])

lemma resp_ok_delete: "resp_ok io \<Longrightarrow> resp_ok (io\<lparr>io_pendingResponses := AList.delete n (io_pendingResponses io)\<rparr>)"
  by (auto simp: resp_ok_def split: if_splits)

lemma receive_response:
  assumes p: "pendingResponse n fl io = Ok (m, io1)" and r: "receivedFrame z fr fl m io1 = Ok (rs, m', io2)"
    and io: "boxes_ok io" "resp_ok io"
  shows "acks_added io (update_response n m' io2) \<and> resp_ok (update_response n m' io2)"
proof -
  have n: "map_of (io_pendingResponses io) n = Some m" "io1 = io \<or> io1 = io\<lparr>io_pendingResponses := AList.delete n (io_pendingResponses io)\<rparr>"
    using p by (auto simp: pendingResponse_def raise_blip_def split: option.splits if_splits)
  have m: "mi_number m \<noteq> 0" using n(1) io(2) unfolding resp_ok_def by blast
  have m: "mi_number m \<noteq> 0" "resp_ok io1" "boxes_ok io1" "all_msgs io1 = all_msgs io" "sending_same io io1"
    using m n(2) io resp_ok_delete [OF io(2), of n] by (auto simp: boxes_ok_def sending_same_def)
  from receivedFrame_out [OF r m(3,1)] have a: "acks_added io1 io2" "mi_number m' = mi_number m" "io_pendingResponses io2 = io_pendingResponses io1"
    by auto
  have "acks_added io io2" using a(1) m(4,5) by (auto simp: acks_added_def sending_same_def)
  then have "acks_added io (update_response n m' io2)"
    by (simp add: acks_added_def update_response_def sending_same_def boxes_ok_def all_msgs_def)
  moreover have "resp_ok (update_response n m' io2)" using m(1,2) a(2,3) by (simp add: resp_ok_def update_response_def)
  ultimately show ?thesis ..
qed

lemma receive_client:
  assumes r: "receive z fr io = Ok (r, io')" and io: "boxes_ok io" "resp_ok io" and t: "frame_type fr \<noteq> Some kRequestType"
  shows "acks_added io io' \<and> resp_ok io'"
proof -
  define io0 where "io0 = io\<lparr>io_totalBytesRead := io_totalBytesRead io + word_of_nat (length fr)\<rparr>"
  have io0: "boxes_ok io0" "resp_ok io0" "same_cores io io0" "sending_same io io0"
    using io by (simp_all add: io0_def boxes_ok_def resp_ok_def same_cores_def sending_same_def all_msgs_def)
  have lift: "acks_added io x" if "acks_added io0 x" for x
    using that io0(3,4) by (auto simp: acks_added_def same_cores_def sending_same_def)
  obtain n fr1 f fr2 where v: "varint_read fr = Ok (n, fr1)" "varint_read fr1 = Ok (f, fr2)" using r by (auto simp: receive_def obind_eq_Ok Let_def)
  let ?fl = "ucast f :: byte"
  have "?fl AND kTypeMask \<noteq> kRequestType" using t v by (simp add: frame_type_def)
  then consider "r = None" "io' = io0"
    | m io1 rs m' io2 where "pendingResponse n ?fl io0 = Ok (m, io1)" "receivedFrame z fr2 ?fl m io1 = Ok (rs, m', io2)" "io' = update_response n m' io2"
    | "io_receivedAck n (?fl AND kTypeMask = kAckResponseType) fr2 io0 = Ok io'"
    using r by (auto simp: receive_def v raise_blip_def obind_eq_Ok Let_def simp flip: io0_def split: if_splits)
  then show ?thesis
  proof cases
    case 1
    then show ?thesis using acks_added_refl [OF io(1) io0(4,3)] io0(2) by simp
  next
    case (2 m io1 rs m' io2)
    then show ?thesis using receive_response [OF 2(1,2) io0(1,2)] lift by simp
  next
    case 3
    from receivedAck_cores [OF io0(1) 3] have "in_same io0 io'" "same_cores io0 io'" by auto
    then show ?thesis using acks_added_refl [OF io0(1)] lift io0(2) by (simp add: in_same_def sending_same_def resp_ok_def)
  qed
qed

end
