(* ===== verification/BlipRequests.thy ===== *)
theory BlipRequests
  imports BlipDelivery
begin

text \<open>
  The requests that one BLIP peer sends reach the other complete and unaltered, however the outbox interleaves their frames. The invariant
  relates the sender's boxes to the receiver's pending requests after it has received all frames sent so far.
\<close>

subsection \<open>The invariant\<close>

text \<open>
  A request in a box has well-formed contents. Either nothing of it was sent, or it is not done and the receiver has what was sent.
\<close>

definition req_sync :: "('d, 'i) BLIPIO \<Rightarrow> MessageOut \<Rightarrow> bool" where
  "req_sync B m \<longleftrightarrow> req_flags (mo_flags m) \<and>
     (\<exists>props body. length props \<le> kMaxPropertiesSize \<and> props_ok props
        \<and> mo_payload m = varint_put (word_of_nat (length props)) @ props @ body
        \<and> (if mo_number m = 0 then mo_unsentPayload m = mo_payload m
           else mo_unsentPayload m \<noteq> [] \<and>
             (\<exists>R mi. mo_payload m = varint_put (word_of_nat (length props)) @ R @ mo_unsentPayload m
                \<and> map_of (io_pendingRequests B) (mo_number m) = Some mi \<and> mi_received mi (length props) R
                \<and> mi_flags mi = mo_flags m \<and> mi_onResponse mi = None \<and> \<not> mi_complete mi)))"

definition msgs_sync :: "('d, 'i) BLIPIO \<Rightarrow> MessageOut multiset \<Rightarrow> bool" where
  "msgs_sync B M \<longleftrightarrow> (\<forall>m \<in># M. ack_ok m \<and> mo_number m \<noteq> 0 \<or> req_sync B m)
     \<and> (\<forall>m \<in># M. \<forall>m' \<in># M. req_sync B m \<longrightarrow> req_sync B m' \<longrightarrow> mo_number m \<noteq> 0 \<longrightarrow> mo_number m = mo_number m' \<longrightarrow> mo_id m = mo_id m')"

definition requests :: "MessageOut multiset \<Rightarrow> (byte \<times> byte list) multiset" where
  "requests M = image_mset (\<lambda>m. (mo_flags m, mo_payload m)) (filter_mset (\<lambda>m. \<not> isAck (mo_flags m)) M)"

definition content :: "MessageIn \<Rightarrow> byte \<times> byte list" where
  "content d = (mi_flags d, varint_put (word_of_nat (length (mi_properties d))) @ mi_properties d @ mi_body d)"

definition cores :: "('d, 'i) BLIPIO \<Rightarrow> MessageOut multiset" where
  "cores io = mset (map core (all_msgs io))"

definition peers_ok :: "('d, 'i) BLIPIO \<Rightarrow> ('d, 'i) BLIPIO \<Rightarrow> bool" where
  "peers_ok A B \<longleftrightarrow> boxes_ok A \<and> boxes_ok B \<and> io_sendOpen A \<and> io_receiveOpen B \<and> out_codec_ok (io_outputCodec A) \<and> resp_ok A
     \<and> cd_checksum (io_outputCodec A) = cd_checksum (io_inputCodec B) \<and> io_lastMessageNo A = io_numRequestsReceived B
     \<and> (\<forall>n mi. map_of (io_pendingRequests B) n = Some mi \<longrightarrow> n \<le> io_numRequestsReceived B)"

definition in_sync :: "('d, 'i) BLIPIO \<Rightarrow> ('d, 'i) BLIPIO \<Rightarrow> (byte \<times> byte list) list \<Rightarrow> MessageIn list \<Rightarrow> bool" where
  "in_sync A B sent ds \<longleftrightarrow> peers_ok A B \<and> msgs_sync B (cores A) \<and> mset sent = mset (map content ds) + requests (cores A)
     \<and> (\<forall>d \<in> set ds. mi_complete d)"

lemma req_sync_core [simp]: "req_sync B (core m) = req_sync B m"
  by (simp add: req_sync_def)

lemma not_both: "req_sync B m \<Longrightarrow> \<not> isAck (mo_flags m)" "ack_ok m \<Longrightarrow> isAck (mo_flags m)"
  by (auto simp: req_sync_def ack_ok_def ack_flags_simps dest: req_flags_simps(7))

lemma req_sync_cong: "io_pendingRequests B' = io_pendingRequests B \<Longrightarrow> req_sync B' m = req_sync B m"
  by (simp add: req_sync_def)

lemma msgs_sync_cong: "io_pendingRequests B' = io_pendingRequests B \<Longrightarrow> msgs_sync B' M = msgs_sync B M"
  by (simp add: msgs_sync_def req_sync_def)

lemma msgs_syncI:
  "(\<And>m. m \<in># M \<Longrightarrow> ack_ok m \<and> mo_number m \<noteq> 0 \<or> req_sync B m) \<Longrightarrow>
   (\<And>m m'. m \<in># M \<Longrightarrow> m' \<in># M \<Longrightarrow> req_sync B m \<Longrightarrow> req_sync B m' \<Longrightarrow> mo_number m \<noteq> 0 \<Longrightarrow> mo_number m = mo_number m' \<Longrightarrow>
     mo_id m = mo_id m') \<Longrightarrow> msgs_sync B M"
  unfolding msgs_sync_def by blast

lemma msgs_syncD:
  "msgs_sync B M \<Longrightarrow> m \<in># M \<Longrightarrow> ack_ok m \<and> mo_number m \<noteq> 0 \<or> req_sync B m"
  "msgs_sync B M \<Longrightarrow> m \<in># M \<Longrightarrow> m' \<in># M \<Longrightarrow> req_sync B m \<Longrightarrow> req_sync B m' \<Longrightarrow> mo_number m \<noteq> 0 \<Longrightarrow> mo_number m = mo_number m' \<Longrightarrow>
     mo_id m = mo_id m'"
  unfolding msgs_sync_def by blast+

lemma msgs_sync_acks:
  assumes "msgs_sync B M" "\<forall>a \<in># acks. ack_ok a \<and> mo_number a \<noteq> 0"
  shows "msgs_sync B (M + acks) \<and> requests (M + acks) = requests M"
proof -
  have n: "\<not> req_sync B a" if "a \<in># acks" for a using that assms(2) not_both by blast
  have "msgs_sync B (M + acks)"
  proof (rule msgs_syncI)
    fix m
    assume "m \<in># M + acks"
    then show "ack_ok m \<and> mo_number m \<noteq> 0 \<or> req_sync B m" using msgs_syncD(1) [OF assms(1)] assms(2) by auto
  next
    fix m m'
    assume "m \<in># M + acks" "m' \<in># M + acks" "req_sync B m" "req_sync B m'" "mo_number m \<noteq> 0" "mo_number m = mo_number m'"
    then show "mo_id m = mo_id m'" using n by (intro msgs_syncD(2) [OF assms(1)]) auto
  qed
  moreover have "filter_mset (\<lambda>m. \<not> isAck (mo_flags m)) acks = filter_mset (\<lambda>_. False) acks"
    by (rule filter_mset_cong [OF refl]) (use assms(2) not_both(2) in auto)
  ultimately show ?thesis by (simp add: requests_def)
qed

lemma msgs_sync_mono:
  assumes "msgs_sync B (add_mset m M)"
  shows "msgs_sync B M"
proof (rule msgs_syncI)
  fix x
  assume "x \<in># M"
  then show "ack_ok x \<and> mo_number x \<noteq> 0 \<or> req_sync B x" by (intro msgs_syncD(1) [OF assms]) simp
next
  fix x x'
  assume "x \<in># M" "x' \<in># M" "req_sync B x" "req_sync B x'" "mo_number x \<noteq> 0" "mo_number x = mo_number x'"
  then show "mo_id x = mo_id x'" by (intro msgs_syncD(2) [OF assms]) simp_all
qed

lemma sync_receive:
  assumes s: "in_sync A B sent ds" and r: "receive z fr A = Ok (r, A')" "frame_type fr \<noteq> Some kRequestType"
  shows "in_sync A' B sent ds"
proof -
  have A: "boxes_ok A" "resp_ok A" using s by (auto simp: in_sync_def peers_ok_def)
  from receive_client [OF r(1) A r(2)] obtain acks where a: "boxes_ok A'" "sending_same A A'" "resp_ok A'" "cores A' = cores A + acks"
    "\<forall>a \<in># acks. ack_ok a \<and> mo_number a \<noteq> 0" by (auto simp: acks_added_def cores_def)
  show ?thesis using s a(1-3) msgs_sync_acks [OF _ a(5), of B "cores A"] a(4) by (auto simp: in_sync_def peers_ok_def sending_same_def)
qed

lemma bld_req_flags:
  assumes "\<not> bld_compressed mb" "msg_type (bld_flags mb) = kRequestType"
  shows "req_flags (bld_flags mb)"
proof -
  have "(bld_type mb AND kTypeMask) AND kTypeMask = 0"
    using assms(2) by (simp add: bld_flags_def msg_type_def blip_consts bit.conj_disj_distrib2 split: if_splits)
  then show ?thesis using assms(1) by (auto simp: bld_flags_def req_flags_def ac_simps)
qed

lemma sync_sendRequest:
  assumes s: "in_sync A B sent ds" and r: "sendRequest mb A = Ok (f, mb', A')" "bld_ok mb" "\<not> bld_compressed mb"
  shows "in_sync A' B (sent @ [(bld_flags mb, bld_out mb')]) ds"
proof -
  have A: "boxes_ok A" "io_sendOpen A" using s by (auto simp: in_sync_def peers_ok_def)
  from sendRequest_adds [OF r(1) A r(2)] obtain m where m: "mset (all_msgs A') = add_mset m (mset (all_msgs A))" "boxes_ok A'"
    "mo_flags m = bld_flags mb" "mo_number m = 0" "mo_payload m = bld_out mb'" "mo_unsentPayload m = bld_out mb'" "payload_ok (bld_out mb')"
    "msg_type (bld_flags mb) = kRequestType" "io_sendOpen A'" "io_lastMessageNo A' = io_lastMessageNo A" "io_outputCodec A' = io_outputCodec A"
    "io_pendingResponses A' = io_pendingResponses A" by blast
  have c: "cores A' = add_mset (core m) (cores A)" using m(1) by (simp add: cores_def)
  have rs: "req_sync B m" using bld_req_flags [OF r(3) m(8)] m(3-7) by (auto simp: req_sync_def payload_ok_def)
  have sync: "msgs_sync B (cores A)" using s by (simp add: in_sync_def)
  have "msgs_sync B (cores A')"
  proof (rule msgs_syncI)
    fix x
    assume "x \<in># cores A'"
    then show "ack_ok x \<and> mo_number x \<noteq> 0 \<or> req_sync B x" using c msgs_syncD(1) [OF sync] rs by auto
  next
    fix x x'
    assume "x \<in># cores A'" "x' \<in># cores A'" "req_sync B x" "req_sync B x'" "mo_number x \<noteq> 0" "mo_number x = mo_number x'"
    then show "mo_id x = mo_id x'" using m(4) by (intro msgs_syncD(2) [OF sync]) (auto simp: c)
  qed
  moreover have "requests (cores A') = add_mset (bld_flags mb, bld_out mb') (requests (cores A))"
    using m(3-5) not_both(1) [OF rs] by (simp add: c requests_def)
  ultimately show ?thesis using s m(2,9-12) by (auto simp: in_sync_def peers_ok_def resp_ok_def)
qed

subsection \<open>A frame\<close>

lemma frameGenerator_frame:
  assumes "frameGenerator z g A = Ok (FrameYielded fr, A')" "boxes_ok A"
  obtains m A1 A2 where "createNextFrame z m A1 = Ok (fr, A2)" "all_msgs A = m # all_msgs A1" "queue_open (io_outbox A1)" "queue_open (io_wayOutBox A1)"
    "sending_same A A1" "io_nextId A1 = io_nextId A" "io_pendingResponses A1 = io_pendingResponses A"
    "A' = A2\<lparr>io_totalBytesWritten := io_totalBytesWritten A2 + word_of_nat (length fr)\<rparr>"
proof -
  obtain m pc q A2 where g: "gen_run g (io_generator A) (io_outbox A) = Ok (GenItem m, pc, q)"
    and c: "createNextFrame z m (A\<lparr>io_generator := pc, io_outbox := q\<rparr>) = Ok (fr, A2)"
    and A': "A' = A2\<lparr>io_totalBytesWritten := io_totalBytesWritten A2 + word_of_nat (length fr)\<rparr>"
  proof -
    obtain ev pc q where g: "gen_run g (io_generator A) (io_outbox A) = Ok (ev, pc, q)"
      using assms(1) by (auto simp: frameGenerator_def obind_eq_Ok simp del: gen_run.simps split: if_splits)
    show ?thesis
      using assms(1) g that by (cases ev) (auto simp: frameGenerator_def obind_eq_Ok Let_def simp del: gen_run.simps split: if_splits)
  qed
  have o: "queue_open (io_outbox A)" "queue_open (io_wayOutBox A)" using assms(2) by (auto simp: boxes_ok_def)
  note q = gen_run_item [OF g o(1)]
  show ?thesis
    by (rule that [OF c _ _ _ _ _ _ A']) (use q o in \<open>simp_all add: all_msgs_def sending_same_def\<close>)
qed

lemma boxes_ok_tail:
  fixes A A1 A' :: "('d, 'i) BLIPIO"
  assumes "boxes_ok A" "all_msgs A = m # all_msgs A1" "mset (map mo_id (all_msgs A')) = mset (map mo_id (all_msgs A1)) \<or>
      mset (map mo_id (all_msgs A')) = add_mset (mo_id m) (mset (map mo_id (all_msgs A1)))"
    "io_nextId A' = io_nextId A" "queue_open (io_outbox A')" "queue_open (io_wayOutBox A')"
  shows "boxes_ok A'"
proof -
  let ?ids = "\<lambda>io :: ('d, 'i) BLIPIO. map mo_id (all_msgs io)"
  have d: "distinct (mo_id m # ?ids A1)" "\<forall>i \<in> set (mo_id m # ?ids A1). i < io_nextId A" using assms(1,2) by (auto simp: boxes_ok_def)
  from assms(3) have "distinct (?ids A') \<and> set (?ids A') \<subseteq> set (mo_id m # ?ids A1)"
  proof
    assume a: "mset (?ids A') = mset (?ids A1)"
    then show ?thesis using d mset_eq_setD [OF a] mset_eq_imp_distinct_iff [OF a] by auto
  next
    assume "mset (?ids A') = add_mset (mo_id m) (mset (?ids A1))"
    then have a: "mset (?ids A') = mset (mo_id m # ?ids A1)" by simp
    then show ?thesis using d mset_eq_setD [OF a] mset_eq_imp_distinct_iff [OF a] by auto
  qed
  then have "distinct (?ids A')" "\<forall>i \<in> set (?ids A'). i < io_nextId A" using d(2) by blast+
  then show ?thesis using assms(4-6) by (simp add: boxes_ok_def)
qed

lemma sync_ack_frame:
  assumes s: "in_sync A B sent ds" and c: "createNextFrame z m A1 = Ok (fr, A2)" "all_msgs A = m # all_msgs A1" "ack_ok m" "mo_number m \<noteq> 0"
    and A1: "queue_open (io_outbox A1)" "queue_open (io_wayOutBox A1)" "sending_same A A1" "io_nextId A1 = io_nextId A"
      "io_pendingResponses A1 = io_pendingResponses A"
  shows "\<exists>B'. receive z fr B = Ok (None, B') \<and> in_sync A2 B' sent ds"
proof -
  from createNextFrame_ack [OF c(1,3,4)] obtain k where k: "A2 = A1" "fr = varint_put (mo_number m) @ mo_flags m # varint_put k" by blast
  have B: "boxes_ok B" "boxes_ok A" "msgs_sync B (cores A)" using s by (auto simp: in_sync_def peers_ok_def)
  have f: "ack_flags (mo_flags m)" using c(3) by (simp add: ack_ok_def)
  from receive_ack [OF f B(1)] obtain B' where B': "receive z fr B = Ok (None, B')" "in_same B B'" "boxes_ok B'" unfolding k(2) by blast
  have "boxes_ok A1" by (rule boxes_ok_tail [OF B(2) c(2)]) (use A1 in simp_all)
  moreover have "cores A = add_mset (core m) (cores A1)" using c(2) by (simp add: cores_def)
  moreover have "msgs_sync B' (cores A1)" using msgs_sync_mono B(3) \<open>cores A = _\<close> msgs_sync_cong [of B' B] B'(2) by (simp add: in_same_def)
  moreover have "requests (cores A) = requests (cores A1)"
    using \<open>cores A = _\<close> not_both(2) [OF c(3)] by (simp add: requests_def)
  ultimately have "in_sync A1 B' sent ds" using s B'(2,3) A1 by (auto simp: in_sync_def peers_ok_def sending_same_def in_same_def resp_ok_def)
  then show ?thesis using B'(1) k(1) by blast
qed

text \<open>The part \<open>X\<close> of a request that goes into a frame, with \<open>Y\<close> still to be sent, and the message it belongs to at the receiver.\<close>

definition part_of :: "('d, 'i) BLIPIO \<Rightarrow> MessageOut \<Rightarrow> u64 \<Rightarrow> byte \<Rightarrow> byte list \<Rightarrow> byte list \<Rightarrow> nat \<Rightarrow> byte list \<Rightarrow> MessageIn \<Rightarrow> bool" where
  "part_of B m N fl X Y k R mi \<longleftrightarrow>
     starts_or_continues N fl mi B \<and> mi_onResponse mi = None \<and> mi_flags mi = mo_flags m \<and> \<not> mi_complete mi \<and> continues mi k X R
     \<and> k \<le> kMaxPropertiesSize \<and> (\<exists>props body. length props = k \<and> props_ok props \<and> props @ body = R @ Y)
     \<and> mo_payload m = varint_put (word_of_nat k) @ R @ Y"

lemma part_ofI:
  assumes "starts_or_continues N fl mi B" "mi_onResponse mi = None" "mi_flags mi = mo_flags m" "\<not> mi_complete mi" "continues mi (length props) X R"
    "length props \<le> kMaxPropertiesSize" "props_ok props" "props @ body = R @ Y" "mo_payload m = varint_put (word_of_nat (length props)) @ props @ body"
  shows "part_of B m N fl X Y (length props) R mi"
  unfolding part_of_def using assms by (intro conjI exI [of _ props] exI [of _ body]) auto

lemma part_of_bounds:
  assumes "part_of B m N fl X Y k R mi"
  shows "k \<le> length R \<Longrightarrow> k > 0 \<Longrightarrow> R ! (k - 1) = 0" "Y = [] \<Longrightarrow> k \<le> length R"
proof -
  obtain props body where p: "length props = k" "props_ok props" "props @ body = R @ Y" using assms by (auto simp: part_of_def)
  show "R ! (k - 1) = 0" if "k \<le> length R" "k > 0"
  proof -
    have "R ! (k - 1) = (props @ body) ! (k - 1)" unfolding p(3) using that by (auto simp: nth_append)
    also have "\<dots> = last props" using p(1) that by (cases props) (auto simp: nth_append last_conv_nth)
    also have "\<dots> = 0" using p(1,2) that by (auto simp: props_ok_def)
    finally show ?thesis .
  qed
  show "k \<le> length R" if "Y = []" using that p(1,3) by (metis append_Nil2 le_add1 length_append)
qed

lemma first_part:
  assumes "req_flags f" "mo_flags m = f" "fl = f \<or> fl = f OR kMoreComing" "map_of (io_pendingRequests B) N = None" "N = io_numRequestsReceived B + 1"
    "length props \<le> kMaxPropertiesSize" "props_ok props" "mo_payload m = varint_put (word_of_nat (length props)) @ props @ body"
    "n \<ge> 4096 \<or> n = length (mo_payload m)"
  shows "\<exists>k R mi. part_of B m N fl (take n (mo_payload m)) (drop n (mo_payload m)) k R mi"
proof -
  let ?v = "varint_put (word_of_nat (length props)) :: byte list"
  have "length ?v \<le> 10" using length_varint_put [of "word_of_nat (length props)"] by (simp add: kMaxSize_def)
  then have n: "length ?v \<le> n" using assms(8,9) by auto
  have mi: "mi_flags (new_MessageIn fl N 0 None) = f" using req_flags_simps(3) [OF assms(1,3)] by (simp add: new_MessageIn_def)
  have X: "take n (mo_payload m) = ?v @ take (n - length ?v) (props @ body)" "drop n (mo_payload m) = drop (n - length ?v) (props @ body)"
    unfolding assms(8) using n by (simp_all del: take_append drop_append add: take_append [of n ?v] drop_append [of n ?v])
  have "part_of B m N fl (take n (mo_payload m)) (drop n (mo_payload m)) (length props) (take (n - length ?v) (props @ body)) (new_MessageIn fl N 0 None)"
    unfolding X
  proof (rule part_ofI [where body = body])
    show "starts_or_continues N fl (new_MessageIn fl N 0 None) B" using assms(4,5) by (simp add: starts_or_continues_def)
    show "continues (new_MessageIn fl N 0 None) (length props) (?v @ take (n - length ?v) (props @ body)) (take (n - length ?v) (props @ body))"
      by (simp add: continues_def mi_fresh_def new_MessageIn_def)
    show "props @ body = take (n - length ?v) (props @ body) @ drop (n - length ?v) (props @ body)" by (rule append_take_drop_id [symmetric])
  qed (use assms(2,6-8) mi in \<open>simp_all add: new_MessageIn_def\<close>)
  then show ?thesis by blast
qed

lemma next_part:
  assumes "map_of (io_pendingRequests B) N = Some mi" "mi_received mi (length props) R" "mi_flags mi = mo_flags m" "mi_onResponse mi = None"
    "\<not> mi_complete mi" "length props \<le> kMaxPropertiesSize" "props_ok props" "mo_payload m = varint_put (word_of_nat (length props)) @ props @ body"
    "mo_payload m = varint_put (word_of_nat (length props)) @ R @ mo_unsentPayload m"
  shows "part_of B m N fl (take n (mo_unsentPayload m)) (drop n (mo_unsentPayload m)) (length props) (R @ take n (mo_unsentPayload m)) mi"
proof (rule part_ofI [where body = body])
  show "starts_or_continues N fl mi B" using assms(1) by (simp add: starts_or_continues_def)
  show "continues mi (length props) (take n (mo_unsentPayload m)) (R @ take n (mo_unsentPayload m))" using assms(2) by (auto simp: continues_def)
  show "props @ body = (R @ take n (mo_unsentPayload m)) @ drop n (mo_unsentPayload m)" using assms(8,9) by simp
qed (use assms in simp_all)

lemma request_part:
  assumes m: "req_sync B m" and p: "peers_ok A B" "io_lastMessageNo A \<noteq> - 1" and n: "n \<ge> 4096 \<or> n = length (mo_unsentPayload m)"
    and N: "N = (if mo_number m = 0 then io_lastMessageNo A + 1 else mo_number m)"
    and fl: "fl = mo_flags m \<or> fl = mo_flags m OR kMoreComing"
  shows "\<exists>k R mi. part_of B m N fl (take n (mo_unsentPayload m)) (drop n (mo_unsentPayload m)) k R mi"
    and "N \<noteq> 0" and "map_of (io_pendingRequests B) N = None \<longleftrightarrow> mo_number m = 0" and "mo_number m = 0 \<Longrightarrow> io_numRequestsReceived B < N"
proof -
  have new: "map_of (io_pendingRequests B) N = None" "N = io_numRequestsReceived B + 1" "N \<noteq> 0" "io_numRequestsReceived B < N" if "mo_number m = 0"
  proof -
    show N1: "N = io_numRequestsReceived B + 1" using that N p(1) by (simp add: peers_ok_def)
    show "N \<noteq> 0" using that N p(2) by (metis add.inverse_inverse add_eq_0_iff add.commute)
    show "io_numRequestsReceived B < N" using unatSuc [of "io_numRequestsReceived B"] \<open>N \<noteq> 0\<close> N1 by (simp add: word_less_nat_alt add.commute)
    then show "map_of (io_pendingRequests B) N = None" using p(1) unfolding peers_ok_def by (metis leD option.exhaust)
  qed
  show "N \<noteq> 0" using new(3) N by (cases "mo_number m = 0") auto
  show "mo_number m = 0 \<Longrightarrow> io_numRequestsReceived B < N" by (rule new(4))
  obtain props body where b: "length props \<le> kMaxPropertiesSize" "props_ok props" "mo_payload m = varint_put (word_of_nat (length props)) @ props @ body"
    "if mo_number m = 0 then mo_unsentPayload m = mo_payload m
     else mo_unsentPayload m \<noteq> [] \<and> (\<exists>R mi. mo_payload m = varint_put (word_of_nat (length props)) @ R @ mo_unsentPayload m
        \<and> map_of (io_pendingRequests B) (mo_number m) = Some mi \<and> mi_received mi (length props) R
        \<and> mi_flags mi = mo_flags m \<and> mi_onResponse mi = None \<and> \<not> mi_complete mi)" and f: "req_flags (mo_flags m)"
    using m unfolding req_sync_def by blast
  show "map_of (io_pendingRequests B) N = None \<longleftrightarrow> mo_number m = 0" using new(1) b(4) N by (cases "mo_number m = 0") auto
  show "\<exists>k R mi. part_of B m N fl (take n (mo_unsentPayload m)) (drop n (mo_unsentPayload m)) k R mi"
  proof (cases "mo_number m = 0")
    case True
    then show ?thesis using first_part [OF f refl fl new(1,2) [OF True] b(1-3), of n] b(4) n by simp
  next
    case False
    then obtain R mi where mi: "map_of (io_pendingRequests B) N = Some mi" "mi_received mi (length props) R" "mi_flags mi = mo_flags m" "mi_onResponse mi = None"
      "\<not> mi_complete mi" "mo_payload m = varint_put (word_of_nat (length props)) @ R @ mo_unsentPayload m" using b(4) N by auto
    then show ?thesis using next_part [OF mi(1-5) b(1-3) mi(6)] by blast
  qed
qed

lemma others_sync:
  fixes B B' :: "('d, 'i) BLIPIO"
  assumes s: "msgs_sync B (add_mset m M)" "req_sync B m" "mo_id m \<notin> mo_id ` set_mset M"
    and N: "N = mo_number m \<or> map_of (io_pendingRequests B) N = None" "N \<noteq> 0"
    and B': "map_of (io_pendingRequests B') = (map_of (io_pendingRequests B))(N := p)"
  shows "x \<in># M \<Longrightarrow> req_sync B' x \<Longrightarrow> mo_number x \<noteq> N" and "msgs_sync B' M"
proof -
  have num: "mo_number x \<noteq> N" if x: "x \<in># M" "req_sync B x" for x
  proof
    assume e: "mo_number x = N"
    then have "N = mo_number m" using N x(2) by (auto simp: req_sync_def)
    then have "mo_id x = mo_id m" using e N(2) x s(2) by (intro msgs_syncD(2) [OF s(1)]) simp_all
    then show False using s(3) x(1) by (metis imageI)
  qed
  have up: "req_sync B' x" if "req_sync B x" "mo_number x \<noteq> N" for x using that by (auto simp: req_sync_def B')
  have M: "ack_ok x \<and> mo_number x \<noteq> 0 \<or> req_sync B x" if "x \<in># M" for x using msgs_syncD(1) [OF s(1), of x] that by simp
  have down: "req_sync B x" if "x \<in># M" "req_sync B' x" for x using M [OF that(1)] not_both that(2) by blast
  show "mo_number x \<noteq> N" if "x \<in># M" "req_sync B' x" using num down that by blast
  show "msgs_sync B' M"
  proof (rule msgs_syncI)
    show "ack_ok x \<and> mo_number x \<noteq> 0 \<or> req_sync B' x" if "x \<in># M" for x using M [OF that] up num [OF that] by blast
  next
    fix x x'
    assume "x \<in># M" "x' \<in># M" "req_sync B' x" "req_sync B' x'" "mo_number x \<noteq> 0" "mo_number x = mo_number x'"
    then show "mo_id x = mo_id x'" using down by (intro msgs_syncD(2) [OF s(1)]) simp_all
  qed
qed

lemma msgs_sync_add:
  assumes M: "msgs_sync B' M" "\<And>x. x \<in># M \<Longrightarrow> req_sync B' x \<Longrightarrow> mo_number x \<noteq> mo_number m" and m: "req_sync B' m"
  shows "msgs_sync B' (add_mset m M)"
proof (rule msgs_syncI)
  fix x
  assume "x \<in># add_mset m M"
  then show "ack_ok x \<and> mo_number x \<noteq> 0 \<or> req_sync B' x" using m msgs_syncD(1) [OF M(1), of x] by auto
next
  fix x x'
  assume a: "x \<in># add_mset m M" "x' \<in># add_mset m M" "req_sync B' x" "req_sync B' x'" "mo_number x \<noteq> 0" "mo_number x = mo_number x'"
  show "mo_id x = mo_id x'"
  proof (cases "x = m \<or> x' = m")
    case True
    then have "x = x'" using a M(2) [of x] M(2) [of x'] by auto
    then show ?thesis by simp
  next
    case False
    then show ?thesis using a by (intro msgs_syncD(2) [OF M(1)]) auto
  qed
qed

lemma request_frame_sent:
  assumes c: "createNextFrame z m A1 = Ok (fr, A2)" "all_msgs A = m # all_msgs A1" "req_flags (mo_flags m)" "crc_ok z"
    and A: "boxes_ok A" "out_codec_ok (io_outputCodec A)" "io_sendOpen A" "resp_ok A" "io_lastMessageNo A \<noteq> - 1"
    and A1: "queue_open (io_outbox A1)" "queue_open (io_wayOutBox A1)" "sending_same A A1" "io_nextId A1 = io_nextId A"
      "io_pendingResponses A1 = io_pendingResponses A"
  obtains n m1 where "n \<ge> 4096 \<or> n = length (mo_unsentPayload m)"
    "mo_flags m1 = mo_flags m" "mo_payload m1 = mo_payload m" "mo_id m1 = mo_id m" "mo_unsentPayload m1 = drop n (mo_unsentPayload m)"
    "mo_number m1 = (if mo_number m = 0 then io_lastMessageNo A + 1 else mo_number m)"
    "fr = varint_put (mo_number m1) @ (if drop n (mo_unsentPayload m) \<noteq> [] then mo_flags m OR kMoreComing else mo_flags m)
      # take n (mo_unsentPayload m) @ be_bytes 4 (cd_checksum (addToChecksum z (take n (mo_unsentPayload m)) (io_outputCodec A)))"
    "mset (all_msgs A2) = (if drop n (mo_unsentPayload m) \<noteq> [] then {#m1#} else {#}) + mset (all_msgs A1)"
    "boxes_ok A2" "io_sendOpen A2" "resp_ok A2" "io_lastMessageNo A2 = (if mo_number m = 0 then io_lastMessageNo A + 1 else io_lastMessageNo A)"
    "io_outputCodec A2 = addToChecksum z (take n (mo_unsentPayload m)) (io_outputCodec A)"
proof -
  note fl = req_flags_simps [OF c(3) disjI1 [OF refl]]
  have same: "io_sendOpen A1" "io_lastMessageNo A1 = io_lastMessageNo A" "io_outputCodec A1 = io_outputCodec A" "resp_ok A1"
    using A(3,4) A1(3,5) by (simp_all add: sending_same_def resp_ok_def)
  have oc: "out_codec_ok (io_outputCodec A1)" using A(2) same(3) by simp
  obtain n m1 A3 where n: "n \<ge> 4096 \<or> n = length (mo_unsentPayload m)" and m1: "m1 = m\<lparr>mo_number := if mo_number m = 0 then io_lastMessageNo A1 + 1 else mo_number m,
      mo_unsentPayload := drop n (mo_unsentPayload m), mo_uncompressedBytesSent := mo_uncompressedBytesSent m1, mo_bytesSent := mo_bytesSent m1,
      mo_unackedBytes := mo_unackedBytes m1\<rparr>"
    and A3: "A3 = A1\<lparr>io_lastMessageNo := if mo_number m = 0 then io_lastMessageNo A1 + 1 else io_lastMessageNo A1,
      io_outputCodec := addToChecksum z (take n (mo_unsentPayload m)) (io_outputCodec A1)\<rparr>"
    and fs: "frame_sent (if drop n (mo_unsentPayload m) \<noteq> [] then mo_flags m OR kMoreComing else mo_flags m) m1 A3 = Ok A2"
    and fr: "fr = varint_put (mo_number m1) @ (if drop n (mo_unsentPayload m) \<noteq> [] then mo_flags m OR kMoreComing else mo_flags m)
      # take n (mo_unsentPayload m) @ be_bytes 4 (cd_checksum (addToChecksum z (take n (mo_unsentPayload m)) (io_outputCodec A1)))"
    by (rule createNextFrame_raw [OF c(1) fl(7) fl(2) c(4) oc])
  have m1': "mo_flags m1 = mo_flags m" "mo_payload m1 = mo_payload m" "mo_id m1 = mo_id m" "mo_unsentPayload m1 = drop n (mo_unsentPayload m)"
    "mo_number m1 = (if mo_number m = 0 then io_lastMessageNo A + 1 else mo_number m)"
    using same(2) by (subst m1, simp)+
  have A3': "all_msgs A3 = all_msgs A1" "queue_open (io_outbox A3)" "queue_open (io_wayOutBox A3)" "resp_ok A3" "io_sendOpen A3"
    using A1(1,2) same by (simp_all add: A3 all_msgs_def resp_ok_def)
  have N: "mo_number m1 \<noteq> 0" using m1'(5) A(5) by (metis add_eq_0_iff2)
  have "mset (all_msgs A2) = (if drop n (mo_unsentPayload m) \<noteq> [] then {#m1#} else {#}) + mset (all_msgs A1) \<and> out_same A3 A2 \<and> resp_ok A2"
  proof (cases "drop n (mo_unsentPayload m) = []")
    case True
    then show ?thesis using frame_sent_last [OF fs _ _ A3'(2,3,5) N A3'(4)] fl m1'(1) A3'(1) by simp
  next
    case False
    then show ?thesis using frame_sent_more [OF fs _ _ A3'(2)] fl m1'(1) A3'(1,4) by (simp add: resp_ok_def)
  qed
  then have A2: "mset (all_msgs A2) = (if drop n (mo_unsentPayload m) \<noteq> [] then {#m1#} else {#}) + mset (all_msgs A1)" "out_same A3 A2" "resp_ok A2" by blast+
  have "boxes_ok A2"
  proof (rule boxes_ok_tail [OF A(1) c(2)])
    show "mset (map mo_id (all_msgs A2)) = mset (map mo_id (all_msgs A1)) \<or> mset (map mo_id (all_msgs A2)) = add_mset (mo_id m) (mset (map mo_id (all_msgs A1)))"
      using A2(1) m1'(3) by simp
  qed (use A2(2) A1 in \<open>simp_all add: out_same_def A3\<close>)
  then show ?thesis
    by (intro that [OF n m1'(1-5) fr [unfolded same(3)] A2(1) _ _ A2(3)]) (use A2(2) A3'(5) same in \<open>simp_all add: out_same_def A3\<close>)
qed

lemma req_sync_startedI:
  assumes "req_flags (mo_flags m)" "length props \<le> kMaxPropertiesSize" "props_ok props" "props @ body = R @ mo_unsentPayload m"
    "mo_payload m = varint_put (word_of_nat (length props)) @ R @ mo_unsentPayload m" "mo_number m \<noteq> 0" "mo_unsentPayload m \<noteq> []"
    "map_of (io_pendingRequests B) (mo_number m) = Some mi" "mi_received mi (length props) R" "mi_flags mi = mo_flags m" "mi_onResponse mi = None"
    "\<not> mi_complete mi"
  shows "req_sync B m"
  unfolding req_sync_def using assms by (intro conjI exI [of _ props] exI [of _ body]) auto

lemma mi_received_content:
  assumes "mi_received d k R" "k \<le> length R" "mi_flags d = f"
  shows "content d = (f, varint_put (word_of_nat k) @ R)"
  using assms by (simp add: content_def mi_received_def min_absorb2)

lemma request_frame_received:
  assumes f: "req_sync B m" and p: "peers_ok A B" "io_lastMessageNo A \<noteq> - 1" "crc_ok z" and n: "n \<ge> 4096 \<or> n = length (mo_unsentPayload m)"
    and N: "N = (if mo_number m = 0 then io_lastMessageNo A + 1 else mo_number m)"
    and X: "X = take n (mo_unsentPayload m)" "Y = drop n (mo_unsentPayload m)"
    and fr: "fr = varint_put N @ (if Y \<noteq> [] then mo_flags m OR kMoreComing else mo_flags m) # X
      @ be_bytes 4 (cd_checksum (addToChecksum z X (io_outputCodec A)))"
  obtains k R props body m' B' where "receive z fr B = Ok (if Y = [] then Some m' else None, B')"
    "mi_received m' k R" "mi_flags m' = mo_flags m" "mi_onResponse m' = None" "mi_complete m' = (Y = [])"
    "map_of (io_pendingRequests B') = (map_of (io_pendingRequests B))(N := if Y = [] then None else Some m')"
    "io_numRequestsReceived B' = (if mo_number m = 0 then N else io_numRequestsReceived B)"
    "io_inputCodec B' = addToChecksum z X (io_inputCodec B)" "boxes_ok B'" "io_receiveOpen B'"
    "length props = k" "props_ok props" "k \<le> kMaxPropertiesSize" "props @ body = R @ Y" "mo_payload m = varint_put (word_of_nat k) @ R @ Y"
    "Y \<noteq> [] \<or> k \<le> length R"
proof -
  define fl where "fl = (if Y \<noteq> [] then mo_flags m OR kMoreComing else mo_flags m)"
  have B: "boxes_ok B" "io_receiveOpen B" using p by (auto simp: peers_ok_def)
  have rf: "req_flags (mo_flags m)" using f by (simp add: req_sync_def)
  have fl: "fl = mo_flags m \<or> fl = mo_flags m OR kMoreComing" "fl = mo_flags m \<longleftrightarrow> Y = []"
    using req_flags_simps(5,6) [OF rf disjI1 [OF refl]] by (auto simp: fl_def)
  note part = request_part [OF f p(1,2) n N fl(1), folded X]
  from part(1) obtain k R mi where k: "part_of B m N fl X Y k R mi" by blast
  then obtain props body where k': "starts_or_continues N fl mi B" "mi_onResponse mi = None" "mi_flags mi = mo_flags m" "\<not> mi_complete mi" "continues mi k X R"
    "k \<le> kMaxPropertiesSize" and q: "length props = k" "props_ok props" "props @ body = R @ Y" "mo_payload m = varint_put (word_of_nat k) @ R @ Y"
    by (auto simp: part_of_def)
  from receive_request [OF rf fl(1) k'(1,2,3,5,6) p(3) B part_of_bounds(1) [OF k] part_of_bounds(2) [OF k fl(2) [THEN iffD1]]]
  obtain m' B' where r: "receive z fr B = Ok (if Y = [] then Some m' else None, B')" and m': "mi_received m' k R" "mi_flags m' = mo_flags m" "mi_onResponse m' = None"
      "mi_complete m' = (Y = [])"
    and B': "map_of (io_pendingRequests B') = (map_of (io_pendingRequests B))(N := if Y = [] then None else Some m')"
      "io_numRequestsReceived B' = (if map_of (io_pendingRequests B) N = None then N else io_numRequestsReceived B)"
      "io_inputCodec B' = addToChecksum z X (io_inputCodec B)" "boxes_ok B'" "io_receiveOpen B'"
    using fr p(1) k'(4) fl(2) by (auto simp: fl_def peers_ok_def)
  have "Y \<noteq> [] \<or> k \<le> length R" using part_of_bounds(2) [OF k] by blast
  then show ?thesis by (rule that [OF r m' B'(1) B'(2) [unfolded part(3)] B'(3-5) q(1,2) k'(6) q(3,4)])
qed

lemma sync_request_frame:
  assumes s: "in_sync A B sent ds" and c: "createNextFrame z m A1 = Ok (fr, A2)" "all_msgs A = m # all_msgs A1" "req_sync B m" "crc_ok z"
    and A1: "queue_open (io_outbox A1)" "queue_open (io_wayOutBox A1)" "sending_same A A1" "io_nextId A1 = io_nextId A"
      "io_pendingResponses A1 = io_pendingResponses A" and last: "io_lastMessageNo A \<noteq> - 1"
  shows "\<exists>r B'. receive z fr B = Ok (r, B') \<and> in_sync A2 B' sent (ds @ case_option [] (\<lambda>d. [d]) r)"
proof -
  have p: "peers_ok A B" and sync: "msgs_sync B (cores A)" using s by (auto simp: in_sync_def)
  have A: "boxes_ok A" "out_codec_ok (io_outputCodec A)" "io_sendOpen A" "resp_ok A" using p by (auto simp: peers_ok_def)
  have f: "req_flags (mo_flags m)" using c(3) by (simp add: req_sync_def)
  obtain n m1 where n: "n \<ge> 4096 \<or> n = length (mo_unsentPayload m)"
    and m1: "mo_flags m1 = mo_flags m" "mo_payload m1 = mo_payload m" "mo_id m1 = mo_id m" "mo_unsentPayload m1 = drop n (mo_unsentPayload m)"
    "mo_number m1 = (if mo_number m = 0 then io_lastMessageNo A + 1 else mo_number m)"
    and fr: "fr = varint_put (mo_number m1) @ (if drop n (mo_unsentPayload m) \<noteq> [] then mo_flags m OR kMoreComing else mo_flags m)
      # take n (mo_unsentPayload m) @ be_bytes 4 (cd_checksum (addToChecksum z (take n (mo_unsentPayload m)) (io_outputCodec A)))"
    and A2: "mset (all_msgs A2) = (if drop n (mo_unsentPayload m) \<noteq> [] then {#m1#} else {#}) + mset (all_msgs A1)"
    "boxes_ok A2" "io_sendOpen A2" "resp_ok A2" "io_lastMessageNo A2 = (if mo_number m = 0 then io_lastMessageNo A + 1 else io_lastMessageNo A)"
    "io_outputCodec A2 = addToChecksum z (take n (mo_unsentPayload m)) (io_outputCodec A)"
    by (rule request_frame_sent [OF c(1,2) f c(4) A last A1])
  obtain k R props body m' B' where r: "receive z fr B = Ok (if drop n (mo_unsentPayload m) = [] then Some m' else None, B')"
    and m': "mi_received m' k R" "mi_flags m' = mo_flags m" "mi_onResponse m' = None" "mi_complete m' = (drop n (mo_unsentPayload m) = [])"
    and B': "map_of (io_pendingRequests B') = (map_of (io_pendingRequests B))(mo_number m1 := if drop n (mo_unsentPayload m) = [] then None else Some m')"
    "io_numRequestsReceived B' = (if mo_number m = 0 then mo_number m1 else io_numRequestsReceived B)"
    "io_inputCodec B' = addToChecksum z (take n (mo_unsentPayload m)) (io_inputCodec B)" "boxes_ok B'" "io_receiveOpen B'"
    and q: "length props = k" "props_ok props" "k \<le> kMaxPropertiesSize" "props @ body = R @ drop n (mo_unsentPayload m)"
      "mo_payload m = varint_put (word_of_nat k) @ R @ drop n (mo_unsentPayload m)" "drop n (mo_unsentPayload m) \<noteq> [] \<or> k \<le> length R"
    by (rule request_frame_received [OF c(3) p last c(4) n m1(5) refl refl fr])
  define Y where "Y = drop n (mo_unsentPayload m)"
  note Y = Y_def [symmetric]
  note part = request_part(2-4) [OF c(3) p last n m1(5) disjI1 [OF refl]]
  have "io_numRequestsReceived B \<le> io_numRequestsReceived B'" using part(3) B'(2) by (auto dest: order.strict_implies_order)
  then have p2: "peers_ok A2 B'" using p A2 B' m1(5) part(2) unfolding peers_ok_def by (auto split: if_splits)
  have cA: "cores A = add_mset (core m) (cores A1)" "cores A2 = (if Y \<noteq> [] then {#core m1#} else {#}) + cores A1" using c(2) A2(1) by (auto simp: cores_def Y)
  have new: "mo_id (core m) \<notin> mo_id ` set_mset (cores A1)" using A(1) c(2) by (auto simp: boxes_ok_def cores_def image_iff)
  have N: "mo_number m1 = mo_number (core m) \<or> map_of (io_pendingRequests B) (mo_number m1) = None" using part(2) m1(5) by auto
  note others = others_sync [OF sync [unfolded cA(1)] _ new N part(1) B'(1)]
  have nr: "\<not> isAck (mo_flags m)" using not_both(1) [OF c(3)] .
  have rq: "requests (cores A) = add_mset (mo_flags m, mo_payload m) (requests (cores A1))" using nr by (simp add: cA requests_def)
  have "in_sync A2 B' sent (ds @ (if Y = [] then [m'] else []))"
  proof (cases "Y = []")
    case True
    then have "content m' = (mo_flags m, mo_payload m)" using mi_received_content [OF m'(1) _ m'(2)] q(5,6) by (simp add: Y)
    then show ?thesis using s True p2 others(2) c(3) cA(2) rq m'(4) by (simp add: in_sync_def Y)
  next
    case False
    have "req_sync B' (core m1)"
      by (rule req_sync_startedI [of _ props body R _ m']) (use m1(1,2,4) m' q f part(1) False B'(1) in \<open>simp_all add: Y\<close>)
    then have "msgs_sync B' (cores A2)" using others c(3) False by (auto simp: cA(2) intro: msgs_sync_add)
    moreover have "requests (cores A2) = requests (cores A)" using rq nr m1(1,2) False by (simp add: cA requests_def)
    ultimately show ?thesis using s False p2 by (simp add: in_sync_def)
  qed
  then show ?thesis using r by (cases "Y = []") (auto simp: Y)
qed

lemma sync_written: "in_sync (A\<lparr>io_totalBytesWritten := w\<rparr>) B sent ds = in_sync A B sent ds"
  by (simp add: in_sync_def peers_ok_def cores_def all_msgs_def resp_ok_def boxes_ok_def)

lemma sync_frame:
  assumes s: "in_sync A B sent ds" and g: "frameGenerator z g A = Ok (FrameYielded fr, A')" "io_lastMessageNo A \<noteq> - 1" "crc_ok z"
  shows "\<exists>r B'. receive z fr B = Ok (r, B') \<and> in_sync A' B' sent (ds @ case_option [] (\<lambda>d. [d]) r)"
proof -
  have A: "boxes_ok A" "msgs_sync B (cores A)" using s by (auto simp: in_sync_def peers_ok_def)
  from frameGenerator_frame [OF g(1) A(1)] obtain m A1 A2 where c: "createNextFrame z m A1 = Ok (fr, A2)" "all_msgs A = m # all_msgs A1"
    and A1: "queue_open (io_outbox A1)" "queue_open (io_wayOutBox A1)" "sending_same A A1" "io_nextId A1 = io_nextId A"
      "io_pendingResponses A1 = io_pendingResponses A"
    and A': "A' = A2\<lparr>io_totalBytesWritten := io_totalBytesWritten A2 + word_of_nat (length fr)\<rparr>" .
  have "core m \<in># cores A" using c(2) by (simp add: cores_def)
  from msgs_syncD(1) [OF A(2) this] consider "ack_ok m" "mo_number m \<noteq> 0" | "req_sync B m" by (auto simp: ack_ok_core)
  then have "\<exists>r B'. receive z fr B = Ok (r, B') \<and> in_sync A2 B' sent (ds @ case_option [] (\<lambda>d. [d]) r)"
  proof cases
    case 1
    then show ?thesis using sync_ack_frame [OF s c 1 A1] by fastforce
  next
    case 2
    then show ?thesis using sync_request_frame [OF s c 2 g(3) A1 g(2)] by blast
  qed
  then show ?thesis by (simp add: A' sync_written)
qed

lemma sync_blocked:
  assumes s: "in_sync A B sent ds" and g: "frameGenerator z g A = Ok (FramesBlocked, A')"
  shows "in_sync A' B sent ds"
proof -
  have o: "queue_open (io_outbox A)" using s by (simp add: in_sync_def peers_ok_def boxes_ok_def)
  obtain pc q where r: "gen_run g (io_generator A) (io_outbox A) = Ok (GenBlocked, pc, q)" "A' = A\<lparr>io_generator := pc, io_outbox := q\<rparr>"
  proof -
    obtain ev pc q where "gen_run g (io_generator A) (io_outbox A) = Ok (ev, pc, q)"
      using g by (auto simp: frameGenerator_def obind_eq_Ok simp del: gen_run.simps split: if_splits)
    then show ?thesis
      using g that by (cases ev) (auto simp: frameGenerator_def obind_eq_Ok Let_def simp del: gen_run.simps split: if_splits)
  qed
  from gen_run_blocked [OF r(1) o] show ?thesis
    using s by (simp add: r(2) in_sync_def peers_ok_def cores_def all_msgs_def resp_ok_def boxes_ok_def)
qed

subsection \<open>Runs\<close>

text \<open>
  A client sends requests, its frame generator runs whenever the transport asks for a frame, and it receives frames that are not requests:
  responses and acknowledgements. The run records the frames it has output and the flags and payloads of the requests it was given.
\<close>

inductive client_run :: "('d, 'i) miniz \<Rightarrow> coro_handle \<Rightarrow> ('d, 'i) BLIPIO \<Rightarrow> byte list list \<Rightarrow> (byte \<times> byte list) list \<Rightarrow> bool" for z g where
  start: "client_run z g (new_BLIPIO z c d i) [] []"
| send: "client_run z g A fs sent \<Longrightarrow> bld_ok mb \<Longrightarrow> \<not> bld_compressed mb \<Longrightarrow> sendRequest mb A = Ok (f, mb', A') \<Longrightarrow>
    client_run z g A' fs (sent @ [(bld_flags mb, bld_out mb')])"
| frame: "client_run z g A fs sent \<Longrightarrow> io_lastMessageNo A \<noteq> - 1 \<Longrightarrow> frameGenerator z g A = Ok (FrameYielded fr, A') \<Longrightarrow>
    client_run z g A' (fs @ [fr]) sent"
| blocked: "client_run z g A fs sent \<Longrightarrow> frameGenerator z g A = Ok (FramesBlocked, A') \<Longrightarrow> client_run z g A' fs sent"
| receive: "client_run z g A fs sent \<Longrightarrow> receive z fr A = Ok (r, A') \<Longrightarrow> frame_type fr \<noteq> Some kRequestType \<Longrightarrow> client_run z g A' fs sent"

text \<open>The messages that a peer delivers while it receives a list of frames.\<close>

fun receive_all :: "('d, 'i) miniz \<Rightarrow> byte list list \<Rightarrow> ('d, 'i) BLIPIO \<Rightarrow> (MessageIn list \<times> ('d, 'i) BLIPIO) outcome" where
  "receive_all z [] B = Ok ([], B)"
| "receive_all z (fr # fs) B =
     obind (receive z fr B) (\<lambda>(r, B1). obind (receive_all z fs B1) (\<lambda>(ds, B2). Ok (case_option [] (\<lambda>d. [d]) r @ ds, B2)))"

lemma receive_all_snoc:
  "receive_all z fs B = Ok (ds, B1) \<Longrightarrow> receive z fr B1 = Ok (r, B2) \<Longrightarrow> receive_all z (fs @ [fr]) B = Ok (ds @ case_option [] (\<lambda>d. [d]) r, B2)"
  by (induction fs arbitrary: B ds) (auto simp: obind_eq_Ok)

lemma sync_start: "in_sync (new_BLIPIO z c d i) (new_BLIPIO z c' d' i') [] []"
  by (simp add: in_sync_def peers_ok_def boxes_ok_def new_BLIPIO_def all_msgs_def cores_def msgs_sync_def requests_def out_codec_ok_def
      new_Codec_def new_inflater_def resp_ok_def queue_open_def new_aqueue_def)

lemma client_run_sync:
  assumes "client_run z g A fs sent" "crc_ok z"
  shows "\<exists>ds B. receive_all z fs (new_BLIPIO z c' d' i') = Ok (ds, B) \<and> in_sync A B sent ds"
  using assms
proof (induction rule: client_run.induct)
  case (start c d i)
  then show ?case using sync_start by force
next
  case (send A fs sent mb f mb' A')
  then show ?case using sync_sendRequest by blast
next
  case (frame A fs sent fr A')
  then show ?case using sync_frame receive_all_snoc by blast
next
  case (blocked A fs sent A')
  then show ?case using sync_blocked by blast
next
  case (receive A fs sent fr r A')
  then show ?case using sync_receive by blast
qed

lemma varint_put_01: "varint_put 0 = [0]" "varint_put 1 = [1]"
  by (simp_all add: varint_put.simps word_le_nat_alt)

lemmas send_eval = sendRequest_def empty_builder_def new_BLIPIO_def new_MessageOut_built_def bld_finish_def finishProperties_def new_MessageOut_def
  bld_flags_def io_send_def queueMessage_def requeue_def new_aqueue_def assert_that_def msg_type_def blip_consts kOutboxCapacity_def
  aq_pushBefore_def requeue_position_def aq_find_if_def set_onResponse_def kMaxPropertiesSize_def Let_def aq_full_def super_pushBefore_def
  varint_put_01 notify_first_item_def spec_notifyOne_def

lemmas frame_eval = frameGenerator_def hasOutput_def createNextFrame_def assign_number_def frame_room_def varint_write_def nextFrameToSend_raw
  gen_loop_def gen_pop_def aq_pop_def super_pop_def MutableBytes_write_fits kMaxFrameOverhead_def kBigFrameSize_def kMaxSize_def kChecksumSize_def
  isAck_def hasFlag_def frame_sent_def message_sent_def aq_maybePop_def createResponse_def outbox_urgent_def aq_peek_def out_codec_ok_def new_Codec_def
  new_MessageIn_def all_msgs_def

lemma one_request: "\<exists>f mb' A' A2 fr. sendRequest empty_builder (new_BLIPIO stored_miniz False () ()) = Ok (f, mb', A') \<and> bld_out mb' = [0]
  \<and> io_lastMessageNo A' \<noteq> - 1
  \<and> frameGenerator stored_miniz g A' = Ok (FrameYielded fr, A2) \<and> all_msgs A2 = []"
  by (simp add: send_eval, simp add: frame_eval send_eval)

text \<open>
  C2. Delivery of requests. Whatever requests a peer sends (uncompressed ones, of any length and any urgency), however its outbox interleaves
  their frames and whatever responses and acknowledgements come in between: the other peer accepts every frame without an error, and every
  request given to \<open>sendRequest\<close> is, exactly once, either delivered complete, with the same flags, properties and body, or still in one of the
  sender's boxes.
\<close>

theorem blip_requests_delivered:
  assumes "crc_ok z" "client_run z g A fs sent"
  shows "\<exists>ds B. receive_all z fs (new_BLIPIO z c' d' i') = Ok (ds, B) \<and> (\<forall>d \<in> set ds. mi_complete d)
    \<and> mset sent = mset (map content ds) + requests (mset (all_msgs A))"
proof -
  have "requests (cores A) = requests (mset (all_msgs A))"
    by (simp add: requests_def cores_def image_mset_filter_mset_swap [symmetric] multiset.map_comp o_def filter_mset_image_mset)
  then show ?thesis using client_run_sync [OF assms(2,1)] by (fastforce simp: in_sync_def)
qed

theorem blip_requests_delivered_witness:
  "\<exists>A fs ds B. client_run stored_miniz (H 7) A fs [(0, [0])] \<and> length fs = 1
     \<and> receive_all stored_miniz fs (new_BLIPIO stored_miniz False () ()) = Ok (ds, B) \<and> map content ds = [(0, [0])]"
proof -
  obtain f mb' A' A2 fr where r: "sendRequest empty_builder (new_BLIPIO stored_miniz False () ()) = Ok (f, mb', A')" "bld_out mb' = [0]"
    "io_lastMessageNo A' \<noteq> - 1" "frameGenerator stored_miniz (H 7) A' = Ok (FrameYielded fr, A2)" "all_msgs A2 = []"
    using one_request by blast
  have e: "bld_ok empty_builder" "\<not> bld_compressed empty_builder" "bld_flags empty_builder = 0"
    by (simp_all add: bld_ok_def empty_builder_def props_ok_def bld_flags_def blip_consts)
  have run: "client_run stored_miniz (H 7) A2 [fr] [(0, [0])]"
    using client_run.frame [OF client_run.send [OF client_run.start e(1,2) r(1)] r(3,4)] r(2) e(3) by simp
  obtain ds B where "receive_all stored_miniz [fr] (new_BLIPIO stored_miniz False () ()) = Ok (ds, B)" "{#(0, [0])#} = mset (map content ds)"
    using blip_requests_delivered [OF crc_ok_stored run, of False "()" "()"] r(5) by (auto simp: requests_def)
  then show ?thesis using run by (metis length_Cons list.size(3) One_nat_def mset_single_iff_right)
qed

end
