(* ===== verification/BlipFlow.thy ===== *)
theory BlipFlow
  imports BlipRequests
begin

text \<open>
  Flow control and closing of a BLIP connection (\<^verbatim>\<open>src/io/blip/BLIPIO.cc\<close>, \<^verbatim>\<open>src/io/blip/Message.cc\<close>, \<^verbatim>\<open>src/io/blip/MessageOut.cc\<close>): the
  acknowledgements a receiver sends are enough to thaw a message that waits for one, an acknowledgement can miss the message it is for, and what
  closing does to the messages that wait.
\<close>

subsection \<open>Acknowledgements\<close>

text \<open>The payloads of the messages that a step has put into the outbox.\<close>

definition new_payloads :: "('d, 'i) BLIPIO \<Rightarrow> ('d, 'i) BLIPIO \<Rightarrow> byte list list" where
  "new_payloads io io' = map mo_payload (filter (\<lambda>m. mo_id m \<ge> io_nextId io) (aq_queue (io_outbox io')))"

text \<open>
  The acknowledgements sent for one message while its frames are received: \<open>ns\<close> are the sizes of the frames, as \<^verbatim>\<open>receivedFrame\<close> counts them
  before it calls \<^verbatim>\<open>acknowledge\<close>.
\<close>

fun ack_run :: "nat list \<Rightarrow> MessageIn \<Rightarrow> ('d, 'i) BLIPIO \<Rightarrow> (byte list list \<times> MessageIn \<times> ('d, 'i) BLIPIO) outcome" where
  "ack_run [] m io = Ok ([], m, io)"
| "ack_run (n # ns) m io =
     obind (mi_acknowledge n (m\<lparr>mi_rawBytesReceived := mi_rawBytesReceived m + word_of_nat n\<rparr>) io) (\<lambda>(m1, io1).
     obind (ack_run ns m1 io1) (\<lambda>(acks, m2, io2). Ok (new_payloads io io1 @ acks, m2, io2)))"

lemma filter_one:
  assumes "mset xs = add_mset a (mset ys)" "P a" "\<forall>y \<in> set ys. \<not> P y"
  shows "filter P xs = [a]"
proof -
  have "mset (filter P xs) = {#a#}" using assms by (simp add: filter_mset_eq_mempty_iff)
  then show ?thesis by (metis mset_single_iff_right)
qed

lemma acknowledge_step:
  fixes io :: "('d, 'i) BLIPIO" and m :: MessageIn and n :: nat
  assumes "boxes_ok io" "io_sendOpen io"
  defines "u \<equiv> unat (mi_unackedBytes m + word_of_nat n)"
  shows "\<exists>io'. mi_acknowledge n m io = Ok (m\<lparr>mi_unackedBytes := if u \<ge> 50000 then 0 else mi_unackedBytes m + word_of_nat n\<rparr>, io')
    \<and> boxes_ok io' \<and> io_sendOpen io' \<and> new_payloads io io' = (if u \<ge> 50000 then [varint_put (mi_rawBytesReceived m)] else [])"
proof (cases "u \<ge> 50000")
  case True
  define flags where "flags = (if isResponse (mi_flags m) then kAckResponseType else kAckRequestType) OR kUrgent OR kNoReply"
  obtain ack where ack: "new_MessageOut (io_nextId io) flags (varint_put (mi_rawBytesReceived m)) (mi_number m) = Ok ack"
    "mo_id ack = io_nextId io" "mo_flags ack = flags" "mo_payload ack = varint_put (mi_rawBytesReceived m)" "mo_onResponse ack = None"
    using length_varint_put [of "mi_rawBytesReceived m"]
    by (auto simp: new_MessageOut_def kMaxSize_def message_flags_def flags_def blip_consts)
  let ?io = "io\<lparr>io_nextId := io_nextId io + 1\<rparr>"
  have old: "\<forall>x \<in> set (aq_queue (io_outbox io)). \<not> mo_id x \<ge> io_nextId io" using assms(1) by (auto simp: boxes_ok_def all_msgs_def not_le)
  then have "mo_id ack \<notin> mo_id ` set (aq_queue (io_outbox ?io))" using ack(2) by auto
  from queueMessage_Ok [OF ack(5) this] obtain b io' where q: "queueMessage ack ?io = Ok (b, io')" by blast
  have op: "io_sendOpen ?io" "queue_open (io_outbox ?io)" using assms(1,2) by (simp_all add: boxes_ok_def)
  have io': "mset (aq_queue (io_outbox io')) = add_mset ack (mset (aq_queue (io_outbox io)))" "io_sendOpen io'"
    using queueMessage_open [OF q op] assms(2) by (auto simp: out_same_def)
  have "is_urgent (mo_flags ack)" unfolding ack(3) flags_def by (auto simp: hasFlag_def blip_consts)
  then have a: "mi_acknowledge n m io = Ok (m\<lparr>mi_unackedBytes := 0\<rparr>, io')"
    using True ack(1) q by (simp add: mi_acknowledge_def io_send_def flags_def [symmetric] u_def kIncomingAckThreshold_def Let_def)
  moreover have "boxes_ok io'" using acknowledge_ok [OF assms(1), of n m] a by auto
  moreover have "new_payloads io io' = [varint_put (mi_rawBytesReceived m)]"
    using filter_one [OF io'(1), of "\<lambda>x. mo_id x \<ge> io_nextId io"] old ack(2,4) by (simp add: new_payloads_def)
  ultimately show ?thesis using True io'(2) by simp
next
  case False
  have "new_payloads io io = []" using assms(1) by (auto simp: new_payloads_def boxes_ok_def all_msgs_def filter_empty_conv not_le)
  then show ?thesis using False assms(1,2) by (simp add: mi_acknowledge_def u_def kIncomingAckThreshold_def Let_def)
qed

lemma unat_add_small: "unat (x :: 'a::len word) + n < 2 ^ LENGTH('a) \<Longrightarrow> unat (x + word_of_nat n) = unat x + n"
  by (simp add: unat_word_ariths(1) unsigned_of_nat take_bit_nat_eq_self)

lemma ack_run_total:
  fixes io :: "('d, 'i) BLIPIO"
  assumes "boxes_ok io" "io_sendOpen io" "unat (mi_rawBytesReceived m) + sum_list ns < 2 ^ 32" "unat (mi_unackedBytes m) < 50000"
    "unat (mi_unackedBytes m) \<le> unat (mi_rawBytesReceived m)"
  shows "\<exists>acks m' io'. ack_run ns m io = Ok (acks, m', io') \<and> unat (mi_rawBytesReceived m') = unat (mi_rawBytesReceived m) + sum_list ns
    \<and> unat (mi_unackedBytes m') < 50000 \<and> (acks = [] \<longrightarrow> unat (mi_unackedBytes m') = unat (mi_unackedBytes m) + sum_list ns)
    \<and> (acks \<noteq> [] \<longrightarrow> (\<exists>c. last acks = varint_put c \<and> unat c + unat (mi_unackedBytes m') = unat (mi_rawBytesReceived m')))"
  using assms
proof (induction ns arbitrary: m io)
  case Nil
  then show ?case by simp
next
  case (Cons n ns)
  define m0 where "m0 = m\<lparr>mi_rawBytesReceived := mi_rawBytesReceived m + word_of_nat n\<rparr>"
  have raw: "unat (mi_rawBytesReceived m0) = unat (mi_rawBytesReceived m) + n" using Cons.prems(3) by (simp add: m0_def unat_add_small)
  have un: "unat (mi_unackedBytes m0 + word_of_nat n) = unat (mi_unackedBytes m) + n" using Cons.prems(3,5) by (simp add: m0_def unat_add_small)
  define u where "u = unat (mi_unackedBytes m) + n"
  from acknowledge_step [OF Cons.prems(1,2), where m = m0 and n = n, unfolded un, folded u_def] obtain io1 where
    a: "mi_acknowledge n m0 io = Ok (m0\<lparr>mi_unackedBytes := if u \<ge> 50000 then 0 else mi_unackedBytes m0 + word_of_nat n\<rparr>, io1)"
    and io1: "boxes_ok io1" "io_sendOpen io1" and new: "new_payloads io io1 = (if u \<ge> 50000 then [varint_put (mi_rawBytesReceived m0)] else [])" by blast
  define m1 where "m1 = m0\<lparr>mi_unackedBytes := if u \<ge> 50000 then 0 else mi_unackedBytes m0 + word_of_nat n\<rparr>"
  have m1: "mi_rawBytesReceived m1 = mi_rawBytesReceived m0" "unat (mi_unackedBytes m1) = (if u \<ge> 50000 then 0 else u)"
    using un by (simp_all add: m1_def u_def)
  have "unat (mi_rawBytesReceived m1) + sum_list ns < 2 ^ 32" "unat (mi_unackedBytes m1) < 50000" "unat (mi_unackedBytes m1) \<le> unat (mi_rawBytesReceived m1)"
    using Cons.prems(3,5) raw m1 by (auto simp: u_def)
  from Cons.IH [OF io1 this] obtain acks m' io' where r: "ack_run ns m1 io1 = Ok (acks, m', io')"
    "unat (mi_rawBytesReceived m') = unat (mi_rawBytesReceived m1) + sum_list ns" "unat (mi_unackedBytes m') < 50000"
    "acks = [] \<longrightarrow> unat (mi_unackedBytes m') = unat (mi_unackedBytes m1) + sum_list ns"
    "acks \<noteq> [] \<longrightarrow> (\<exists>c. last acks = varint_put c \<and> unat c + unat (mi_unackedBytes m') = unat (mi_rawBytesReceived m'))" by blast
  have "ack_run (n # ns) m io = Ok (new_payloads io io1 @ acks, m', io')" using a r(1) by (simp add: m0_def [symmetric] m1_def [symmetric])
  then show ?case using r(2-5) raw m1 by (auto simp: new u_def)
qed

subsection \<open>Thawing\<close>

lemma receivedAck_unacked:
  assumes "unat c + k = unat (mo_bytesSent m)"
  shows "unat (mo_unackedBytes (mo_receivedAck c m)) \<le> k"
proof -
  have "c \<le> mo_bytesSent m" using assms by (simp add: word_le_nat_alt)
  moreover then have "unat (mo_bytesSent m - c) = k" using assms by (simp add: unat_sub)
  ultimately show ?thesis by (simp add: mo_receivedAck_def min_def word_le_nat_alt)
qed

lemma receivedAck_thaws:
  assumes A: "boxes_ok A" "findMessage N r (io_outbox A) = None"
    and m: "List.find (\<lambda>m. mo_number m = N \<and> isResponse (mo_flags m) = r) (io_icebox A) = Some m"
    and c: "unat (ucast c :: u32) + k = unat (mo_bytesSent m)" "k < 128000"
  shows "\<exists>A'. io_receivedAck N r (varint_put c) A = Ok A' \<and> mo_id m \<notin> mo_id ` set (io_icebox A')
    \<and> (\<exists>m' \<in> set (aq_queue (io_outbox A')). core m' = core m \<and> \<not> needsAck m')"
proof -
  define m1 where "m1 = mo_receivedAck (ucast c) m"
  have m1: "core m1 = core m" "mo_id m1 = mo_id m" "\<not> needsAck m1"
    using receivedAck_unacked [OF c(1)] c(2) by (simp_all add: m1_def needsAck_def kMaxUnackedBytes_def word_le_nat_alt)
  define A1 where "A1 = A\<lparr>io_icebox := update_message m1 (io_icebox A)\<rparr>"
  have in_ice: "m \<in> set (io_icebox A)" using m by (auto simp: find_Some_iff in_set_conv_nth)
  have ids: "mo_id m1 \<in> mo_id ` set (io_icebox A1)"
    using imageI [OF in_ice, of mo_id] map_id_update [of m1 "io_icebox A"] m1(2) by (metis A1_def list.set_map BLIPIO.select_convs(4) BLIPIO.update_convs(4) BLIPIO.surjective)
  then have found: "List.find (same_object m1) (update_message m1 (io_icebox A)) \<noteq> None" by (simp add: find_same_object A1_def del: not_None_eq)
  have "mo_id m \<notin> mo_id ` set (aq_queue (io_outbox A))" using A(1) in_ice by (force simp: boxes_ok_def all_msgs_def)
  then obtain q where q: "requeue m1 (io_outbox A) = Ok q" using requeue_Ok m1(2) by metis
  have "m1 \<in># mset (aq_queue q)" using requeue_open [OF q] A(1) by (simp add: boxes_ok_def)
  then have "m1 \<in> set (aq_queue q)" by simp
  moreover have "io_receivedAck N r (varint_put c) A = Ok (A1\<lparr>io_icebox := filter (\<lambda>x. \<not> same_object m1 x) (io_icebox A1), io_outbox := q\<rparr>)"
    using A(2) m varint_read_put [of c "[]"] m1(3) found q
    by (simp add: io_receivedAck_def m1_def [symmetric] A1_def thawMessage_def assert_that_def Let_def)
  ultimately show ?thesis using m1 by (auto simp: same_object_def image_iff)
qed


text \<open>A request of four frames of 32772 bytes, frozen after the last: the receiver acknowledges the second and the fourth.\<close>

definition frozen_sample :: MessageOut where
  "frozen_sample = \<lparr>mo_id = 0, mo_flags = 0, mo_number = 1, mo_payload = replicate 200000 0, mo_unsentPayload = replicate 68928 0,
     mo_uncompressedBytesSent = 131072, mo_bytesSent = 131088, mo_unackedBytes = 131088, mo_onResponse = Some 1\<rparr>"


subsection \<open>An acknowledgement that misses its message\<close>

text \<open>
  C7. A frozen response can stay frozen although it is acknowledged: \<^verbatim>\<open>isResponse\<close> also holds of acknowledgements, so when the outbox contains
  one with the same message number, the incoming acknowledgement is applied to that one.
\<close>

theorem ack_misses_frozen_response:
  assumes "a \<in> set (aq_queue (io_outbox A))" "isAck (mo_flags a)" "mo_number a = N"
  shows "\<exists>A'. io_receivedAck N True (varint_put c) A = Ok A' \<and> io_icebox A' = io_icebox A
    \<and> map mo_id (aq_queue (io_outbox A')) = map mo_id (aq_queue (io_outbox A))"
proof -
  have "isResponse (mo_flags a)" using assms(2) by (auto simp: isAck_def isResponse_def blip_consts)
  then obtain msg where "findMessage N True (io_outbox A) = Some msg"
    using assms(1,3) by (cases "findMessage N True (io_outbox A)") (auto simp: findMessage_def aq_find_if_def find_None_iff)
  then show ?thesis using varint_read_put [of c "[]"] by (simp add: io_receivedAck_def map_id_update)
qed

theorem ack_misses_frozen_response_witness:
  "let ack = frozen_sample\<lparr>mo_id := 5, mo_flags := kAckResponseType OR kUrgent OR kNoReply\<rparr>; r = frozen_sample\<lparr>mo_flags := kResponseType\<rparr>;
       io = new_BLIPIO stored_miniz False () (); A = io\<lparr>io_icebox := [r], io_outbox := (io_outbox io)\<lparr>aq_queue := [ack]\<rparr>, io_nextId := 6\<rparr>
   in boxes_ok A \<and> needsAck r \<and> (\<exists>A'. io_receivedAck 1 True (varint_put 131088) A = Ok A' \<and> io_icebox A' = [r])"
proof -
  let ?ack = "frozen_sample\<lparr>mo_id := 5, mo_flags := kAckResponseType OR kUrgent OR kNoReply\<rparr>"
  let ?r = "frozen_sample\<lparr>mo_flags := kResponseType\<rparr>" and ?io = "new_BLIPIO stored_miniz False () ()"
  let ?A = "?io\<lparr>io_icebox := [?r], io_outbox := (io_outbox ?io)\<lparr>aq_queue := [?ack]\<rparr>, io_nextId := 6\<rparr>"
  have "boxes_ok ?A" "needsAck ?r" "?ack \<in> set (aq_queue (io_outbox ?A))" "mo_number ?ack = 1"
    by (simp_all add: boxes_ok_def all_msgs_def new_BLIPIO_def queue_open_def new_aqueue_def frozen_sample_def needsAck_def kMaxUnackedBytes_def)
  moreover have "isAck (mo_flags ?ack)" by (simp add: isAck_def msg_type_def blip_consts)
  ultimately show ?thesis using ack_misses_frozen_response [of ?ack ?A 1 131088] by (auto simp: Let_def)
qed

subsection \<open>Closing\<close>

lemma createNextFrame_last:
  fixes io :: "('d, 'i) BLIPIO" and m :: MessageOut
  assumes "\<not> isAck (mo_flags m)" "\<not> hasFlag (mo_flags m) kCompressed" "\<not> hasFlag (mo_flags m) kMoreComing" "crc_ok z" "out_codec_ok (io_outputCodec io)"
    "length (mo_unsentPayload m) \<le> 4096"
  defines "codec \<equiv> addToChecksum z (mo_unsentPayload m) (io_outputCodec io)"
    and "N \<equiv> (if mo_number m = 0 then io_lastMessageNo io + 1 else mo_number m)"
    and "L \<equiv> (if mo_number m = 0 then io_lastMessageNo io + 1 else io_lastMessageNo io)"
  shows "\<exists>m1. createNextFrame z m io = obind (message_sent m1 (io\<lparr>io_lastMessageNo := L, io_outputCodec := codec\<rparr>))
      (\<lambda>io1. Ok (varint_put N @ mo_flags m # mo_unsentPayload m @ be_bytes 4 (cd_checksum codec), io1))
    \<and> mo_flags m1 = mo_flags m \<and> mo_onResponse m1 = mo_onResponse m \<and> mo_number m1 = N"
proof -
  define m0 io0 where "m0 = m\<lparr>mo_number := N\<rparr>" and "io0 = io\<lparr>io_lastMessageNo := L\<rparr>"
  have same: "io = io\<lparr>io_lastMessageNo := io_lastMessageNo io\<rparr>" "m = m\<lparr>mo_number := mo_number m\<rparr>" by (cases io, simp, cases m, simp)
  have a: "assign_number m io = (m0, io0)" unfolding assign_number_def m0_def io0_def N_def L_def using same by auto
  have m0: "mo_flags m0 = mo_flags m" "mo_unsentPayload m0 = mo_unsentPayload m" "io_outputCodec io0 = io_outputCodec io" "mo_number m0 = N"
    "mo_onResponse m0 = mo_onResponse m" by (simp_all add: m0_def io0_def)
  have l: "length (varint_put N) \<le> 10" using length_varint_put [of N] by (simp add: kMaxSize_def)
  define room where "room = frame_room m0 io0 - length (varint_put N) - 1"
  have room: "room \<ge> 4100" using frame_room_bounds [of m0 io0] l
    by (simp add: room_def kDefaultFrameSize_def kMaxFrameOverhead_def kMaxSize_def kChecksumSize_def)
  have w: "varint_write N \<lparr>mb_written = [], mb_room = frame_room m0 io0\<rparr> =
      Ok \<lparr>mb_written = varint_put N, mb_room = frame_room m0 io0 - length (varint_put N)\<rparr>"
    using l frame_room_bounds [of m0 io0] by (simp add: varint_write_def MutableBytes_write_fits kDefaultFrameSize_def)
  have r4: "room > 4" "min (length (mo_unsentPayload m0)) (room - 4) = length (mo_unsentPayload m0)" using assms(6) m0(2) room by simp_all
  note nf = nextFrameToSend_raw [where msg = m0 and room = room, unfolded m0(1), OF assms(1,2) r4(1) assms(4,5), unfolded r4(2)]
  obtain out1 m1 where nf: "nextFrameToSend z m0 (io_outputCodec io) \<lparr>mb_written = [], mb_room = room\<rparr> = Ok (mo_flags m, out1, m1, codec)"
    "mb_written out1 = mo_unsentPayload m @ be_bytes 4 (cd_checksum codec)"
    "mo_flags m1 = mo_flags m" "mo_onResponse m1 = mo_onResponse m" "mo_number m1 = N" using nf m0 by (simp add: codec_def)
  have rm: "frame_room m0 io0 - length (varint_put N) - Suc 0 = room" by (simp add: room_def)
  have "createNextFrame z m io = obind (message_sent m1 (io0\<lparr>io_outputCodec := codec\<rparr>))
      (\<lambda>io1. Ok (varint_put N @ mo_flags m # mo_unsentPayload m @ be_bytes 4 (cd_checksum codec), io1))"
    using nf assms(1,3) by (simp add: createNextFrame_def a w rm m0(3,4) frame_sent_def Let_def del: diff_diff_left)
  then show ?thesis using nf(3-5) unfolding io0_def by auto
qed

lemma message_sent_closed:
  assumes "boxes_ok io" "\<not> io_sendOpen io" "aq_queue (io_wayOutBox io) = w # ws" "mo_onResponse w = Some f" "f \<notin> fst ` set (io_resolved io)"
    and m: "msg_type (mo_flags m) = kRequestType" "\<not> noReply (mo_flags m)"
  shows "\<exists>io'. message_sent m io = Ok io' \<and> aq_queue (io_wayOutBox io') = ws \<and> io_outbox io' = io_outbox io \<and> io_icebox io' = io_icebox io
    \<and> io_resolved io' = io_resolved io @ [(f, None)] \<and> io_sendOpen io' = io_sendOpen io \<and> io_generator io' = io_generator io"
  using assms
  by (simp add: message_sent_def aq_maybePop_def aq_pop_def super_pop_def aq_full_def boxes_ok_def queue_open_def queueMessage_def mo_disconnected_def
      noResponse_def resolve_def createResponse_def Let_def)

text \<open>
  What users of a connection's \<^verbatim>\<open>BLIPIO\<close> do, short of \<^verbatim>\<open>stop\<close>: the task that sends gets the next frame, which it can unless the generator waits for
  the outbox and has not been woken; frames are received; messages, requests and responses are sent; either side is closed.
\<close>

inductive io_step :: "('d, 'i) miniz \<Rightarrow> coro_handle \<Rightarrow> ('d, 'i) BLIPIO \<Rightarrow> ('d, 'i) BLIPIO \<Rightarrow> bool" for z g where
  frame: "io_generator io \<noteq> GAwaiting \<or> g \<in> snd (aq_pullCond (io_outbox io)) \<Longrightarrow> frameGenerator z g io = Ok (ev, io') \<Longrightarrow> io_step z g io io'"
| receive: "receive z fr io = Ok (r, io') \<Longrightarrow> io_step z g io io'"
| send: "io_send m io = Ok (b, io') \<Longrightarrow> io_step z g io io'"
| request: "sendRequest mb io = Ok (f, mb', io') \<Longrightarrow> io_step z g io io'"
| respond: "respond mb m io = Ok (m', io') \<Longrightarrow> io_step z g io io'"
| respondWithError: "respondWithError e m io = Ok (m', io') \<Longrightarrow> io_step z g io io'"
| respond_default: "respond_default m io = Ok (m', io') \<Longrightarrow> io_step z g io io'"
| closeSend: "io_step z g io (closeSend io)"
| closeReceive: "closeReceive io = Ok io' \<Longrightarrow> io_step z g io io'"

text \<open>The generator of frames waits on an empty outbox, unwoken, while the messages with the identities \<open>is\<close> wait in \<^verbatim>\<open>_wayOutBox\<close>.\<close>

definition stuck :: "coro_handle \<Rightarrow> nat list \<Rightarrow> ('d, 'i) BLIPIO \<Rightarrow> bool" where
  "stuck g is io \<longleftrightarrow> \<not> io_sendOpen io \<and> aq_queue (io_outbox io) = [] \<and> io_icebox io = [] \<and> map mo_id (aq_queue (io_wayOutBox io)) = is
     \<and> io_generator io = GAwaiting \<and> g \<notin> snd (aq_pullCond (io_outbox io))"

lemma stuck_update [simp]:
  "stuck g is (io\<lparr>io_inputCodec := c\<rparr>) = stuck g is io" "stuck g is (io\<lparr>io_pendingRequests := rs\<rparr>) = stuck g is io"
  "stuck g is (io\<lparr>io_pendingResponses := rs\<rparr>) = stuck g is io" "stuck g is (io\<lparr>io_numRequestsReceived := n\<rparr>) = stuck g is io"
  "stuck g is (io\<lparr>io_totalBytesRead := k\<rparr>) = stuck g is io" "stuck g is (io\<lparr>io_resolved := fs\<rparr>) = stuck g is io"
  "stuck g is (io\<lparr>io_nextId := i\<rparr>) = stuck g is io" "stuck g is (io\<lparr>io_receiveOpen := b\<rparr>) = stuck g is io"
  by (simp_all add: stuck_def)

lemma resolve_stuck: "resolve f r io = Ok io' \<Longrightarrow> stuck g is io \<Longrightarrow> stuck g is io'"
  by (auto simp: resolve_def split: if_splits)

lemma io_send_stuck: "io_send m io = Ok (b, io') \<Longrightarrow> stuck g is io \<Longrightarrow> stuck g is io'"
  by (auto simp: io_send_def queueMessage_def stuck_def mo_disconnected_def noResponse_def resolve_def obind_eq_Ok kOutboxCapacity_def
      split: if_splits option.splits)

lemma acknowledge_stuck: "mi_acknowledge n m io = Ok (m', io') \<Longrightarrow> stuck g is io \<Longrightarrow> stuck g is io'"
  by (auto simp: mi_acknowledge_def Let_def obind_eq_Ok intro: io_send_stuck split: if_splits)

lemma finish_message_stuck: "finish_message rs m io = Ok (rs', m', io') \<Longrightarrow> stuck g is io \<Longrightarrow> stuck g is io'"
  by (auto simp: finish_message_def raise_blip_def Let_def obind_eq_Ok intro: resolve_stuck split: if_splits option.splits)

lemma receivedFrame_stuck:
  assumes "receivedFrame z fr fl m io = Ok (rs, m', io')" "stuck g is io"
  shows "stuck g is io'"
proof -
  obtain m1 io1 where a: "mi_acknowledge (length fr) (m\<lparr>mi_rawBytesReceived := mi_rawBytesReceived m + word_of_nat (length fr)\<rparr>) io = Ok (m1, io1)"
      "(\<exists>c. io' = io1\<lparr>io_inputCodec := c\<rparr>) \<or> (\<exists>rs1 m4 c. finish_message rs1 m4 (io1\<lparr>io_inputCodec := c\<rparr>) = Ok (rs, m', io'))"
    using assms(1) unfolding receivedFrame_def Let_def by (auto simp: obind_eq_Ok split: if_splits)
  have "stuck g is io1" by (rule acknowledge_stuck [OF a(1) assms(2)])
  then have c: "stuck g is (io1\<lparr>io_inputCodec := c\<rparr>)" for c by simp
  from a(2) show ?thesis using c finish_message_stuck [OF _ c] by auto
qed

lemma receivedAck_stuck: "io_receivedAck n b body io = Ok io' \<Longrightarrow> stuck g is io \<Longrightarrow> io' = io"
  by (auto simp: io_receivedAck_def findMessage_def aq_find_if_def stuck_def)

lemma receive_stuck:
  assumes "receive z fr io = Ok (r, io')" "stuck g is io"
  shows "stuck g is io'"
proof -
  let ?io = "io\<lparr>io_totalBytesRead := io_totalBytesRead io + word_of_nat (length fr)\<rparr>"
  have s: "stuck g is ?io" using assms(2) by simp
  have req: "stuck g is io2" if "pendingRequest n fl ?io = Ok (m, io1)" "receivedFrame z x fl m io1 = Ok (rs, m1, io2)" for n fl m io1 x rs m1 io2
    by (rule receivedFrame_stuck [OF that(2)])
       (use that(1) s in \<open>auto simp: pendingRequest_def raise_blip_def Let_def split: option.splits if_splits\<close>)
  have resp: "stuck g is io2" if "pendingResponse n fl ?io = Ok (m, io1)" "receivedFrame z x fl m io1 = Ok (rs, m1, io2)" for n fl m io1 x rs m1 io2
    by (rule receivedFrame_stuck [OF that(2)])
       (use that(1) s in \<open>auto simp: pendingResponse_def raise_blip_def split: option.splits if_splits\<close>)
  have upd: "stuck g is (update_request n m x) = stuck g is x" "stuck g is (update_response n m x) = stuck g is x" for n m x
    by (simp_all add: update_request_def update_response_def)
  from assms(1) show ?thesis unfolding receive_def Let_def
    by (auto simp: obind_eq_Ok raise_blip_def upd assms(2) split: if_splits dest: req resp receivedAck_stuck [OF _ s])
qed

lemma respond_stuck: "respond mb m io = Ok (m', io') \<Longrightarrow> stuck g is io \<Longrightarrow> stuck g is io'"
  by (auto simp: respond_def Let_def obind_eq_Ok assert_that_eq_Ok intro: io_send_stuck split: if_splits)

lemma set_onResponse_ids: "map mo_id (set_onResponse i f ms) = map mo_id ms"
  by (simp add: set_onResponse_def)

lemma sendRequest_stuck:
  assumes "sendRequest mb io = Ok (f, mb', io')" "stuck g is io"
  shows "stuck g is io'"
proof -
  obtain m b io1 where s: "io_send m (io\<lparr>io_nextId := f + 1\<rparr>) = Ok (b, io1)"
      "io' = io1\<lparr>io_outbox := (io_outbox io1)\<lparr>aq_queue := set_onResponse (io_nextId io) f (aq_queue (io_outbox io1))\<rparr>,
         io_wayOutBox := (io_wayOutBox io1)\<lparr>aq_queue := set_onResponse (io_nextId io) f (aq_queue (io_wayOutBox io1))\<rparr>\<rparr>"
    using assms(1) by (auto simp: sendRequest_def Let_def obind_eq_Ok assert_that_eq_Ok)
  have "stuck g is io1" by (rule io_send_stuck [OF s(1)]) (simp add: assms(2))
  then show ?thesis by (simp add: s(2) stuck_def set_onResponse_ids) (simp add: set_onResponse_def)
qed

lemma disconnect_stuck: "foldo (\<lambda>(_, m) io. mi_disconnected m io) ms io = Ok io' \<Longrightarrow> stuck g is io \<Longrightarrow> stuck g is io'"
proof (induction ms arbitrary: io)
  case (Cons x ms)
  then obtain io1 where io1: "mi_disconnected (snd x) io = Ok io1" "foldo (\<lambda>(_, m) io. mi_disconnected m io) ms io1 = Ok io'"
    by (cases x) (auto simp: obind_eq_Ok)
  then have "stuck g is io1" using Cons.prems(2) by (auto simp: mi_disconnected_def intro: resolve_stuck split: option.splits)
  with Cons.IH io1(2) show ?case by blast
qed simp

lemma closeReceive_stuck:
  assumes "closeReceive io = Ok io'" "stuck g is io"
  shows "stuck g is io'"
proof (cases "io_receiveOpen io")
  case True
  then obtain io1 io2 where r: "foldo (\<lambda>(_, m) io. mi_disconnected m io) (io_pendingRequests io) (io\<lparr>io_receiveOpen := False\<rparr>) = Ok io1"
      "foldo (\<lambda>(_, m) io. mi_disconnected m io) (io_pendingResponses io) (io1\<lparr>io_pendingRequests := []\<rparr>) = Ok io2"
      "io' = io2\<lparr>io_pendingResponses := []\<rparr>"
    using assms(1) by (auto simp: closeReceive_def closeRead_def cancel_pending_def obind_eq_Ok)
  have "stuck g is io1" by (rule disconnect_stuck [OF r(1)]) (simp add: assms(2))
  then have "stuck g is io2" by (intro disconnect_stuck [OF r(2)]) simp
  then show ?thesis by (simp add: r(3))
qed (use assms in \<open>simp add: closeReceive_def\<close>)

lemma io_step_stuck: "io_step z g io io' \<Longrightarrow> stuck g is io \<Longrightarrow> stuck g is io'"
proof (induction rule: io_step.induct)
  case (frame io ev io')
  then show ?case by (simp add: stuck_def)
next
  case (respondWithError e m io m' io')
  then show ?case by (auto simp: respondWithError_def obind_eq_Ok intro: respond_stuck split: if_splits)
next
  case (respond_default m io m' io')
  then show ?case by (auto simp: respond_default_def obind_eq_Ok intro: respond_stuck split: if_splits)
next
  case (closeSend io)
  then show ?case by (simp add: closeSend_def stuck_def)
qed (rule receive_stuck io_send_stuck sendRequest_stuck respond_stuck closeReceive_stuck; assumption)+

lemma io_steps_stuck: "(io_step z g)\<^sup>*\<^sup>* io io' \<Longrightarrow> stuck g is io \<Longrightarrow> stuck g is io'"
  by (induction rule: rtranclp_induct) (auto intro: io_step_stuck)

text \<open>The last frame of a message is sent after the sending side was closed.\<close>

lemma closed_last_frame:
  assumes io: "boxes_ok io" "\<not> io_sendOpen io" "io_generator io = GYielded" "crc_ok z" "out_codec_ok (io_outputCodec io)"
    and q: "aq_queue (io_outbox io) = m # q" "req_flags (mo_flags m)" "\<not> noReply (mo_flags m)" "length (mo_unsentPayload m) \<le> 4096"
    and w: "aq_queue (io_wayOutBox io) = w # ws" "mo_onResponse w = Some f" "f \<notin> fst ` set (io_resolved io)"
  shows "\<exists>fr io'. frameGenerator z g io = Ok (FrameYielded fr, io') \<and> (f, None) \<in> set (io_resolved io')
    \<and> io_outbox io' = (io_outbox io)\<lparr>aq_queue := q\<rparr> \<and> io_icebox io' = io_icebox io \<and> aq_queue (io_wayOutBox io') = ws
    \<and> \<not> io_sendOpen io' \<and> io_generator io' = GYielded"
proof -
  define A1 where "A1 = io\<lparr>io_generator := GYielded, io_outbox := (io_outbox io)\<lparr>aq_queue := q\<rparr>\<rparr>"
  have o: "queue_open (io_outbox io)" using io(1) by (simp add: boxes_ok_def)
  have g: "gen_run g GYielded (io_outbox io) = Ok (GenItem m, GYielded, (io_outbox io)\<lparr>aq_queue := q\<rparr>)"
    using o q(1) by (simp add: gen_loop_def gen_pop_def aq_pop_def super_pop_def aq_full_def queue_open_def Let_def)
  note fl = req_flags_simps [OF q(2) disjI1 [OF refl]]
  have A1: "out_codec_ok (io_outputCodec A1)" using io(5) by (simp add: A1_def)
  from createNextFrame_last [OF fl(7,2,6) io(4) A1 q(4)] obtain fr m1 codec N where
    c: "createNextFrame z m A1 = obind (message_sent m1 (A1\<lparr>io_lastMessageNo := N, io_outputCodec := codec\<rparr>)) (\<lambda>io1. Ok (fr, io1))"
    and m1: "mo_flags m1 = mo_flags m" by blast
  have A2: "boxes_ok (A1\<lparr>io_lastMessageNo := N, io_outputCodec := codec\<rparr>)" "\<not> io_sendOpen (A1\<lparr>io_lastMessageNo := N, io_outputCodec := codec\<rparr>)"
    "aq_queue (io_wayOutBox (A1\<lparr>io_lastMessageNo := N, io_outputCodec := codec\<rparr>)) = w # ws"
    "f \<notin> fst ` set (io_resolved (A1\<lparr>io_lastMessageNo := N, io_outputCodec := codec\<rparr>))"
    using io(1,2) q(1) w by (auto simp: A1_def boxes_ok_def all_msgs_def)
  have "msg_type (mo_flags m1) = kRequestType" "\<not> noReply (mo_flags m1)" using fl(1) m1 q(3) by (simp_all add: msg_type_def)
  from message_sent_closed [OF A2(1-3) w(2) A2(4) this] obtain io1 where s: "message_sent m1 (A1\<lparr>io_lastMessageNo := N, io_outputCodec := codec\<rparr>) = Ok io1"
    and io1: "aq_queue (io_wayOutBox io1) = ws" "io_outbox io1 = (io_outbox io)\<lparr>aq_queue := q\<rparr>" "io_icebox io1 = io_icebox io"
      "io_resolved io1 = io_resolved io @ [(f, None)]" "\<not> io_sendOpen io1" "io_generator io1 = GYielded"
    using io(2) by (auto simp: A1_def)
  define io' where "io' = io1\<lparr>io_totalBytesWritten := io_totalBytesWritten io1 + word_of_nat (length fr)\<rparr>"
  have "frameGenerator z g io = Ok (FrameYielded fr, io')"
    using io(3) q(1) g c s by (simp add: frameGenerator_def hasOutput_def A1_def io'_def Let_def del: gen_run.simps)
  then show ?thesis using io1 by (auto simp: io'_def)
qed

text \<open>
  C5. Closing the sending side loses messages that are waiting, and can stop the connection for good. After \<^verbatim>\<open>closeSend\<close>, when the last frame
  of a message has been sent, a message that waits in \<^verbatim>\<open>_wayOutBox\<close> is taken out and refused: its future gets a null response and it is in no
  box any more, though it was accepted before the call. If that was the last message in the outbox, none is in the icebox and more are waiting,
  then the generator of frames waits for the outbox and is never woken again, whatever is received, sent or closed afterwards, short of
  \<^verbatim>\<open>stop\<close>: the waiting messages stay where they are and there is still output.
\<close>

theorem closeSend_drops_waiting:
  assumes io: "boxes_ok io" "io_sendOpen io" "io_generator io = GYielded" "crc_ok z" "out_codec_ok (io_outputCodec io)"
    and g: "g \<notin> snd (aq_pullCond (io_outbox io))"
    and q: "aq_queue (io_outbox io) = m # q" "req_flags (mo_flags m)" "\<not> noReply (mo_flags m)" "length (mo_unsentPayload m) \<le> 4096"
    and w: "aq_queue (io_wayOutBox io) = w # ws" "mo_onResponse w = Some f" "f \<notin> fst ` set (io_resolved io)"
  shows "\<exists>fr io'. frameGenerator z g (closeSend io) = Ok (FrameYielded fr, io') \<and> (f, None) \<in> set (io_resolved io')
    \<and> aq_queue (io_outbox io') = q \<and> io_icebox io' = io_icebox io \<and> aq_queue (io_wayOutBox io') = ws
    \<and> (q = [] \<and> io_icebox io = [] \<and> ws \<noteq> [] \<longrightarrow> (\<exists>io1. frameGenerator z g io' = Ok (FramesBlocked, io1)
        \<and> (\<forall>io2. (io_step z g)\<^sup>*\<^sup>* io1 io2 \<longrightarrow> io_generator io2 = GAwaiting \<and> g \<notin> snd (aq_pullCond (io_outbox io2))
             \<and> map mo_id (aq_queue (io_wayOutBox io2)) = map mo_id ws \<and> hasOutput io2)))"
proof -
  have c: "closeSend io = io\<lparr>io_sendOpen := False\<rparr>" using io(2) q(1) by (simp add: closeSend_def hasOutput_def Let_def)
  then have c': "boxes_ok (closeSend io)" "\<not> io_sendOpen (closeSend io)" "io_generator (closeSend io) = GYielded" "out_codec_ok (io_outputCodec (closeSend io))"
      "io_outbox (closeSend io) = io_outbox io" "io_icebox (closeSend io) = io_icebox io"
      "aq_queue (io_wayOutBox (closeSend io)) = w # ws" "f \<notin> fst ` set (io_resolved (closeSend io))"
    using io w by (simp_all add: boxes_ok_def all_msgs_def)
  from closed_last_frame [OF c'(1-3) io(4) c'(4) _ q(2-4) c'(7) w(2) c'(8), of q g] c'(5,6) q(1)
  obtain fr io' where r: "frameGenerator z g (closeSend io) = Ok (FrameYielded fr, io')" "(f, None) \<in> set (io_resolved io')"
      "io_outbox io' = (io_outbox io)\<lparr>aq_queue := q\<rparr>" "io_icebox io' = io_icebox io" "aq_queue (io_wayOutBox io') = ws"
      "\<not> io_sendOpen io'" "io_generator io' = GYielded" by auto
  have "\<exists>io1. frameGenerator z g io' = Ok (FramesBlocked, io1) \<and> (\<forall>io2. (io_step z g)\<^sup>*\<^sup>* io1 io2 \<longrightarrow> io_generator io2 = GAwaiting
      \<and> g \<notin> snd (aq_pullCond (io_outbox io2)) \<and> map mo_id (aq_queue (io_wayOutBox io2)) = map mo_id ws \<and> hasOutput io2)"
    if e: "q = []" "io_icebox io = []" "ws \<noteq> []"
  proof -
    have "queue_open (io_outbox io)" using io(1) by (simp add: boxes_ok_def)
    then obtain io1 where io1: "frameGenerator z g io' = Ok (FramesBlocked, io1)" "stuck g (map mo_id ws) io1"
      using r(3-7) e g by (simp add: frameGenerator_def hasOutput_def gen_loop_def queue_open_def stuck_def spec_wait_def Let_def)
    have "io_generator x = GAwaiting \<and> g \<notin> snd (aq_pullCond (io_outbox x)) \<and> map mo_id (aq_queue (io_wayOutBox x)) = map mo_id ws \<and> hasOutput x"
      if "stuck g (map mo_id ws) x" for x using that e(3) by (auto simp: stuck_def hasOutput_def)
    with io1 io_steps_stuck [OF _ io1(2)] show ?thesis by blast
  qed
  with r show ?thesis by (intro exI [of _ fr] exI [of _ io']) simp
qed

text \<open>One message in the outbox and two waiting, when \<^verbatim>\<open>closeSend\<close> is called.\<close>

definition waiting_sample :: "nat \<Rightarrow> MessageOut" where
  "waiting_sample i = \<lparr>mo_id = i, mo_flags = 0, mo_number = 0, mo_payload = [0], mo_unsentPayload = [0], mo_uncompressedBytesSent = 0,
     mo_bytesSent = 0, mo_unackedBytes = 0, mo_onResponse = Some (i + 1)\<rparr>"

definition closing_sample :: "(unit, unit) BLIPIO" where
  "closing_sample = (let io = new_BLIPIO stored_miniz False () ()
     in io\<lparr>io_generator := GYielded, io_outbox := (io_outbox io)\<lparr>aq_queue := [waiting_sample 0]\<rparr>,
          io_wayOutBox := (io_wayOutBox io)\<lparr>aq_queue := [waiting_sample 2, waiting_sample 4]\<rparr>, io_nextId := 6\<rparr>)"

theorem closeSend_drops_waiting_witness:
  "\<exists>fr io' io1. frameGenerator stored_miniz (H 7) (closeSend closing_sample) = Ok (FrameYielded fr, io') \<and> (3, None) \<in> set (io_resolved io')
     \<and> aq_queue (io_wayOutBox io') = [waiting_sample 4] \<and> frameGenerator stored_miniz (H 7) io' = Ok (FramesBlocked, io1)
     \<and> (\<forall>io2. (io_step stored_miniz (H 7))\<^sup>*\<^sup>* io1 io2 \<longrightarrow> io_generator io2 = GAwaiting \<and> H 7 \<notin> snd (aq_pullCond (io_outbox io2)))"
proof -
  note defs = closing_sample_def new_BLIPIO_def new_aqueue_def Let_def
  have io: "boxes_ok closing_sample" "io_sendOpen closing_sample" "io_generator closing_sample = GYielded" "out_codec_ok (io_outputCodec closing_sample)"
      "H 7 \<notin> snd (aq_pullCond (io_outbox closing_sample))"
    by (simp_all add: defs boxes_ok_def all_msgs_def queue_open_def out_codec_ok_def new_Codec_def waiting_sample_def)
  have q: "aq_queue (io_outbox closing_sample) = [waiting_sample 0]" "aq_queue (io_wayOutBox closing_sample) = [waiting_sample 2, waiting_sample 4]"
    "io_resolved closing_sample = []" "io_icebox closing_sample = []" by (simp_all add: defs)
  have w: "req_flags (mo_flags (waiting_sample 0))" "\<not> noReply (mo_flags (waiting_sample 0))" "length (mo_unsentPayload (waiting_sample 0)) \<le> 4096"
    "mo_onResponse (waiting_sample 2) = Some 3" by (simp_all add: waiting_sample_def req_flags_def hasFlag_def)
  have f: "3 \<notin> fst ` set (io_resolved closing_sample)" by (simp add: q(3))
  from closeSend_drops_waiting [OF io(1-3) crc_ok_stored io(4,5) q(1) w(1-3) q(2) w(4) f] q(4) show ?thesis by fastforce
qed

subsection \<open>Frames that are too short\<close>

definition defined :: "'a outcome \<Rightarrow> bool" where
  "defined r \<longleftrightarrow> r \<noteq> Throw UndefinedBehavior"

lemma defined_simps [simp]: "defined (Ok x)" "defined (Throw (Raise d c))" "defined (raise_blip e)"
  by (simp_all add: defined_def raise_blip_def)

lemma defined_obind: "defined a \<Longrightarrow> (\<And>x. a = Ok x \<Longrightarrow> defined (k x)) \<Longrightarrow> defined (obind a k)"
  by (cases a) (auto simp: defined_def)

lemma varint_read_defined: "defined (varint_read bs)"
  by (auto simp: defined_def varint_read_def readPartial_def split: option.splits)

lemma raw_defined: "mb_room out > 0 \<Longrightarrow> defined (codec_write z Raw input out c)"
  by (simp add: defined_def codec_write.simps writeRaw_def MutableBytes_write_def Let_def)

lemma writeAll_defined: "defined (writeAll z Raw input body c)"
  by (simp add: writeAll_def)

lemma read_properties_size_defined: "defined (read_properties_size z Raw f frame m c)"
  unfolding read_properties_size_def
  by (auto intro!: defined_obind raw_defined varint_read_defined simp: ConstBytes_read_def Let_def)

lemma read_properties_defined: "defined (read_properties z Raw frame m c)"
  unfolding read_properties_def by (auto intro!: defined_obind raw_defined simp: Let_def)

lemma finish_message_defined: "defined (finish_message rs m io)"
  by (auto simp: finish_message_def resolve_def Let_def split: option.splits)

lemma receivedFrame_undefined:
  fixes io :: "('d, 'i) BLIPIO"
  assumes "boxes_ok io" "\<not> hasFlag f kCompressed"
  shows "receivedFrame z data f m io = Throw UndefinedBehavior \<longleftrightarrow> length data < 4"
proof -
  from acknowledge_ok [OF assms(1), of "length data" "m\<lparr>mi_rawBytesReceived := mi_rawBytesReceived m + word_of_nat (length data)\<rparr>"]
  obtain m1 io1 where a: "mi_acknowledge (length data) (m\<lparr>mi_rawBytesReceived := mi_rawBytesReceived m + word_of_nat (length data)\<rparr>) io = Ok (m1, io1)" by blast
  show ?thesis
  proof (cases "length data < 4")
    case True
    then show ?thesis using a by (simp add: receivedFrame_def Bytes_last_def kChecksumSize_def Let_def)
  next
    case False
    have "defined (readChecksum z (drop (length data - 4) data))" "defined (verifyChecksum k c)" for k and c :: "('d, 'i) Codec"
      by (auto simp: readChecksum_def verifyChecksum_def split: prod.splits)
    then have "defined (receivedFrame z data f m io)"
      using a False assms(2) unfolding receivedFrame_def
      by (auto intro!: defined_obind read_properties_size_defined read_properties_defined writeAll_defined finish_message_defined
          simp: kChecksumSize_def Let_def)
    then have "receivedFrame z data f m io \<noteq> Throw UndefinedBehavior" by (simp add: defined_def)
    then show ?thesis using False by simp
  qed
qed

lemma pendingRequest_in:
  assumes "map_of (io_pendingRequests io) n \<noteq> None \<or> n = io_numRequestsReceived io + 1" "boxes_ok io"
  shows "\<exists>m io1. pendingRequest n f io = Ok (m, io1) \<and> boxes_ok io1"
  using assms by (cases "map_of (io_pendingRequests io) n") (auto simp: pendingRequest_def boxes_ok_def all_msgs_def Let_def)

text \<open>
  C6. Receiving a frame of an uncompressed request that is expected has defined behaviour for all data but those of fewer than four bytes: then
  \<^verbatim>\<open>receivedFrame\<close> takes the last four bytes of a shorter range, before \<^verbatim>\<open>readChecksum\<close> can report that the checksum is missing. A peer can
  send such a frame.
\<close>

theorem receive_undefined_iff_short:
  assumes "boxes_ok B" "io_receiveOpen B" "map_of (io_pendingRequests B) n \<noteq> None \<or> n = io_numRequestsReceived B + 1"
    "f < 0x80" "f AND kTypeMask = kRequestType" "\<not> hasFlag f kCompressed"
  shows "receive z (varint_put n @ f # data) B = Throw UndefinedBehavior \<longleftrightarrow> length data < 4"
proof -
  define B0 where "B0 = B\<lparr>io_totalBytesRead := io_totalBytesRead B + word_of_nat (length (varint_put n @ f # data))\<rparr>"
  have B0: "boxes_ok B0" "map_of (io_pendingRequests B0) n \<noteq> None \<or> n = io_numRequestsReceived B0 + 1"
    using assms(1,3) by (simp_all add: B0_def boxes_ok_def all_msgs_def)
  from pendingRequest_in [OF B0(2,1)] obtain m io1 where p: "pendingRequest n f B0 = Ok (m, io1)" "boxes_ok io1" by blast
  have "receive z (varint_put n @ f # data) B =
      obind (receivedFrame z data f m io1) (\<lambda>(rs, m1, io2). Ok (if rs = kEnd then Some m1 else None, update_request n m1 io2))"
    using assms(2,5) p(1) ucast_byte(1) [OF assms(4)] ucast_byte(2) [of f] varint_read_byte [OF assms(4)] by (simp add: receive_def B0_def Let_def)
  then show ?thesis
    using receivedFrame_undefined [OF p(2) assms(6), of z data m]
    by (cases "receivedFrame z data f m io1") auto
qed

theorem receive_undefined_iff_short_witness:
  "receive stored_miniz [1, 0, 0, 0] (new_BLIPIO stored_miniz True () ()) = Throw UndefinedBehavior
   \<and> receive stored_miniz [1, 0, 0, 0, 0, 0] (new_BLIPIO stored_miniz True () ()) \<noteq> Throw UndefinedBehavior"
proof -
  let ?B = "new_BLIPIO stored_miniz True () ()"
  have B: "boxes_ok ?B" "io_receiveOpen ?B" "map_of (io_pendingRequests ?B) 1 \<noteq> None \<or> 1 = io_numRequestsReceived ?B + 1"
    by (simp_all add: boxes_ok_def all_msgs_def new_BLIPIO_def queue_open_def new_aqueue_def)
  have f: "(0::byte) < 0x80" "(0::byte) AND kTypeMask = kRequestType" "\<not> hasFlag 0 kCompressed" by (simp_all add: kRequestType_def hasFlag_def)
  show ?thesis
    using receive_undefined_iff_short [OF B f, of stored_miniz "[0, 0]"] receive_undefined_iff_short [OF B f, of stored_miniz "[0, 0, 0, 0]"]
    by (simp add: varint_put_01)
qed

end
