(* ===== verification/BlipConnection.thy ===== *)
theory BlipConnection
  imports BlipFlow WebSocket
begin

text \<open>
  The BLIP dispatcher and connection (\<^verbatim>\<open>src/io/blip/Dispatcher.cc\<close>, \<^verbatim>\<open>src/io/blip/Connection.cc\<close>): the table of request handlers, what happens to
  a request that was received, and the two tasks that connect a \<^verbatim>\<open>BLIPIO\<close> with a WebSocket.
\<close>

subsection \<open>Dispatcher\<close>

text \<open>
  A handler is code of the application: it gets the message and may use the connection, and it returns or throws. An error handler maps an error
  to one that is sent.
\<close>

type_synonym ('d, 'i) RequestHandler = "MessageIn \<Rightarrow> ('d, 'i) BLIPIO \<Rightarrow> unit outcome \<times> ('d, 'i) BLIPIO"

record ('d, 'i) Dispatcher =
  dp_handlers :: "(str \<times> ('d, 'i) RequestHandler) list"
  dp_errorHandler :: "(err \<Rightarrow> blip_error outcome) option"

definition new_Dispatcher :: "(str \<times> ('d, 'i) RequestHandler) list \<Rightarrow> ('d, 'i) Dispatcher" where
  "new_Dispatcher handlers = \<lparr>dp_handlers = AList.clearjunk handlers, dp_errorHandler = None\<rparr>"

definition setErrorHandler :: "(err \<Rightarrow> blip_error outcome) \<Rightarrow> ('d, 'i) Dispatcher \<Rightarrow> ('d, 'i) Dispatcher" where
  "setErrorHandler h d = d\<lparr>dp_errorHandler := Some h\<rparr>"

definition setRequestHandler :: "str \<Rightarrow> ('d, 'i) RequestHandler \<Rightarrow> ('d, 'i) Dispatcher \<Rightarrow> ('d, 'i) Dispatcher" where
  "setRequestHandler profile handler d = d\<lparr>dp_handlers := AList.update profile handler (dp_handlers d)\<rparr>"

fun addRequestHandlers :: "(str \<times> ('d, 'i) RequestHandler) list \<Rightarrow> ('d, 'i) Dispatcher \<Rightarrow> ('d, 'i) Dispatcher" where
  "addRequestHandlers [] d = d"
| "addRequestHandlers ((profile, fn) # hs) d = addRequestHandlers hs (setRequestHandler profile fn d)"

definition mapError :: "err \<Rightarrow> ('d, 'i) Dispatcher \<Rightarrow> blip_error outcome" where
  "mapError e d = assert_that (err_true e)
     (if fst e = DBlipApp then Ok \<lparr>be_domain = lit ''BLIP'', be_code = snd e, be_message = []\<rparr>
      else case dp_errorHandler d of
             Some h \<Rightarrow> h e
           | None \<Rightarrow> Ok \<lparr>be_domain = lit ''BLIP'', be_code = 500, be_message = lit ''Internal error handling message''\<rparr>)"

text \<open>The handler for a message, with the wild-card.\<close>

definition find_handler :: "str \<Rightarrow> ('d, 'i) Dispatcher \<Rightarrow> ('d, 'i) RequestHandler option" where
  "find_handler profile d =
     (case map_of (dp_handlers d) profile of Some h \<Rightarrow> Some h | None \<Rightarrow> map_of (dp_handlers d) (lit ''*''))"

text \<open>
  A \<^verbatim>\<open>shared_ptr\<close> is \<open>None\<close> if null. Moving from it, as in passing \<^verbatim>\<open>std::move(msg)\<close> for a parameter by value, gives the new
  pointer and leaves the old one null; dereferencing a null one is undefined.
\<close>

definition move_ref :: "'a option \<Rightarrow> 'a option \<times> 'a option" where
  "move_ref p = (p, None)"

definition deref :: "'a option \<Rightarrow> 'a outcome" where
  "deref p = (case p of None \<Rightarrow> Throw UndefinedBehavior | Some x \<Rightarrow> Ok x)"

text \<open>What follows the call of a handler that threw: the message \<^verbatim>\<open>*msg\<close> is logged and answered.\<close>

definition dispatch_failed :: "err \<Rightarrow> MessageIn option \<Rightarrow> ('d, 'i) Dispatcher \<Rightarrow> ('d, 'i) BLIPIO \<Rightarrow> ('d, 'i) BLIPIO outcome" where
  "dispatch_failed e msg d io =
     obind (deref msg) (\<lambda>_.
     obind (mapError e d) (\<lambda>be.
     obind (deref msg) (\<lambda>m. obind (respondWithError be m io) (\<lambda>(_, io1). Ok io1))))"

text \<open>\<^verbatim>\<open>dispatchRequest\<close>: \<open>p\<close> is its parameter \<^verbatim>\<open>msg\<close>, \<open>p1\<close> the same variable after the call of the handler with \<^verbatim>\<open>std::move(msg)\<close>.\<close>

definition dispatchRequest :: "MessageIn \<Rightarrow> ('d, 'i) Dispatcher \<Rightarrow> ('d, 'i) BLIPIO \<Rightarrow> ('d, 'i) BLIPIO outcome" where
  "dispatchRequest msg d io =
     (let p = Some msg in
      obind (deref p) (\<lambda>m.
      case find_handler (property (mi_properties m) (lit ''Profile'')) d of
        None \<Rightarrow> obind (notHandled m io) (\<lambda>(_, io1). Ok io1)
      | Some h \<Rightarrow>
          (let (arg, p1) = move_ref p
           in obind (deref arg) (\<lambda>m1.
              case h m1 io of
                (Inr _, io1) \<Rightarrow> Ok io1
              | (Inl (Raise dm c), io1) \<Rightarrow> dispatch_failed (dm, c) p1 d io1
              | (Inl e, _) \<Rightarrow> Throw e))))"

lemma deref_Some [simp]: "deref (Some x) = Ok x"
  by (simp add: deref_def)

lemma move_ref_simp [simp]: "move_ref p = (p, None)"
  by (simp add: move_ref_def)

subsection \<open>Connection\<close>

text \<open>
  \<open>cn_sent\<close> are the messages given to the socket's \<^verbatim>\<open>send\<close>. Each task is a loop; one run of its body is a step.
\<close>

record ('d, 'i) Connection =
  cn_dispatcher :: "('d, 'i) Dispatcher"
  cn_io :: "('d, 'i) BLIPIO"
  cn_sent :: "Message list"

definition new_Connection :: "('d, 'i) miniz \<Rightarrow> bool \<Rightarrow> 'd \<Rightarrow> 'i \<Rightarrow> (str \<times> ('d, 'i) RequestHandler) list \<Rightarrow> ('d, 'i) Connection" where
  "new_Connection z enableCompression d i handlers =
     \<lparr>cn_dispatcher = new_Dispatcher handlers, cn_io = new_BLIPIO z enableCompression d i, cn_sent = []\<rparr>"

datatype task_step = TaskContinues | TaskWaits | TaskEnds

definition outputTask :: "('d, 'i) miniz \<Rightarrow> coro_handle \<Rightarrow> ('d, 'i) Connection \<Rightarrow> (task_step \<times> ('d, 'i) Connection) outcome" where
  "outputTask z g cn =
     obind (frameGenerator z g (cn_io cn)) (\<lambda>(ev, io).
       let cn1 = cn\<lparr>cn_io := io\<rparr>
       in Ok (case ev of
                FrameYielded frame \<Rightarrow> (TaskContinues, cn1\<lparr>cn_sent := cn_sent cn1 @ [\<lparr>m_type = Binary, m_data = frame\<rparr>]\<rparr>)
              | FramesBlocked \<Rightarrow> (TaskWaits, cn1)
              | FramesDone \<Rightarrow> (TaskEnds, cn1)))"

text \<open>\<open>None\<close> is the end of the socket's messages.\<close>

definition inputTask :: "('d, 'i) miniz \<Rightarrow> Message option \<Rightarrow> ('d, 'i) Connection \<Rightarrow> (task_step \<times> ('d, 'i) Connection) outcome" where
  "inputTask z frame cn =
     (case frame of
        Some f \<Rightarrow>
          if m_type f = Close then obind (closeReceive (cn_io cn)) (\<lambda>io. Ok (TaskEnds, cn\<lparr>cn_io := io\<rparr>))
          else obind (receive z (m_data f) (cn_io cn)) (\<lambda>(msg, io).
                 case msg of
                   None \<Rightarrow> Ok (TaskContinues, cn\<lparr>cn_io := io\<rparr>)
                 | Some m \<Rightarrow> obind (dispatchRequest m (cn_dispatcher cn) io) (\<lambda>io1. Ok (TaskContinues, cn\<lparr>cn_io := io1\<rparr>)))
      | None \<Rightarrow> obind (closeReceive (cn_io cn)) (\<lambda>io. Ok (TaskEnds, cn\<lparr>cn_io := io\<rparr>)))"

definition cn_sendRequest :: "MessageBuilder \<Rightarrow> ('d, 'i) Connection \<Rightarrow> (nat \<times> MessageBuilder \<times> ('d, 'i) Connection) outcome" where
  "cn_sendRequest mb cn = obind (sendRequest mb (cn_io cn)) (\<lambda>(f, mb1, io). Ok (f, mb1, cn\<lparr>cn_io := io\<rparr>))"

text \<open>
  The part of \<^verbatim>\<open>close\<close> before it waits for the output task to end, and the part between that and waiting for the input task.
\<close>

definition close_begin :: "bool \<Rightarrow> ('d, 'i) Connection \<Rightarrow> ('d, 'i) Connection outcome" where
  "close_begin immediate cn =
     (if immediate then obind (io_stop (cn_io cn)) (\<lambda>io. Ok (cn\<lparr>cn_io := io\<rparr>)) else Ok (cn\<lparr>cn_io := closeSend (cn_io cn)\<rparr>))"

definition close_send :: "u16 \<Rightarrow> bytes \<Rightarrow> ('d, 'i) Connection \<Rightarrow> ('d, 'i) Connection outcome" where
  "close_send code message cn = obind (new_close_Message code message) (\<lambda>m. Ok (cn\<lparr>cn_sent := cn_sent cn @ [m]\<rparr>))"

subsection \<open>A call and its answer\<close>

text \<open>A peer that has nothing to send and nothing pending, and whose generator of frames can take the next message.\<close>

definition gen_ready :: "('d, 'i) BLIPIO \<Rightarrow> bool" where
  "gen_ready io \<longleftrightarrow> io_generator io \<in> {GYielded, GAwaiting} \<or> io_generator io = GStart \<and> \<not> aq_generating (io_outbox io)"

definition idle :: "('d, 'i) BLIPIO \<Rightarrow> bool" where
  "idle io \<longleftrightarrow> all_msgs io = [] \<and> queue_open (io_outbox io) \<and> queue_open (io_wayOutBox io) \<and> gen_ready io \<and> io_sendOpen io \<and> io_receiveOpen io
     \<and> io_pendingRequests io = [] \<and> io_pendingResponses io = [] \<and> out_codec_ok (io_outputCodec io)
     \<and> (\<forall>f \<in> fst ` set (io_resolved io). f < io_nextId io)"

definition rpc_sync :: "('d, 'i) BLIPIO \<Rightarrow> ('d, 'i) BLIPIO \<Rightarrow> bool" where
  "rpc_sync C S \<longleftrightarrow> idle C \<and> idle S \<and> cd_checksum (io_outputCodec C) = cd_checksum (io_inputCodec S)
     \<and> cd_checksum (io_outputCodec S) = cd_checksum (io_inputCodec C) \<and> io_lastMessageNo C = io_numRequestsReceived S"

text \<open>What the other operations leave alone while one message is being sent or received.\<close>

definition one_message :: "MessageOut \<Rightarrow> ('d, 'i) BLIPIO \<Rightarrow> ('d, 'i) BLIPIO \<Rightarrow> bool" where
  "one_message m io io' \<longleftrightarrow> aq_queue (io_outbox io') = [m] \<and> aq_queue (io_wayOutBox io') = [] \<and> io_icebox io' = [] \<and> queue_open (io_outbox io')
     \<and> queue_open (io_wayOutBox io') \<and> gen_ready io' \<and> io_sendOpen io' \<and> io_receiveOpen io' \<and> io_pendingRequests io' = [] \<and> io_pendingResponses io' = []
     \<and> io_outputCodec io' = io_outputCodec io \<and> io_inputCodec io' = io_inputCodec io \<and> io_resolved io' = io_resolved io
     \<and> io_lastMessageNo io' = io_lastMessageNo io \<and> io_numRequestsReceived io' = io_numRequestsReceived io \<and> io_nextId io \<le> io_nextId io'"

lemma queueMessage_idle:
  assumes "idle io"
  shows "\<exists>b io'. queueMessage m (io\<lparr>io_nextId := k\<rparr>) = Ok (b, io') \<and> io_nextId io' = k \<and> (io_nextId io \<le> k \<longrightarrow> one_message m io io')"
  using assms
  by (auto simp: idle_def all_msgs_def queueMessage_def requeue_def requeue_position_def aq_find_if_def aq_pushBefore_def super_pushBefore_def
      notify_first_item_def queue_open_def aq_full_def one_message_def gen_ready_def assert_that_def Let_def)

lemma io_send_idle:
  assumes "idle io"
  shows "\<exists>b io'. io_send m (io\<lparr>io_nextId := k\<rparr>) = Ok (b, io') \<and> io_nextId io' = k \<and> (io_nextId io \<le> k \<longrightarrow> one_message m io io')"
  using queueMessage_idle [OF assms, of m k] assms by (auto simp: io_send_def idle_def all_msgs_def kOutboxCapacity_def)

definition request_out :: "nat \<Rightarrow> byte \<Rightarrow> u64 \<Rightarrow> byte list \<Rightarrow> nat option \<Rightarrow> MessageOut" where
  "request_out i fl n p f = \<lparr>mo_id = i, mo_flags = fl, mo_number = n, mo_payload = p, mo_unsentPayload = p, mo_uncompressedBytesSent = 0,
     mo_bytesSent = 0, mo_unackedBytes = 0, mo_onResponse = f\<rparr>"

lemma new_MessageOut_built_Ok:
  assumes "bld_finish mb = Ok (p, mb')" "length p \<le> 4096"
  shows "new_MessageOut_built i mb n = Ok (request_out i (bld_flags mb') n p None, mb')"
  using assms by (simp add: new_MessageOut_built_def new_MessageOut_def request_out_def)

lemma sendRequest_idle:
  assumes io: "idle io" and b: "bld_finish mb = Ok (p, mb')" "length p \<le> 4096" "msg_type (bld_flags mb') = kRequestType"
  shows "\<exists>io'. sendRequest mb io = Ok (io_nextId io + 1, mb', io') \<and> io_nextId io' = io_nextId io + 2
    \<and> one_message (request_out (io_nextId io) (bld_flags mb') 0 p (Some (io_nextId io + 1))) io io'"
proof -
  let ?m = "request_out (io_nextId io) (bld_flags mb') 0 p None"
  from io_send_idle [OF io, of ?m "io_nextId io + 2"] obtain c io1 where s: "io_send ?m (io\<lparr>io_nextId := io_nextId io + 2\<rparr>) = Ok (c, io1)"
    "io_nextId io1 = io_nextId io + 2" "one_message ?m io io1" by auto
  then show ?thesis
    using b by (simp add: sendRequest_def new_MessageOut_built_Ok one_message_def set_onResponse_def request_out_def gen_ready_def Let_def)
qed

lemma gen_run_one:
  assumes "one_message m io0 io"
  shows "\<exists>q. gen_run g (io_generator io) (io_outbox io) = Ok (GenItem m, GYielded, q) \<and> aq_queue q = [] \<and> queue_open q"
  using assms
  by (auto simp: one_message_def gen_ready_def gen_loop_def gen_pop_def aq_pop_def super_pop_def aq_full_def queue_open_def Let_def)

text \<open>The frame that sends a message of at most 4096 bytes, and the state after it: the response is awaited, or there is none.\<close>

lemma frame_one:
  fixes io :: "('d, 'i) BLIPIO"
  assumes o: "one_message m io0 io" and c: "crc_ok z" "out_codec_ok (io_outputCodec io0)"
    and m: "\<not> isAck (mo_flags m)" "\<not> hasFlag (mo_flags m) kCompressed" "\<not> hasFlag (mo_flags m) kMoreComing" "length (mo_unsentPayload m) \<le> 4096"
    and r: "createResponse m \<noteq> None \<or> mo_onResponse m = None"
  defines "codec \<equiv> addToChecksum z (mo_unsentPayload m) (io_outputCodec io0)"
    and "N \<equiv> (if mo_number m = 0 then io_lastMessageNo io0 + 1 else mo_number m)"
  shows "\<exists>io' sz. frameGenerator z g io =
      Ok (FrameYielded (varint_put N @ mo_flags m # mo_unsentPayload m @ be_bytes 4 (cd_checksum codec)), io')
    \<and> io_pendingResponses io' = (if createResponse m = None then [] else [(N, new_MessageIn kResponseType N sz (mo_onResponse m))])
    \<and> all_msgs io' = [] \<and> queue_open (io_outbox io') \<and> queue_open (io_wayOutBox io') \<and> io_generator io' = GYielded
    \<and> io_sendOpen io' \<and> io_receiveOpen io' \<and> io_pendingRequests io' = [] \<and> io_outputCodec io' = codec \<and> io_inputCodec io' = io_inputCodec io0
    \<and> io_resolved io' = io_resolved io0 \<and> io_lastMessageNo io' = (if mo_number m = 0 then N else io_lastMessageNo io0)
    \<and> io_numRequestsReceived io' = io_numRequestsReceived io0 \<and> io_nextId io' = io_nextId io"
proof -
  from gen_run_one [OF o] obtain q where g: "gen_run g (io_generator io) (io_outbox io) = Ok (GenItem m, GYielded, q)" "aq_queue q = []" "queue_open q" by blast
  define A where "A = io\<lparr>io_generator := GYielded, io_outbox := q\<rparr>"
  have A: "out_codec_ok (io_outputCodec A)" "io_outputCodec A = io_outputCodec io0" "io_lastMessageNo A = io_lastMessageNo io0"
    using o c(2) by (simp_all add: A_def one_message_def)
  define L where "L = (if mo_number m = 0 then io_lastMessageNo io0 + 1 else io_lastMessageNo io0)"
  from createNextFrame_last [OF m(1-3) c(1) A(1) m(4), unfolded A(2,3), folded codec_def N_def L_def] obtain m1 where
    f: "createNextFrame z m A = obind (message_sent m1 (A\<lparr>io_lastMessageNo := L, io_outputCodec := codec\<rparr>))
      (\<lambda>io1. Ok (varint_put N @ mo_flags m # mo_unsentPayload m @ be_bytes 4 (cd_checksum codec), io1))"
    and m1: "mo_flags m1 = mo_flags m" "mo_onResponse m1 = mo_onResponse m" "mo_number m1 = N" by blast
  define A2 where "A2 = A\<lparr>io_lastMessageNo := L, io_outputCodec := codec\<rparr>"
  define A3 where "A3 = (if createResponse m = None then A2
    else A2\<lparr>io_pendingResponses := [(N, new_MessageIn kResponseType N (ucast (mo_uncompressedBytesSent m1)) (mo_onResponse m))]\<rparr>)"
  have same: "x\<lparr>io_wayOutBox := io_wayOutBox x\<rparr> = x" for x :: "('d, 'i) BLIPIO" by (cases x) simp
  have "mi_number (new_MessageIn fl k n f) = k" for fl k n f by (simp add: new_MessageIn_def)
  then have ms: "message_sent m1 A2 = Ok A3"
    using o r m1 by (auto simp: message_sent_def aq_maybePop_def A2_def A3_def A_def one_message_def createResponse_def noResponse_def split: if_splits)
  define w where "w = io_totalBytesWritten A3 + word_of_nat (length (varint_put N @ mo_flags m # mo_unsentPayload m @ be_bytes 4 (cd_checksum codec)))"
  have "frameGenerator z g io = Ok (FrameYielded (varint_put N @ mo_flags m # mo_unsentPayload m @ be_bytes 4 (cd_checksum codec)), A3\<lparr>io_totalBytesWritten := w\<rparr>)"
    using o g(1) f ms unfolding w_def
    by (simp add: frameGenerator_def one_message_def A_def A2_def Let_def del: gen_run.simps)
  then show ?thesis using o g(2,3)
    by (intro exI [of _ "A3\<lparr>io_totalBytesWritten := w\<rparr>"] exI [of _ "ucast (mo_uncompressedBytesSent m1)"])
      (simp add: A3_def A2_def A_def L_def N_def one_message_def all_msgs_def)
qed

definition parts :: "byte list \<Rightarrow> byte list \<Rightarrow> byte list \<Rightarrow> bool" where
  "parts p props body \<longleftrightarrow> p = varint_put (word_of_nat (length props)) @ props @ body \<and> length props \<le> kMaxPropertiesSize \<and> props_ok props"

lemma receivedFrame_whole:
  fixes io :: "('d, 'i) BLIPIO"
  assumes p: "parts p props body" "length p \<le> 4096" and m: "m = new_MessageIn fl0 n sz f" "fl AND kTypeMask \<noteq> kErrorType" "\<not> hasFlag fl kCompressed" "\<not> hasFlag fl kMoreComing"
    and z: "crc_ok z" "boxes_ok io"
  shows "\<exists>m'. receivedFrame z (p @ be_bytes 4 (cd_checksum (addToChecksum z p (io_inputCodec io)))) fl m io =
      finish_message kBeginning m' (io\<lparr>io_inputCodec := addToChecksum z p (io_inputCodec io)\<rparr>)
    \<and> mi_properties m' = props \<and> mi_body m' = body \<and> mi_flags m' = message_flags fl0 \<and> mi_onResponse m' = f \<and> mi_number m' = n \<and> \<not> mi_responded m'"
proof -
  have q: "p = varint_put (word_of_nat (length props)) @ props @ body" "length props \<le> kMaxPropertiesSize" "props_ok props"
    using p(1) by (simp_all add: parts_def)
  have c: "continues m (length props) p (props @ body)" using q(1) m(1) by (simp add: continues_def mi_fresh_def new_MessageIn_def)
  have e: "\<not> (isResponse (mi_flags m) \<and> fl AND kTypeMask = kErrorType)" using m(2) by simp
  have nul: "(props @ body) ! (length props - 1) = 0" if "length props > 0" using q(3) that by (auto simp: props_ok_def last_conv_nth nth_append)
  have small: "unat (mi_unackedBytes m + word_of_nat (length p + 4)) < kIncomingAckThreshold"
    using p(2) m(1) unat_add_small [of "0 :: u32" "length p + 4"] by (simp add: new_MessageIn_def kIncomingAckThreshold_def)
  from receivedFrame_reads [OF c e q(2) z m(3) nul] m(4) small obtain m' where
    r: "receivedFrame z (p @ be_bytes 4 (cd_checksum (addToChecksum z p (io_inputCodec io)))) fl m io =
      finish_message kBeginning m' (io\<lparr>io_inputCodec := addToChecksum z p (io_inputCodec io)\<rparr>)"
    "mi_received m' (length props) (props @ body)" "mi_flags m' = mi_flags m" "mi_number m' = mi_number m" "mi_onResponse m' = mi_onResponse m"
    "mi_responded m' = mi_responded m" by auto
  then show ?thesis using m(1) by (auto simp: new_MessageIn_def mi_received_def)
qed

lemma receive_request_whole:
  assumes S: "idle S" "io_numRequestsReceived S + 1 = n" and f: "req_flags f" and p: "parts p props body" "length p \<le> 4096" and z: "crc_ok z"
    and sync: "cd_checksum c = cd_checksum (io_inputCodec S)"
  shows "\<exists>m S'. receive z (varint_put n @ f # p @ be_bytes 4 (cd_checksum (addToChecksum z p c))) S = Ok (Some m, S') \<and> mi_properties m = props \<and> mi_body m = body
    \<and> mi_number m = n \<and> mi_complete m \<and> \<not> mi_responded m \<and> mi_flags m = f \<and> idle S' \<and> io_inputCodec S' = addToChecksum z p (io_inputCodec S)
    \<and> io_outputCodec S' = io_outputCodec S \<and> io_numRequestsReceived S' = n \<and> io_lastMessageNo S' = io_lastMessageNo S"
proof -
  note fl = req_flags_simps [OF f disjI1 [OF refl]]
  define fr where "fr = varint_put n @ f # p @ be_bytes 4 (cd_checksum (addToChecksum z p c))"
  define S0 where "S0 = S\<lparr>io_totalBytesRead := io_totalBytesRead S + word_of_nat (length fr), io_numRequestsReceived := n\<rparr>"
  have b: "boxes_ok S0" using S(1) by (simp add: S0_def idle_def boxes_ok_def all_msgs_def)
  have k: "cd_checksum (addToChecksum z p c) = cd_checksum (addToChecksum z p (io_inputCodec S0))" using sync by (simp add: S0_def)
  have "f AND kTypeMask \<noteq> kErrorType" using fl(1) by (simp add: blip_consts)
  from receivedFrame_whole [OF p refl this fl(2,6) z b, of f n 0 None] obtain m' where
    r: "receivedFrame z (p @ be_bytes 4 (cd_checksum (addToChecksum z p (io_inputCodec S0)))) f (new_MessageIn f n 0 None) S0 =
      finish_message kBeginning m' (S0\<lparr>io_inputCodec := addToChecksum z p (io_inputCodec S0)\<rparr>)"
    "mi_properties m' = props" "mi_body m' = body" "mi_onResponse m' = None" "mi_number m' = n" "\<not> mi_responded m'" "mi_flags m' = message_flags f" by auto
  have pr: "pendingRequest n f (S\<lparr>io_totalBytesRead := io_totalBytesRead S + word_of_nat (length fr)\<rparr>) = Ok (new_MessageIn f n 0 None, S0)"
    using S fl(6) by (simp add: pendingRequest_def idle_def S0_def Let_def)
  have "receive z fr S = Ok (Some (m'\<lparr>mi_complete := True\<rparr>), S0\<lparr>io_inputCodec := addToChecksum z p (io_inputCodec S0)\<rparr>)"
    using S(1) fl(1) pr r(1,4) sync ucast_byte(1) [OF fl(4)] ucast_byte(2) [of f] varint_read_byte [OF fl(4)]
    by (simp add: receive_def fr_def k finish_message_def update_request_def idle_def S0_def Let_def)
  then show ?thesis
    using S r fl(3) unfolding fr_def [symmetric] by (auto simp: S0_def idle_def all_msgs_def gen_ready_def)
qed

lemma receive_response_whole:
  assumes C: "idle (C\<lparr>io_pendingResponses := []\<rparr>)" "io_pendingResponses C = [(n, new_MessageIn kResponseType n sz (Some f))]" "f \<notin> fst ` set (io_resolved C)" "f < io_nextId C"
    and fl: "msg_type fl = kResponseType" "fl < 0x80" "\<not> hasFlag fl kCompressed" "\<not> hasFlag fl kMoreComing"
    and p: "parts p props body" "length p \<le> 4096" and z: "crc_ok z" and sync: "cd_checksum c = cd_checksum (io_inputCodec C)"
  shows "\<exists>r C'. receive z (varint_put n @ fl # p @ be_bytes 4 (cd_checksum (addToChecksum z p c))) C = Ok (None, C')
    \<and> io_resolved C' = io_resolved C @ [(f, Some r)] \<and> mi_properties r = props \<and> mi_body r = body \<and> mi_flags r = kResponseType \<and> mi_complete r \<and> idle C'
    \<and> io_inputCodec C' = addToChecksum z p (io_inputCodec C) \<and> io_outputCodec C' = io_outputCodec C \<and> io_lastMessageNo C' = io_lastMessageNo C"
proof -
  define fr where "fr = varint_put n @ fl # p @ be_bytes 4 (cd_checksum (addToChecksum z p c))"
  define C0 where "C0 = C\<lparr>io_totalBytesRead := io_totalBytesRead C + word_of_nat (length fr), io_pendingResponses := []\<rparr>"
  have b: "boxes_ok C0" using C(1) by (simp add: C0_def idle_def boxes_ok_def all_msgs_def)
  have k: "cd_checksum (addToChecksum z p c) = cd_checksum (addToChecksum z p (io_inputCodec C0))" using sync by (simp add: C0_def)
  have t: "fl AND kTypeMask = 1" using fl(1) by (simp add: msg_type_def kResponseType_def)
  then have "fl AND kTypeMask \<noteq> kErrorType" by (simp add: kErrorType_def)
  from receivedFrame_whole [OF p refl this fl(3,4) z b, of kResponseType n sz "Some f"] obtain m' where
    r: "receivedFrame z (p @ be_bytes 4 (cd_checksum (addToChecksum z p (io_inputCodec C0)))) fl (new_MessageIn kResponseType n sz (Some f)) C0 =
      finish_message kBeginning m' (C0\<lparr>io_inputCodec := addToChecksum z p (io_inputCodec C0)\<rparr>)"
    "mi_properties m' = props" "mi_body m' = body" "mi_onResponse m' = Some f" "mi_flags m' = message_flags kResponseType" by auto
  have pr: "pendingResponse n fl (C\<lparr>io_totalBytesRead := io_totalBytesRead C + word_of_nat (length fr)\<rparr>) = Ok (new_MessageIn kResponseType n sz (Some f), C0)"
    using C(2) fl(4) by (simp add: pendingResponse_def C0_def)
  define m2 where "m2 = m'\<lparr>mi_complete := True\<rparr>"
  define C2 where "C2 = C0\<lparr>io_inputCodec := addToChecksum z p (io_inputCodec C0), io_resolved := io_resolved C @ [(f, Some m2)]\<rparr>"
  have fm: "finish_message kBeginning m' (C0\<lparr>io_inputCodec := addToChecksum z p (io_inputCodec C0)\<rparr>) = Ok (kEnd, m2, C2)"
    using C(3) r(4) by (simp add: finish_message_def resolve_def C2_def m2_def C0_def Let_def)
  have "receive z fr C = obind (receivedFrame z (p @ be_bytes 4 (cd_checksum (addToChecksum z p (io_inputCodec C0)))) fl (new_MessageIn kResponseType n sz (Some f)) C0)
      (\<lambda>(rs, m1, io2). Ok (None, update_response n m1 io2))"
    using C(1) t pr k ucast_byte(1) [OF fl(2)] ucast_byte(2) [of fl] varint_read_byte [OF fl(2)]
    by (simp add: receive_def fr_def idle_def kRequestType_def kResponseType_def Let_def)
  then have rc: "receive z fr C = Ok (None, C2)" unfolding r(1) fm by (simp add: update_response_def C2_def C0_def)
  have "idle C2" using C(1,4) by (auto simp: idle_def C2_def C0_def all_msgs_def gen_ready_def)
  moreover have "mi_flags m2 = kResponseType" using r(5) by (simp add: m2_def message_flags_def blip_consts)
  ultimately show ?thesis using rc unfolding fr_def [symmetric] using r(2,3) by (auto simp: C2_def C0_def m2_def)
qed

text \<open>A handler that answers with a message.\<close>

definition replies_with :: "MessageBuilder \<Rightarrow> ('d, 'i) RequestHandler" where
  "replies_with mb m io = (case respond mb m io of Inr (_, io1) \<Rightarrow> (Ok (), io1) | Inl e \<Rightarrow> (Throw e, io))"

lemma dispatch_reply:
  assumes S: "idle S" and m: "\<not> noReply (mi_flags m)" "\<not> mi_responded m"
    and h: "find_handler (property (mi_properties m) (lit ''Profile'')) d = Some (replies_with mb)"
    and mb: "bld_type mb = kResponseType" "bld_finish mb = Ok (p, mb')" "length p \<le> 4096"
  shows "\<exists>S'. dispatchRequest m d S = Ok S' \<and> one_message (request_out (io_nextId S) (bld_flags mb') (mi_number m) p None) S S'"
proof -
  let ?o = "request_out (io_nextId S) (bld_flags mb') (mi_number m) p None"
  from io_send_idle [OF S, of ?o "io_nextId S + 1"] obtain b S1 where s: "io_send ?o (S\<lparr>io_nextId := io_nextId S + 1\<rparr>) = Ok (b, S1)" "one_message ?o S S1"
    by auto
  then have "respond mb m S = Ok (m\<lparr>mi_responded := True\<rparr>, S1)"
    using m mb by (simp add: respond_def new_MessageOut_built_Ok kRequestType_def kResponseType_def Let_def)
  then show ?thesis using h s(2) by (simp add: dispatchRequest_def replies_with_def)
qed

lemma reply_flags:
  assumes "bld_type mb = kResponseType" "\<not> bld_compressed mb"
  shows "msg_type (bld_flags mb) = kResponseType" "bld_flags mb < 0x80" "\<not> hasFlag (bld_flags mb) kCompressed" "\<not> hasFlag (bld_flags mb) kMoreComing"
    "\<not> isAck (bld_flags mb)"
  using assms by (auto simp: bld_flags_def msg_type_def hasFlag_def isAck_def blip_consts)

text \<open>The state of the two peers after the request has been received and answered, before the answer is sent.\<close>

lemma rpc_call:
  fixes C S :: "('d, 'i) BLIPIO"
  assumes z: "crc_ok z" and sync: "rpc_sync C S" "io_lastMessageNo C \<noteq> - 1"
    and q: "bld_ok mq" "\<not> bld_compressed mq" "msg_type (bld_flags mq) = kRequestType" "\<not> noReply (bld_flags mq)" "bld_finish mq = Ok (p, mq')" "length p \<le> 4096"
      "parts p props body"
    and h: "find_handler (property props (lit ''Profile'')) d = Some (replies_with mr)"
    and r: "bld_type mr = kResponseType" "bld_finish mr = Ok (pr, mr')" "length pr \<le> 4096"
  defines "N \<equiv> io_lastMessageNo C + 1"
  shows "\<exists>f sz C1 fr C2 m S1 S2. sendRequest mq C = Ok (f, mq', C1) \<and> frameGenerator z g C1 = Ok (FrameYielded fr, C2)
    \<and> receive z fr S = Ok (Some m, S1) \<and> dispatchRequest m d S1 = Ok S2 \<and> idle S1 \<and> one_message (request_out (io_nextId S1) (bld_flags mr') N pr None) S1 S2
    \<and> idle (C2\<lparr>io_pendingResponses := []\<rparr>) \<and> io_pendingResponses C2 = [(N, new_MessageIn kResponseType N sz (Some f))] \<and> io_resolved C2 = io_resolved C
    \<and> f \<notin> fst ` set (io_resolved C) \<and> f < io_nextId C2 \<and> cd_checksum (io_outputCodec C2) = cd_checksum (io_inputCodec S1)
    \<and> cd_checksum (io_outputCodec S1) = cd_checksum (io_inputCodec C2) \<and> io_lastMessageNo C2 = N \<and> io_numRequestsReceived S1 = N"
proof -
  have C: "idle C" "idle S" "out_codec_ok (io_outputCodec C)" using sync by (auto simp: rpc_sync_def idle_def)
  have fq: "bld_flags mq' = bld_flags mq" using bld_finish_payload [OF q(5,1)] by simp
  have rf: "req_flags (bld_flags mq)" using bld_req_flags [OF q(2,3)] .
  note fl = req_flags_simps [OF rf disjI1 [OF refl]]
  let ?m = "request_out (io_nextId C) (bld_flags mq) 0 p (Some (io_nextId C + 1))"
  from sendRequest_idle [OF C(1) q(5,6)] q(3) obtain C1 where c1: "sendRequest mq C = Ok (io_nextId C + 1, mq', C1)" "io_nextId C1 = io_nextId C + 2"
    "one_message ?m C C1" unfolding fq by blast
  have m: "mo_flags ?m = bld_flags mq" "mo_unsentPayload ?m = p" "mo_number ?m = 0" "createResponse ?m \<noteq> None" "mo_onResponse ?m = Some (io_nextId C + 1)"
    using q(3,4) by (simp_all add: request_out_def createResponse_def)
  from frame_one [OF c1(3) z C(3), unfolded m(1-3), OF fl(7,2,6) q(6) disjI1 [OF m(4)], of g] m(4,5) obtain C2 sz where
    c2: "frameGenerator z g C1 = Ok (FrameYielded (varint_put N @ bld_flags mq # p @ be_bytes 4 (cd_checksum (addToChecksum z p (io_outputCodec C)))), C2)"
    "io_pendingResponses C2 = [(N, new_MessageIn kResponseType N sz (Some (io_nextId C + 1)))]"
    and c2i: "all_msgs C2 = []" "queue_open (io_outbox C2)" "queue_open (io_wayOutBox C2)" "io_generator C2 = GYielded" "io_sendOpen C2" "io_receiveOpen C2"
      "io_pendingRequests C2 = []" "io_outputCodec C2 = addToChecksum z p (io_outputCodec C)" "io_inputCodec C2 = io_inputCodec C"
      "io_resolved C2 = io_resolved C" "io_lastMessageNo C2 = N" "io_nextId C2 = io_nextId C + 2"
    using c1(2) by (auto simp: N_def)
  have N: "io_numRequestsReceived S + 1 = N" and ck: "cd_checksum (io_outputCodec C) = cd_checksum (io_inputCodec S)" using sync(1) by (simp_all add: rpc_sync_def N_def)
  from receive_request_whole [OF C(2) N rf q(7,6) z ck] obtain m S1 where
    s1: "receive z (varint_put N @ bld_flags mq # p @ be_bytes 4 (cd_checksum (addToChecksum z p (io_outputCodec C)))) S = Ok (Some m, S1)"
    "mi_properties m = props" "mi_number m = N" "\<not> mi_responded m" "mi_flags m = bld_flags mq" "idle S1" "io_inputCodec S1 = addToChecksum z p (io_inputCodec S)"
    "io_outputCodec S1 = io_outputCodec S" "io_numRequestsReceived S1 = N" by blast
  from dispatch_reply [OF s1(6) _ s1(4) _ r] h q(4) s1(2,3,5) obtain S2 where
    "dispatchRequest m d S1 = Ok S2" "one_message (request_out (io_nextId S1) (bld_flags mr') N pr None) S1 S2" by auto
  moreover have "io_nextId C + 1 \<notin> fst ` set (io_resolved C)" using C(1) by (force simp: idle_def)
  moreover have "idle (C2\<lparr>io_pendingResponses := []\<rparr>)" using C(1) c2i by (force simp: idle_def gen_ready_def all_msgs_def)
  ultimately show ?thesis using c1(1) c2 c2i s1 sync(1) by (fastforce simp: rpc_sync_def)
qed

text \<open>
  C3. A call over a BLIP connection. On two connections that are idle and in step, a request of at most 4096 bytes for which the other side has a
  handler that answers with a message of at most 4096 bytes is sent, received, dispatched and answered without an error, and the future that
  \<^verbatim>\<open>sendRequest\<close> returned is resolved with a response that has the answer's properties and body. Afterwards the connections are idle and in
  step again, so any number of calls can follow one another.
\<close>

theorem rpc_roundtrip:
  fixes C S :: "('d, 'i) Connection"
  assumes z: "crc_ok z" and sync: "rpc_sync (cn_io C) (cn_io S)" "io_lastMessageNo (cn_io C) \<noteq> - 1"
    and q: "bld_ok mq" "\<not> bld_compressed mq" "msg_type (bld_flags mq) = kRequestType" "\<not> noReply (bld_flags mq)" "bld_finish mq = Ok (p, mq')" "length p \<le> 4096"
      "parts p props body"
    and h: "find_handler (property props (lit ''Profile'')) (cn_dispatcher S) = Some (replies_with mr)"
    and r: "bld_ok mr" "\<not> bld_compressed mr" "bld_type mr = kResponseType" "bld_finish mr = Ok (pr, mr')" "length pr \<le> 4096" "parts pr rprops rbody"
  shows "\<exists>f fr1 fr2 C1 C2 C3 S1 S2 a. cn_sendRequest mq C = Ok (f, mq', C1) \<and> outputTask z g C1 = Ok (TaskContinues, C2) \<and> cn_sent C2 = cn_sent C @ [fr1]
    \<and> inputTask z (Some fr1) S = Ok (TaskContinues, S1) \<and> outputTask z g' S1 = Ok (TaskContinues, S2) \<and> cn_sent S2 = cn_sent S @ [fr2]
    \<and> inputTask z (Some fr2) C2 = Ok (TaskContinues, C3) \<and> io_resolved (cn_io C3) = io_resolved (cn_io C) @ [(f, Some a)]
    \<and> mi_properties a = rprops \<and> mi_body a = rbody \<and> mi_complete a \<and> rpc_sync (cn_io C3) (cn_io S2)"
proof -
  define N where "N = io_lastMessageNo (cn_io C) + 1"
  note fin = bld_finish_payload [OF r(4,1)]
  from rpc_call [OF z sync q h r(3-5), where g = g, folded N_def] obtain f sz C1 fr C2 m S1 S2 where
    c: "sendRequest mq (cn_io C) = Ok (f, mq', C1)" "frameGenerator z g C1 = Ok (FrameYielded fr, C2)" "receive z fr (cn_io S) = Ok (Some m, S1)"
      "dispatchRequest m (cn_dispatcher S) S1 = Ok S2" "idle S1" "one_message (request_out (io_nextId S1) (bld_flags mr') N pr None) S1 S2"
    and c2: "idle (C2\<lparr>io_pendingResponses := []\<rparr>)" "io_pendingResponses C2 = [(N, new_MessageIn kResponseType N sz (Some f))]" "io_resolved C2 = io_resolved (cn_io C)"
      "f \<notin> fst ` set (io_resolved (cn_io C))" "f < io_nextId C2" "cd_checksum (io_outputCodec C2) = cd_checksum (io_inputCodec S1)"
      "cd_checksum (io_outputCodec S1) = cd_checksum (io_inputCodec C2)" "io_lastMessageNo C2 = N" "io_numRequestsReceived S1 = N" by blast
  have N0: "N \<noteq> 0" using sync(2) by (metis N_def add_eq_0_iff2)
  let ?m = "request_out (io_nextId S1) (bld_flags mr) N pr None"
  have m: "mo_flags ?m = bld_flags mr" "mo_unsentPayload ?m = pr" "mo_number ?m = N" "createResponse ?m = None" "mo_onResponse ?m = None"
    using reply_flags(1) [OF r(3,2)] by (simp_all add: request_out_def createResponse_def kRequestType_def kResponseType_def)
  have oc: "out_codec_ok (io_outputCodec S1)" using c(5) by (simp add: idle_def)
  from frame_one [OF c(6) [unfolded fin [THEN conjunct2, THEN conjunct2, THEN conjunct1]] z oc, unfolded m(1-3), OF reply_flags(5,3,4) [OF r(3,2)] r(5) disjI2 [OF m(5)], of g'] N0 m(4)
  obtain S3 where s3: "frameGenerator z g' S2 = Ok (FrameYielded (varint_put N @ bld_flags mr # pr @ be_bytes 4 (cd_checksum (addToChecksum z pr (io_outputCodec S1)))), S3)"
    and s3i: "io_pendingResponses S3 = []" "all_msgs S3 = []" "queue_open (io_outbox S3)" "queue_open (io_wayOutBox S3)" "io_generator S3 = GYielded" "io_sendOpen S3"
      "io_receiveOpen S3" "io_pendingRequests S3 = []" "io_outputCodec S3 = addToChecksum z pr (io_outputCodec S1)" "io_inputCodec S3 = io_inputCodec S1"
      "io_resolved S3 = io_resolved S1" "io_numRequestsReceived S3 = N" "io_nextId S3 = io_nextId S2" using c2(9) by auto
  from receive_response_whole [OF c2(1,2) _ c2(5) reply_flags(1-4) [OF r(3,2)] r(6,5) z c2(7)] c2(3,4) obtain a C3 where
    c3: "receive z (varint_put N @ bld_flags mr # pr @ be_bytes 4 (cd_checksum (addToChecksum z pr (io_outputCodec S1)))) C2 = Ok (None, C3)"
      "io_resolved C3 = io_resolved (cn_io C) @ [(f, Some a)]" "mi_properties a = rprops" "mi_body a = rbody" "mi_complete a" "idle C3"
      "io_inputCodec C3 = addToChecksum z pr (io_inputCodec C2)" "io_outputCodec C3 = io_outputCodec C2" "io_lastMessageNo C3 = N" using c2(8) by auto
  have "idle S3" using c(5,6) s3i oc by (auto simp: idle_def gen_ready_def one_message_def dest!: bspec)
  then have "rpc_sync C3 S3" using c3 s3i c2(6,7) by (simp add: rpc_sync_def)
  then show ?thesis using c s3 c3
    by (auto simp: cn_sendRequest_def outputTask_def inputTask_def Binary_def Close_def Let_def)
qed

lemma rpc_sync_new: "rpc_sync (cn_io (new_Connection z c d i hs)) (cn_io (new_Connection z c' d' i' hs'))"
  by (simp add: rpc_sync_def idle_def new_Connection_def new_BLIPIO_def all_msgs_def queue_open_def new_aqueue_def gen_ready_def out_codec_ok_def
      new_Codec_def new_inflater_def)

theorem rpc_roundtrip_witness:
  "let props = encode_props [(lit ''Profile'', lit ''echo'')]; mq = empty_builder\<lparr>bld_properties := props\<rparr>; mr = empty_builder\<lparr>bld_type := kResponseType\<rparr>;
       C = new_Connection stored_miniz False () () []; S = new_Connection stored_miniz False () () [(lit ''echo'', replies_with mr)]
   in \<exists>f fr1 fr2 mq' C1 C2 C3 S1 S2 a. cn_sendRequest mq C = Ok (f, mq', C1) \<and> outputTask stored_miniz (H 1) C1 = Ok (TaskContinues, C2) \<and> cn_sent C2 = [fr1]
      \<and> inputTask stored_miniz (Some fr1) S = Ok (TaskContinues, S1) \<and> outputTask stored_miniz (H 2) S1 = Ok (TaskContinues, S2) \<and> cn_sent S2 = [fr2]
      \<and> inputTask stored_miniz (Some fr2) C2 = Ok (TaskContinues, C3) \<and> io_resolved (cn_io C3) = [(f, Some a)] \<and> mi_body a = []"
proof -
  define props where "props = encode_props [(lit ''Profile'', lit ''echo'')]"
  let ?mq = "empty_builder\<lparr>bld_properties := props\<rparr>" and ?mr = "empty_builder\<lparr>bld_type := kResponseType\<rparr>"
  let ?C = "new_Connection stored_miniz False () () []" and ?S = "new_Connection stored_miniz False () () [(lit ''echo'', replies_with ?mr)]"
  have l: "length props = 13" "props_ok props" by (simp_all add: props_def encode_props_def props_ok_def)
  have nf: "nul_free [(lit ''Profile'', lit ''echo'')]" by (simp add: ch_def)
  have pr: "property props (lit ''Profile'') = lit ''echo''" unfolding props_def property_encode [OF nf] by simp
  have q: "bld_ok ?mq" "\<not> bld_compressed ?mq" "msg_type (bld_flags ?mq) = kRequestType" "\<not> noReply (bld_flags ?mq)" "parts (varint_put 13 @ props) props []"
    "length (varint_put 13 @ props) \<le> 4096" using l length_varint_put [of 13]
    by (simp_all add: bld_ok_def empty_builder_def bld_flags_def msg_type_def hasFlag_def blip_consts parts_def kMaxPropertiesSize_def kMaxSize_def)
  obtain mq' where f: "bld_finish ?mq = Ok (varint_put 13 @ props, mq')"
    using l by (simp add: bld_finish_def finishProperties_def empty_builder_def kMaxPropertiesSize_def)
  have r: "bld_ok ?mr" "\<not> bld_compressed ?mr" "bld_type ?mr = kResponseType" "parts (varint_put 0) [] []" "length (varint_put 0) \<le> 4096"
    by (simp_all add: bld_ok_def empty_builder_def parts_def props_ok_def varint_put_01)
  obtain mr' where fr: "bld_finish ?mr = Ok (varint_put 0, mr')" by (simp add: bld_finish_def finishProperties_def empty_builder_def)
  have h: "find_handler (property props (lit ''Profile'')) (cn_dispatcher ?S) = Some (replies_with ?mr)"
    unfolding pr by (simp add: find_handler_def new_Connection_def new_Dispatcher_def)
  have n: "io_lastMessageNo (cn_io ?C) \<noteq> - 1" "cn_sent ?C = []" "cn_sent ?S = []" "io_resolved (cn_io ?C) = []" by (simp_all add: new_Connection_def new_BLIPIO_def)
  show ?thesis
    using rpc_roundtrip [OF crc_ok_stored rpc_sync_new n(1) q(1-4) f q(6,5) h r(1-3) fr r(5,4), of "H 1" "H 2"]
    unfolding n(2-4) props_def [symmetric] Let_def append_Nil by blast
qed

subsection \<open>Dispatching\<close>

lemma respondWithError_idle:
  assumes io: "idle io" and m: "\<not> noReply (mi_flags m)" "\<not> mi_responded m" "mi_flags m AND kTypeMask = kRequestType"
    and e: "be_domain e \<noteq> []" "0 \<notin> set (be_domain e)" "length (be_domain e) \<le> 1000" "be_code e \<noteq> 0" "- (2 ^ 31) \<le> be_code e" "be_code e < 2 ^ 31"
      "length (be_message e) \<le> 1000"
  shows "\<exists>io' i fl props. respondWithError e m io = Ok (m\<lparr>mi_responded := True\<rparr>, io')
    \<and> one_message (request_out i fl (mi_number m) (varint_put (word_of_nat (length props)) @ props @ be_message e) None) io io'
    \<and> getError fl props (be_message e) = e \<and> fl AND kTypeMask = kErrorType"
proof -
  from error_payload [OF m(3) e(1-6)] obtain props p mb where
    p: "obind (new_reply_builder (mi_flags m)) (\<lambda>mb0. obind (makeError e mb0) bld_finish) = Ok (p, mb)"
    "p = varint_put (word_of_nat (length props)) @ props @ be_message e" "length p \<le> length (be_domain e) + length (be_message e) + 60"
    "bld_flags mb AND kTypeMask = kErrorType" "getError (bld_flags mb) props (be_message e) = e" by blast
  from p(1) obtain mb0 mb1 where b: "new_reply_builder (mi_flags m) = Ok mb0" "makeError e mb0 = Ok mb1" "bld_finish mb1 = Ok (p, mb)" by (auto simp: obind_eq_Ok)
  have "bld_type mb1 = kErrorType"
    using b(2) by (auto simp: makeError_def assert_that_eq_Ok obind_eq_Ok addProperty_int_def addProperty_def bld_write_def finishProperties_def raise_blip_def Let_def split: if_splits)
  let ?o = "request_out (io_nextId io) (bld_flags mb) (mi_number m) p None"
  have o: "new_MessageOut_built (io_nextId io) mb1 (mi_number m) = Ok (?o, mb)" using b(3) p(3) e(3,7) by (intro new_MessageOut_built_Ok) simp_all
  from io_send_idle [OF io, of ?o "io_nextId io + 1"] obtain c io1 where s: "io_send ?o (io\<lparr>io_nextId := io_nextId io + 1\<rparr>) = Ok (c, io1)" "one_message ?o io io1"
    by auto
  have "respondWithError e m io = Ok (m\<lparr>mi_responded := True\<rparr>, io1)"
    using m b o s(1) \<open>bld_type mb1 = kErrorType\<close> by (simp add: respondWithError_def respond_def kErrorType_def kRequestType_def)
  then show ?thesis using s(2) p(2,4,5) by blast
qed

text \<open>
  C8. A request that no handler accepts, neither one for its profile nor the wild-card, is answered: on an idle connection exactly one message is
  queued, an error response with the number of the request in which the other side finds the error BLIP 404.
\<close>

theorem unhandled_request_answered:
  assumes "idle io" "\<not> noReply (mi_flags m)" "\<not> mi_responded m" "mi_flags m AND kTypeMask = kRequestType"
    "find_handler (property (mi_properties m) (lit ''Profile'')) d = None"
  shows "\<exists>io' out props body. dispatchRequest m d io = Ok io' \<and> all_msgs io' = [out] \<and> mo_number out = mi_number m
    \<and> mo_payload out = varint_put (word_of_nat (length props)) @ props @ body
    \<and> getError (mo_flags out) props body = \<lparr>be_domain = lit ''BLIP'', be_code = 404, be_message = lit ''no handler for message''\<rparr>"
proof -
  let ?e = "\<lparr>be_domain = lit ''BLIP'', be_code = 404, be_message = lit ''no handler for message''\<rparr>"
  have n: "0 \<notin> set (lit ''BLIP'')" by (simp add: ch_def)
  from respondWithError_idle [OF assms(1-4), of ?e] n obtain io' i fl props where
    r: "respondWithError ?e m io = Ok (m\<lparr>mi_responded := True\<rparr>, io')"
    "one_message (request_out i fl (mi_number m) (varint_put (word_of_nat (length props)) @ props @ be_message ?e) None) io io'"
    "getError fl props (be_message ?e) = ?e" by auto
  define out where "out = request_out i fl (mi_number m) (varint_put (word_of_nat (length props)) @ props @ be_message ?e) None"
  have "dispatchRequest m d io = Ok io'" using assms(5) r(1) by (simp add: dispatchRequest_def notHandled_def del: lit_simps)
  moreover have "all_msgs io' = [out]" using r(2) by (simp add: one_message_def all_msgs_def out_def)
  moreover have "mo_number out = mi_number m" "mo_payload out = varint_put (word_of_nat (length props)) @ props @ be_message ?e" "mo_flags out = fl"
    by (simp_all add: out_def request_out_def)
  ultimately show ?thesis using r(3) by blast
qed

theorem unhandled_request_answered_witness:
  "\<exists>io' out. dispatchRequest (new_MessageIn 0 1 0 None) (new_Dispatcher []) (new_BLIPIO stored_miniz False () ()) = Ok io' \<and> all_msgs io' = [out] \<and> mo_number out = 1"
proof -
  have i: "idle (new_BLIPIO stored_miniz False () ())"
    by (simp add: idle_def new_BLIPIO_def all_msgs_def queue_open_def new_aqueue_def gen_ready_def out_codec_ok_def new_Codec_def)
  have m: "\<not> noReply (mi_flags (new_MessageIn 0 1 0 None))" "\<not> mi_responded (new_MessageIn 0 1 0 None)"
    "mi_flags (new_MessageIn 0 1 0 None) AND kTypeMask = kRequestType" "mi_number (new_MessageIn 0 1 0 None) = 1"
    by (simp_all add: new_MessageIn_def message_flags_def hasFlag_def kRequestType_def)
  have "find_handler x (new_Dispatcher []) = None" for x by (simp add: find_handler_def new_Dispatcher_def)
  from unhandled_request_answered [OF i m(1-3) this] show ?thesis unfolding m(4) by blast
qed

text \<open>
  A handler that throws leads to undefined behaviour instead of the documented error response: by then the pointer to the message has been
  moved into the handler's argument.
\<close>

lemma throwing_handler_undefined:
  assumes "find_handler (property (mi_properties m) (lit ''Profile'')) d = Some h" "h m io = (Throw (Raise dm c), io1)"
  shows "dispatchRequest m d io = Throw UndefinedBehavior"
  using assms by (simp add: dispatchRequest_def dispatch_failed_def deref_def)

end
