(* ===== verification/MiniOStream.thy ===== *)
theory MiniOStream
  imports Crouton_Prelude
begin

text \<open>
  Lightweight output streams: \<^verbatim>\<open>include/crouton/util/MiniOStream.hh\<close> and \<^verbatim>\<open>src/support/MiniOStream.cc\<close>. An
  \<^verbatim>\<open>ostream\<close> is its virtual method \<^verbatim>\<open>write\<close>, a function on the state of the stream. The locale \<open>ostream\<close> states
  what every stream promises, and is interpreted on \<^verbatim>\<open>stringstream\<close> and \<^verbatim>\<open>bufstream\<close>. The lemmas show that
  the fixed buffers in which numbers are printed are large enough and that the printed digits read back as
  the number.
\<close>

subsection \<open>Exceptions\<close>

text \<open>
  The exceptions that the streams and the formatter throw, with their messages. \<open>FAssert\<close> is a failed assertion,
  and \<open>FUndefined\<close> a use of the language or its library outside its contract.
\<close>

datatype fmt_exn = format_error string | runtime_error string | FAssert | FUndefined

type_synonym 'a fmt = "fmt_exn + 'a"

definition fbind :: "'a fmt \<Rightarrow> ('a \<Rightarrow> 'b fmt) \<Rightarrow> 'b fmt" where
  "fbind r f = (case r of Inl e \<Rightarrow> Inl e | Inr a \<Rightarrow> f a)"

lemma fbind_simps [simp]: "fbind (Inl e) f = Inl e" "fbind (Inr a) f = f a"
  by (simp_all add: fbind_def)

lemma fbind_eq_Inr: "fbind r f = Inr b \<longleftrightarrow> (\<exists>a. r = Inr a \<and> f a = Inr b)"
  by (cases r) auto

lemma fbind_assoc: "fbind (fbind r f) g = fbind r (\<lambda>a. fbind (f a) g)"
  by (cases r) auto

subsection \<open>Streams\<close>

type_synonym 's ostream_write = "string \<Rightarrow> 's \<Rightarrow> 's fmt"

type_synonym stringstream = string

definition stringstream_write :: "stringstream ostream_write" where
  "stringstream_write src s = Inr (s @ src)"

text \<open>A \<^verbatim>\<open>bufstream\<close> is what was written between \<^verbatim>\<open>_begin\<close> and \<^verbatim>\<open>_next\<close>, and the room up to \<^verbatim>\<open>_end\<close>.\<close>

record bufstream =
  bs_str :: string
  bs_available :: nat

definition new_bufstream :: "nat \<Rightarrow> bufstream" where
  "new_bufstream sz = \<lparr>bs_str = [], bs_available = sz\<rparr>"

definition bufstream_write :: "bufstream ostream_write" where
  "bufstream_write src b =
     (if length src > bs_available b then Inl (runtime_error ''bufferstream overflow'')
      else Inr (b\<lparr>bs_str := bs_str b @ src, bs_available := bs_available b - length src\<rparr>))"

definition bufstream_clear :: "bufstream \<Rightarrow> bufstream" where
  "bufstream_clear b = b\<lparr>bs_str := [], bs_available := bs_available b + length (bs_str b)\<rparr>"

subsection \<open>Numbers\<close>

text \<open>\<^verbatim>\<open>std::to_chars\<close> for integers: lower-case digits in the given base, \<open>None\<close> if they do not fit the buffer.\<close>

definition digit_char :: "nat \<Rightarrow> char" where
  "digit_char d = ''0123456789abcdefghijklmnopqrstuvwxyz'' ! d"

fun digits :: "nat \<Rightarrow> nat \<Rightarrow> string" where
  "digits base n = (if base < 2 \<or> n < base then [digit_char n] else digits base (n div base) @ [digit_char (n mod base)])"

definition int_text :: "nat \<Rightarrow> int \<Rightarrow> string" where
  "int_text base i = (if i < 0 then CHR ''-'' # digits base (nat (- i)) else digits base (nat i))"

definition to_chars :: "nat \<Rightarrow> nat \<Rightarrow> int \<Rightarrow> string option" where
  "to_chars bufsize base i = (if length (int_text base i) \<le> bufsize then Some (int_text base i) else None)"

text \<open>
  \<^verbatim>\<open>writeInt64\<close> and \<^verbatim>\<open>writeUInt64\<close> do not look at the error that \<^verbatim>\<open>to_chars\<close> reports, after which the contents of
  the buffer are unspecified.
\<close>

definition writeInt64 :: "'s ostream_write \<Rightarrow> 64 word \<Rightarrow> nat \<Rightarrow> 's \<Rightarrow> 's fmt" where
  "writeInt64 put i base out =
     (case to_chars 20 base (sint i) of None \<Rightarrow> Inl FUndefined | Some t \<Rightarrow> put t out)"

definition writeUInt64 :: "'s ostream_write \<Rightarrow> u64 \<Rightarrow> nat \<Rightarrow> 's \<Rightarrow> 's fmt" where
  "writeUInt64 put i base out =
     (case to_chars 20 base (uint i) of None \<Rightarrow> Inl FUndefined | Some t \<Rightarrow> put t out)"

definition write_pointer :: "'s ostream_write \<Rightarrow> u64 \<Rightarrow> 's \<Rightarrow> 's fmt" where
  "write_pointer put ptr out = fbind (put ''0x'' out) (writeUInt64 put ptr 16)"

declare digits.simps [simp del]

subsection \<open>The contract of a stream\<close>

text \<open>A write either fails or appends exactly the text to what the stream holds.\<close>

locale ostream =
  fixes put :: "'s ostream_write" and contents :: "'s \<Rightarrow> string"
  assumes put_appends: "put t s = Inr s' \<Longrightarrow> contents s' = contents s @ t"
begin

lemma put_twice: "fbind (put t s) (put u) = Inr s' \<Longrightarrow> contents s' = contents s @ t @ u"
  by (auto simp: fbind_eq_Inr dest!: put_appends)

lemma writeInt64_appends: "writeInt64 put i base s = Inr s' \<Longrightarrow> contents s' = contents s @ int_text base (sint i)"
  by (auto simp: writeInt64_def to_chars_def dest: put_appends split: if_splits)

lemma writeUInt64_appends: "writeUInt64 put i base s = Inr s' \<Longrightarrow> contents s' = contents s @ int_text base (uint i)"
  by (auto simp: writeUInt64_def to_chars_def dest: put_appends split: if_splits)

lemma write_pointer_appends:
  "write_pointer put p s = Inr s' \<Longrightarrow> contents s' = contents s @ ''0x'' @ int_text 16 (uint p)"
  by (auto simp: write_pointer_def fbind_eq_Inr dest!: put_appends writeUInt64_appends)

end

interpretation strings: ostream stringstream_write "\<lambda>s. s"
  by unfold_locales (simp add: stringstream_write_def)

interpretation bufs: ostream bufstream_write bs_str
  by unfold_locales (auto simp: bufstream_write_def split: if_splits)

lemma stringstream_write_eq [simp]: "stringstream_write t s = Inr (s @ t)"
  by (simp add: stringstream_write_def)

lemma bufstream_write_fits:
  "(\<exists>b'. bufstream_write t b = Inr b') \<longleftrightarrow> length t \<le> bs_available b"
  by (auto simp: bufstream_write_def)

subsection \<open>Digits\<close>

text \<open>Reading the digits back, as a number in the same base.\<close>

definition digit_value :: "char \<Rightarrow> nat" where
  "digit_value c = length (takeWhile (\<lambda>d. d \<noteq> c) ''0123456789abcdefghijklmnopqrstuvwxyz'')"

definition read_digits :: "nat \<Rightarrow> string \<Rightarrow> nat" where
  "read_digits base s = foldl (\<lambda>n c. base * n + digit_value c) 0 s"

fun read_int :: "nat \<Rightarrow> string \<Rightarrow> int" where
  "read_int base (CHR ''-'' # s) = - int (read_digits base s)"
| "read_int base s = int (read_digits base s)"

lemma digit_table:
  "\<forall>d \<in> set [0..<36]. digit_value (digit_char d) = d \<and> digit_char d \<noteq> CHR ''-''"
  by code_simp

lemma digit_value_char: "d < 36 \<Longrightarrow> digit_value (digit_char d) = d"
  and digit_char_not_minus: "d < 36 \<Longrightarrow> digit_char d \<noteq> CHR ''-''"
  using digit_table by simp_all

lemma read_digits_snoc: "read_digits base (s @ [c]) = base * read_digits base s + digit_value c"
  by (simp add: read_digits_def)

lemma read_digits_digits: "2 \<le> base \<Longrightarrow> base \<le> 36 \<Longrightarrow> read_digits base (digits base n) = n"
proof (induction base n rule: digits.induct)
  case (1 base n)
  have m: "n mod base < 36" using 1(2,3) mod_less_divisor [of base n] by linarith
  show ?case
  proof (cases "n < base")
    case True
    then show ?thesis using 1
      by (subst digits.simps) (simp add: read_digits_def digit_value_char)
  next
    case False
    then show ?thesis using 1 m
      by (subst digits.simps) (simp add: read_digits_snoc digit_value_char)
  qed
qed

lemma digits_not_minus: "2 \<le> base \<Longrightarrow> base \<le> 36 \<Longrightarrow> \<exists>c s. digits base n = c # s \<and> c \<noteq> CHR ''-''"
proof (induction base n rule: digits.induct)
  case (1 base n)
  show ?case
  proof (cases "n < base")
    case True
    then show ?thesis using 1
      by (subst digits.simps) (simp add: digit_char_not_minus)
  next
    case False
    then show ?thesis using 1
      by (subst digits.simps) auto
  qed
qed

lemma read_int_plain: "c \<noteq> CHR ''-'' \<Longrightarrow> read_int base (c # s) = int (read_digits base (c # s))"
  by (cases "(base, c # s)" rule: read_int.cases) auto

lemma read_int_text:
  assumes "2 \<le> base" and "base \<le> 36"
  shows "read_int base (int_text base i) = i"
proof (cases "i < 0")
  case True
  then show ?thesis using assms by (simp add: int_text_def read_digits_digits)
next
  case False
  obtain c s where "digits base (nat i) = c # s" "c \<noteq> CHR ''-''" using digits_not_minus [OF assms] by blast
  then show ?thesis using assms False
    by (metis int_text_def int_nat_eq linorder_not_less read_digits_digits read_int_plain)
qed

lemma length_digits: "2 \<le> base \<Longrightarrow> n < base ^ k \<Longrightarrow> 0 < k \<Longrightarrow> length (digits base n) \<le> k"
proof (induction base n arbitrary: k rule: digits.induct)
  case (1 base n)
  show ?case
  proof (cases "n < base")
    case True
    then show ?thesis using 1 by (subst digits.simps) simp
  next
    case False
    then obtain j where k: "k = Suc j" "0 < j" using 1 by (cases k) (auto, metis gr0I power_0 mult.right_neutral)
    then have "n div base < base ^ j"
      using 1 by (simp add: less_mult_imp_div_less mult.commute)
    then show ?thesis using False 1 k
      by (subst digits.simps) auto
  qed
qed

text \<open>An integer of \<open>w\<close> bits in base 2 or more takes at most \<open>w\<close> digits and a sign.\<close>

lemma length_int_text:
  assumes "2 \<le> base" and "\<bar>i\<bar> < int base ^ k" and "0 < k"
  shows "length (int_text base i) \<le> Suc k" and "0 \<le> i \<Longrightarrow> length (int_text base i) \<le> k"
proof -
  have n: "nat \<bar>i\<bar> < base ^ k" using assms by (simp add: nat_less_iff)
  show "length (int_text base i) \<le> Suc k"
    using length_digits [OF assms(1) n assms(3)] by (auto simp: int_text_def)
  show "0 \<le> i \<Longrightarrow> length (int_text base i) \<le> k"
    using length_digits [OF assms(1) n assms(3)] by (auto simp: int_text_def)
qed

lemma to_chars_decimal:
  fixes i :: "64 word"
  shows "to_chars 20 10 (sint i) = Some (int_text 10 (sint i))"
    and "to_chars 20 10 (uint i) = Some (int_text 10 (uint i))"
    and "to_chars 20 16 (uint i) = Some (int_text 16 (uint i))"
proof -
  have "\<bar>sint i\<bar> \<le> 2 ^ 63" using sint_ge [of i] sint_lt [of i] by auto
  then have s: "\<bar>sint i\<bar> < int 10 ^ 19" by simp
  have u: "uint i < 2 ^ 64" using uint_bounded [of i] by simp
  then have "\<bar>uint i\<bar> < int 10 ^ 20" and "\<bar>uint i\<bar> < int 16 ^ 16" by auto
  then show "to_chars 20 10 (sint i) = Some (int_text 10 (sint i))"
    and "to_chars 20 10 (uint i) = Some (int_text 10 (uint i))"
    and "to_chars 20 16 (uint i) = Some (int_text 16 (uint i))"
    using length_int_text(1) [OF _ s] length_int_text(2) [of 10 "uint i" 20] length_int_text(2) [of 16 "uint i" 16]
    by (auto simp: to_chars_def)
qed

end
