(* ===== verification/MiniFormat.thy ===== *)
theory MiniFormat
  imports MiniOStream
begin

text \<open>
  String formatting: \<^verbatim>\<open>include/crouton/util/MiniFormat.hh\<close> and \<^verbatim>\<open>src/support/MiniFormat.cc\<close>. A format string is compiled
  into the lengths of its segments and the parsed specifiers, with the types of the arguments at hand. Later an
  iterator walks over the segments and prints the arguments. The theorem relates the two stages: compiling
  and running a format string is the same as interpreting it from left to right.

  A C string is the list of its characters, and reading at its end gives the terminating NUL. Values of type \<^verbatim>\<open>double\<close>
  are an abstract type, and the functions of the standard library that print them are parameters.
\<close>

subsection \<open>Argument types\<close>

datatype ArgType =
    AT_None | AT_Bool | AT_Char | AT_Int | AT_UInt | AT_Long | AT_ULong | AT_LongLong | AT_ULongLong
  | AT_Double | AT_CString | AT_String | AT_StringView | AT_Pointer | AT_Arg

fun ArgType_index :: "ArgType \<Rightarrow> nat" where
  "ArgType_index AT_None = 0"
| "ArgType_index AT_Bool = 1"
| "ArgType_index AT_Char = 2"
| "ArgType_index AT_Int = 3"
| "ArgType_index AT_UInt = 4"
| "ArgType_index AT_Long = 5"
| "ArgType_index AT_ULong = 6"
| "ArgType_index AT_LongLong = 7"
| "ArgType_index AT_ULongLong = 8"
| "ArgType_index AT_Double = 9"
| "ArgType_index AT_CString = 10"
| "ArgType_index AT_String = 11"
| "ArgType_index AT_StringView = 12"
| "ArgType_index AT_Pointer = 13"
| "ArgType_index AT_Arg = 14"

definition kDefaultTypeCharForArgType :: string where
  "kDefaultTypeCharForArgType = '' scdddddd sssp ''"

text \<open>
  The initializer has no comma between the entries for string views and for pointers, so that the compiler joins
  these two literals into one entry. The last entry of the array of 15 pointers is then null.
\<close>

definition kValidTypeCharsForArgType :: "string option list" where
  "kValidTypeCharsForArgType =
     [Some '''', Some ''sbBdoxX'', Some ''cbBdoxX'',
      Some ''bBcdoxX'', Some ''bBcdoxX'', Some ''bBcdoxX'', Some ''bBcdoxX'', Some ''bBcdoxX'', Some ''bBcdoxX'',
      Some ''aAeEfFgG'',
      Some ''s'', Some ''s'', Some (''s'' @ ''pP''), Some ''s'',
      None]"

definition isdigit :: "char \<Rightarrow> bool" where
  "isdigit c \<longleftrightarrow> of_char c \<ge> (48 :: nat) \<and> of_char c \<le> (57 :: nat)"

definition isalpha :: "char \<Rightarrow> bool" where
  "isalpha c \<longleftrightarrow> of_char c \<ge> (65 :: nat) \<and> of_char c \<le> (90 :: nat) \<or> of_char c \<ge> (97 :: nat) \<and> of_char c \<le> (122 :: nat)"

definition digittoint :: "char \<Rightarrow> nat" where
  "digittoint c = of_char c - 48"

subsection \<open>Specifiers\<close>

datatype align_t = Align_left | Align_center | Align_right
datatype sign_t = minusOnly | minusPlus | minusSpace

definition kDefaultPrecision :: nat where "kDefaultPrecision = 255"
definition kMaxPrecision :: nat where "kMaxPrecision = 255"
definition kMaxWidth :: nat where "kMaxWidth = 255"

abbreviation NUL :: char where "NUL \<equiv> CHR 0x00"

record Spec =
  sp_type :: char
  sp_fill :: char
  sp_width :: nat
  sp_precision :: nat
  sp_align :: align_t
  sp_sign :: sign_t
  sp_alternate :: bool
  sp_localize :: bool

definition Spec_default :: Spec where
  "Spec_default =
     \<lparr>sp_type = NUL, sp_fill = CHR '' '', sp_width = 0, sp_precision = kDefaultPrecision,
      sp_align = Align_left, sp_sign = minusOnly, sp_alternate = False, sp_localize = False\<rparr>"

text \<open>The character that a pointer into a C string points to.\<close>

fun cur :: "string \<Rightarrow> char" where
  "cur [] = NUL"
| "cur (c # _) = c"

definition Spec_for_arg :: "ArgType \<Rightarrow> Spec" where
  "Spec_for_arg argType =
     (let c = kDefaultTypeCharForArgType ! ArgType_index argType;
          sp = (if c \<noteq> CHR '' '' then Spec_default\<lparr>sp_type := c\<rparr> else Spec_default)
      in if ArgType_index argType \<ge> ArgType_index AT_Int \<and> ArgType_index argType \<le> ArgType_index AT_Double
         then sp\<lparr>sp_align := Align_right\<rparr> else sp)"

definition is_align :: "char \<Rightarrow> bool" where
  "is_align c \<longleftrightarrow> c = CHR ''<'' \<or> c = CHR ''^'' \<or> c = CHR ''>''"

definition set_align :: "char \<Rightarrow> Spec \<Rightarrow> Spec" where
  "set_align c sp = sp\<lparr>sp_align := (if c = CHR ''<'' then Align_left else if c = CHR ''^'' then Align_center else Align_right)\<rparr>"

text \<open>Fill and alignment: the alignment character, or NUL if there is none, and the rest of the specifier.\<close>

fun parse_align :: "string \<Rightarrow> Spec \<Rightarrow> (char \<times> string \<times> Spec) fmt" where
  "parse_align [] sp = Inl FUndefined"
| "parse_align (c # s) sp =
     (if is_align c then Inr (c, s, set_align c (sp\<lparr>sp_fill := CHR '' ''\<rparr>))
      else if is_align (cur s) then Inr (cur s, tl s, set_align (cur s) (sp\<lparr>sp_fill := c\<rparr>))
      else Inr (NUL, c # s, sp))"

definition parse_sign :: "string \<Rightarrow> Spec \<Rightarrow> string \<times> Spec" where
  "parse_sign s sp =
     (if cur s = CHR ''-'' then (tl s, sp\<lparr>sp_sign := minusOnly\<rparr>)
      else if cur s = CHR ''+'' then (tl s, sp\<lparr>sp_sign := minusPlus\<rparr>)
      else if cur s = CHR '' '' then (tl s, sp\<lparr>sp_sign := minusSpace\<rparr>)
      else (s, sp))"

definition parse_alternate :: "string \<Rightarrow> Spec \<Rightarrow> string \<times> Spec" where
  "parse_alternate s sp = (if cur s = CHR ''#'' then (tl s, sp\<lparr>sp_alternate := True\<rparr>) else (s, sp))"

definition parse_zero :: "char \<Rightarrow> string \<Rightarrow> Spec \<Rightarrow> string \<times> Spec" where
  "parse_zero alignChar s sp =
     (if cur s = CHR ''0'' \<and> alignChar = NUL then (tl s, sp\<lparr>sp_fill := CHR ''0'', sp_align := Align_right\<rparr>) else (s, sp))"

fun parse_digits :: "nat \<Rightarrow> string \<Rightarrow> nat \<Rightarrow> string \<Rightarrow> (nat \<times> string) fmt" where
  "parse_digits limit msg w [] = Inr (w, [])"
| "parse_digits limit msg w (c # s) =
     (if isdigit c then
        (let w1 = 10 * w + digittoint c
         in if w1 > limit then Inl (format_error msg) else parse_digits limit msg w1 s)
      else Inr (w, c # s))"

definition parse_width :: "string \<Rightarrow> Spec \<Rightarrow> (string \<times> Spec) fmt" where
  "parse_width s sp =
     (if isdigit (cur s)
      then fbind (parse_digits kMaxWidth ''invalid format spec: width too large'' 0 s) (\<lambda>(w, s1). Inr (s1, sp\<lparr>sp_width := w\<rparr>))
      else Inr (s, sp))"

definition parse_precision :: "string \<Rightarrow> Spec \<Rightarrow> (string \<times> Spec) fmt" where
  "parse_precision s sp =
     (if cur s = CHR ''.'' then
        (if \<not> isdigit (cur (tl s)) then Inl (format_error ''invalid format spec: invalid precision'')
         else fbind (parse_digits kMaxPrecision ''invalid format spec: precision too large'' 0 (tl s)) (\<lambda>(p, s1). Inr (s1, sp\<lparr>sp_precision := p\<rparr>)))
      else Inr (s, sp))"

definition parse_localize :: "string \<Rightarrow> Spec \<Rightarrow> string \<times> Spec" where
  "parse_localize s sp = (if cur s = CHR ''L'' then (tl s, sp\<lparr>sp_localize := True\<rparr>) else (s, sp))"

definition parse_type :: "ArgType \<Rightarrow> string \<Rightarrow> Spec \<Rightarrow> Spec fmt" where
  "parse_type argType s sp =
     (let t = cur s
      in if t = CHR ''}'' then Inr sp
         else if \<not> isalpha t then Inl (format_error ''invalid format spec: invalid type character'')
         else fbind
           (if argType \<noteq> AT_None then
              (case kValidTypeCharsForArgType ! ArgType_index argType of
                 None \<Rightarrow> Inl FUndefined
               | Some valid \<Rightarrow> if t \<in> set valid then Inr () else Inl (format_error ''invalid format spec: invalid spec for argument''))
            else Inr ())
           (\<lambda>_. if cur (tl s) \<noteq> CHR ''}'' then Inl (format_error ''invalid format spec: unknown chars at end'')
                else Inr (sp\<lparr>sp_type := t\<rparr>)))"

text \<open>What follows the colon and the optional alignment.\<close>

definition Spec_parse_rest :: "ArgType \<Rightarrow> char \<Rightarrow> string \<Rightarrow> Spec \<Rightarrow> Spec fmt" where
  "Spec_parse_rest argType alignChar s sp =
     (if cur s = CHR ''}'' then Inr sp
      else
        (let (s1, sp1) = parse_sign s sp;
             (s2, sp2) = parse_alternate s1 sp1;
             (s3, sp3) = parse_zero alignChar s2 sp2
         in fbind (parse_width s3 sp3) (\<lambda>(s4, sp4).
            fbind (parse_precision s4 sp4) (\<lambda>(s5, sp5).
            let (s6, sp6) = parse_localize s5 sp5 in parse_type argType s6 sp6))))"

definition Spec_parse :: "string \<Rightarrow> ArgType \<Rightarrow> Spec fmt" where
  "Spec_parse s argType =
     (let sp = Spec_for_arg argType
      in if cur s \<noteq> CHR '':'' then
           (if cur s = CHR ''}'' then Inr sp
            else if \<not> isdigit (cur s) then Inl (format_error ''invalid format spec: invalid arg number (did you forget the ':'?)'')
            else Inl (format_error ''invalid format spec: arg numbers not supported (or did you forget the ':'?)''))
         else if cur (tl s) = CHR ''}'' then Inr sp
         else fbind (parse_align (tl s) sp) (\<lambda>(alignChar, s1, sp1). Spec_parse_rest argType alignChar s1 sp1))"

subsection \<open>Compiling a format string\<close>

definition kMaxSpecs :: nat where "kMaxSpecs = 10"
definition kMaxSegments :: nat where "kMaxSegments = 2 * kMaxSpecs + 1"

text \<open>The entries of \<^verbatim>\<open>_lengths\<close> and \<^verbatim>\<open>_specs\<close> that are in use; \<^verbatim>\<open>_nSegments\<close> is the number of lengths.\<close>

record Impl =
  im_str :: string
  im_lengths :: "nat list"
  im_specs :: "Spec list"

text \<open>\<^verbatim>\<open>addSegment\<close>, given the difference between its argument \<^verbatim>\<open>pos\<close> and \<^verbatim>\<open>lastPos\<close>.\<close>

definition addSegment :: "nat \<Rightarrow> Impl \<Rightarrow> Impl fmt" where
  "addSegment n im =
     (if n > 0 then
        (if length (im_lengths im) \<ge> kMaxSegments then Inl (format_error ''Too many format specifiers'')
         else if n > 0xFF then Inl (format_error ''Format string too long'')
         else Inr (im\<lparr>im_lengths := im_lengths im @ [n]\<rparr>))
      else Inr im)"

definition is_brace :: "char \<Rightarrow> bool" where
  "is_brace c \<longleftrightarrow> c = CHR ''{'' \<or> c = CHR ''}''"

text \<open>The text of a specifier up to its closing brace, and what follows the brace.\<close>

definition spec_text :: "string \<Rightarrow> string" where
  "spec_text s = takeWhile (\<lambda>c. c \<noteq> CHR ''}'') s"

definition after_spec :: "string \<Rightarrow> string" where
  "after_spec s = tl (dropWhile (\<lambda>c. c \<noteq> CHR ''}'') s)"

definition parse_spec :: "string \<Rightarrow> ArgType list \<Rightarrow> Impl \<Rightarrow> (ArgType list \<times> Impl) fmt" where
  "parse_spec s iArg im =
     (if CHR ''}'' \<notin> set s then Inl (format_error ''Unclosed format specifier'')
      else if length (im_specs im) \<ge> kMaxSpecs then Inl (format_error ''Too many format specifiers'')
      else case iArg of
             [] \<Rightarrow> Inl (format_error ''More format specifiers than arguments'')
           | t # ts \<Rightarrow> fbind (Spec_parse s t) (\<lambda>sp. Inr (ts, im\<lparr>im_specs := im_specs im @ [sp]\<rparr>)))"

text \<open>The loop of \<^verbatim>\<open>BaseFormatString::parse\<close>; \<open>rest\<close> is the part of the string from \<^verbatim>\<open>lastPos\<close> on.\<close>

function parse_loop :: "string \<Rightarrow> ArgType list \<Rightarrow> Impl \<Rightarrow> Impl fmt" where
  "parse_loop rest iArg im =
     (case dropWhile (\<lambda>c. \<not> is_brace c) rest of
        [] \<Rightarrow> addSegment (length rest) im
      | c # s \<Rightarrow>
          fbind (addSegment (length (takeWhile (\<lambda>c. \<not> is_brace c) rest)) im) (\<lambda>im1.
          if c = CHR ''}'' then
            (if cur s \<noteq> CHR ''}'' then Inl (format_error ''Invalid '}' in format string'')
             else fbind (addSegment 2 im1) (\<lambda>im2. parse_loop (tl s) iArg im2))
          else if cur s = CHR ''{'' then fbind (addSegment 2 im1) (\<lambda>im2. parse_loop (tl s) iArg im2)
          else
            fbind (parse_spec s iArg im1) (\<lambda>(iArg1, im2).
            fbind (addSegment (length (spec_text s) + 2) im2) (\<lambda>im3. parse_loop (after_spec s) iArg1 im3))))"
  by pat_completeness auto
termination
proof (relation "measure (\<lambda>(rest, _, _). length rest)", goal_cases)
  case 1
  show ?case by simp
next
  case (2 rest iArg im c s)
  then have "length (c # s) \<le> length rest" by (metis length_dropWhile_le)
  then show ?case by simp
next
  case (3 rest iArg im c s)
  then have "length (c # s) \<le> length rest" by (metis length_dropWhile_le)
  then show ?case by simp
next
  case (4 rest iArg im c s)
  then have "length (c # s) \<le> length rest" by (metis length_dropWhile_le)
  moreover have "length (after_spec s) \<le> length s"
    using length_dropWhile_le [of "\<lambda>c. c \<noteq> CHR ''}''" s] by (simp add: after_spec_def)
  ultimately show ?case by simp
qed

definition BaseFormatString_parse :: "string \<Rightarrow> ArgType list \<Rightarrow> Impl fmt" where
  "BaseFormatString_parse cstr argTypes = parse_loop cstr argTypes \<lparr>im_str = cstr, im_lengths = [], im_specs = []\<rparr>"

subsection \<open>The iterator\<close>

text \<open>The pointers of the iterator, each as what it points to and what follows.\<close>

record fmt_iterator =
  it_str :: string
  it_lengths :: "nat list"
  it_specs :: "Spec list"

definition it_begin :: "Impl \<Rightarrow> fmt_iterator" where
  "it_begin im = \<lparr>it_str = im_str im, it_lengths = im_lengths im, it_specs = im_specs im\<rparr>"

definition isLiteral :: "fmt_iterator \<Rightarrow> bool" where
  "isLiteral it \<longleftrightarrow> cur (it_str it) \<noteq> CHR ''{'' \<or> cur (tl (it_str it)) = CHR ''{''"

definition it_literal :: "fmt_iterator \<Rightarrow> string" where
  "it_literal it =
     (if is_brace (cur (it_str it)) then take 1 (it_str it) else take (hd (it_lengths it)) (it_str it))"

definition it_next :: "fmt_iterator \<Rightarrow> fmt_iterator" where
  "it_next it =
     \<lparr>it_str = drop (hd (it_lengths it)) (it_str it), it_lengths = tl (it_lengths it),
      it_specs = (if \<not> isLiteral it then tl (it_specs it) else it_specs it)\<rparr>"

subsection \<open>Variable arguments\<close>

text \<open>
  What is passed through the variable argument list: integers after promotion, pointers to strings as the string,
  \<open>None\<close> for a null \<^verbatim>\<open>char*\<close>, and for an \<^verbatim>\<open>ostreamableArg\<close> the text that its \<^verbatim>\<open>operator<<\<close> writes.
\<close>

datatype 'd va =
    VaInt "32 word" | VaUInt "32 word" | VaLong "64 word" | VaULong "64 word" | VaLongLong "64 word" | VaULongLong "64 word"
  | VaDouble 'd | VaCString "string option" | VaString string | VaStringView string | VaPointer u64 | VaArg string

datatype c_integer = C_int | C_uint | C_long | C_ulong | C_longlong | C_ulonglong

definition sizeof_INT :: "c_integer \<Rightarrow> nat" where
  "sizeof_INT c_integer = (if c_integer = C_int \<or> c_integer = C_uint then 4 else 8)"

text \<open>
  \<^verbatim>\<open>va_arg\<close> for the integer types. An argument of type \<^verbatim>\<open>int\<close> may be read as \<^verbatim>\<open>unsigned\<close>, and the other way round,
  if both types have the value. Any other mismatch is undefined.
\<close>

fun va_arg_INT :: "c_integer \<Rightarrow> 'd va list \<Rightarrow> (int \<times> 'd va list) fmt" where
  "va_arg_INT C_int (VaInt i # as) = Inr (sint i, as)"
| "va_arg_INT C_int (VaUInt i # as) = (if 0 \<le> sint i then Inr (sint i, as) else Inl FUndefined)"
| "va_arg_INT C_uint (VaInt i # as) = (if 0 \<le> sint i then Inr (sint i, as) else Inl FUndefined)"
| "va_arg_INT C_uint (VaUInt i # as) = Inr (uint i, as)"
| "va_arg_INT C_long (VaLong i # as) = Inr (sint i, as)"
| "va_arg_INT C_ulong (VaULong i # as) = Inr (uint i, as)"
| "va_arg_INT C_longlong (VaLongLong i # as) = Inr (sint i, as)"
| "va_arg_INT C_ulonglong (VaULongLong i # as) = Inr (uint i, as)"
| "va_arg_INT _ _ = Inl FUndefined"

subsection \<open>Numbers\<close>

text \<open>Printing of floating-point numbers by the standard library, without a limit on the length.\<close>

datatype chars_format = hex | scientific | fixed | general

record 'd fp =
  fp_nonneg :: "'d \<Rightarrow> bool"
  fp_shortest :: "'d \<Rightarrow> string"
  fp_to_chars :: "'d \<Rightarrow> chars_format \<Rightarrow> nat \<Rightarrow> string"

definition isupper :: "char \<Rightarrow> bool" where
  "isupper c \<longleftrightarrow> of_char c \<ge> (65 :: nat) \<and> of_char c \<le> (90 :: nat)"

definition toupper :: "char \<Rightarrow> char" where
  "toupper c = (if of_char c \<ge> (97 :: nat) \<and> of_char c \<le> (122 :: nat) then char_of (of_char c - (32 :: nat)) else c)"

definition upperize :: "string \<Rightarrow> string" where
  "upperize s = map toupper s"

definition baseForInt :: "'s ostream_write \<Rightarrow> 's \<Rightarrow> Spec \<Rightarrow> (nat \<times> 's) fmt" where
  "baseForInt put out sp =
     (let t = sp_type sp;
          prefix = (if sp_alternate sp then fbind (put ''0'' out) (put [t]) else Inr out)
      in if t = CHR ''d'' \<or> t = NUL then Inr (10, out)
         else if t = CHR ''b'' \<or> t = CHR ''B'' then fbind prefix (\<lambda>out1. Inr (2, out1))
         else if t = CHR ''o'' then Inr (8, out)
         else if t = CHR ''x'' \<or> t = CHR ''X'' then fbind prefix (\<lambda>out1. Inr (16, out1))
         else if t = CHR ''c'' then Inr (0, out)
         else Inl (format_error ''invalid type for integer arg''))"

definition writeNonNegativeSign :: "'s ostream_write \<Rightarrow> 's \<Rightarrow> sign_t \<Rightarrow> 's fmt" where
  "writeNonNegativeSign put out mode =
     (if mode = minusPlus then put ''+'' out else if mode = minusSpace then put '' '' out else Inr out)"

definition vformat_integer :: "c_integer \<Rightarrow> 's ostream_write \<Rightarrow> 's \<Rightarrow> Spec \<Rightarrow> 'd va list \<Rightarrow> ('s \<times> 'd va list) fmt" where
  "vformat_integer c_integer put out sp args =
     fbind (va_arg_INT c_integer args) (\<lambda>(i, args1).
     if sp_type sp = CHR ''c'' then
       (if i < 0 \<or> i > 127 then Inl (format_error ''value out of range for {:c} format specifier'')
        else fbind (put [char_of (nat i)] out) (\<lambda>out1. Inr (out1, args1)))
     else
       fbind (if i \<ge> 0 then writeNonNegativeSign put out (sp_sign sp) else Inr out) (\<lambda>out1.
       fbind (baseForInt put out1 sp) (\<lambda>(base, out2).
       fbind (if sp_alternate sp \<and> base = 8 \<and> i \<noteq> 0 then put ''0'' out2 else Inr out2) (\<lambda>out3.
       case to_chars (1 + 8 * sizeof_INT c_integer) base i of
         None \<Rightarrow> Inl FAssert
       | Some buf \<Rightarrow>
           fbind (put (if sp_type sp = CHR ''X'' then upperize buf else buf) out3) (\<lambda>out4. Inr (out4, args1))))))"

text \<open>The size of the buffer in \<^verbatim>\<open>vformat_double\<close>, into which \<^verbatim>\<open>to_chars\<close> writes.\<close>

definition double_buf :: nat where "double_buf = 60"

definition chars_format_for :: "char \<Rightarrow> chars_format fmt" where
  "chars_format_for t =
     (if t = CHR ''a'' \<or> t = CHR ''A'' then Inr hex
      else if t = CHR ''e'' \<or> t = CHR ''E'' then Inr scientific
      else if t = CHR ''f'' \<or> t = CHR ''F'' then Inr fixed
      else if t = NUL \<or> t = CHR ''g'' \<or> t = CHR ''G'' then Inr general
      else Inl (format_error ''invalid type for floating-point arg''))"

text \<open>
  Appending the point of the alternate form stores to \<^verbatim>\<open>*result.ptr\<close>, which is outside the buffer when the text has
  filled it.
\<close>

definition append_point :: "bool \<Rightarrow> string \<Rightarrow> string fmt" where
  "append_point alternate buf =
     (if alternate \<and> CHR ''.'' \<notin> set buf
      then if length buf < double_buf then Inr (buf @ ''.'') else Inl FUndefined
      else Inr buf)"

definition vformat_double :: "'d fp \<Rightarrow> 's ostream_write \<Rightarrow> 's \<Rightarrow> Spec \<Rightarrow> 'd \<Rightarrow> 's fmt" where
  "vformat_double fp put out sp d =
     fbind (if fp_nonneg fp d then writeNonNegativeSign put out (sp_sign sp) else Inr out) (\<lambda>out1.
     if sp_type sp = NUL \<and> sp_precision sp = kDefaultPrecision then
       (let buf = fp_shortest fp d
        in if length buf \<le> double_buf then fbind (append_point (sp_alternate sp) buf) (\<lambda>t. put t out1) else Inl FUndefined)
     else
       fbind (chars_format_for (sp_type sp)) (\<lambda>format.
       let precision = (if sp_precision sp \<noteq> kDefaultPrecision then sp_precision sp else 6);
           buf = fp_to_chars fp d format precision
       in if length buf > double_buf then put ''FIELD OVERFLOW'' out1
          else fbind (append_point (sp_alternate sp) (if isupper (sp_type sp) then upperize buf else buf)) (\<lambda>t. put t out1)))"

subsection \<open>Formatting an argument\<close>

definition vformat_string :: "'s ostream_write \<Rightarrow> 's \<Rightarrow> Spec \<Rightarrow> string \<Rightarrow> 's fmt" where
  "vformat_string put out sp str =
     (if sp_type sp \<noteq> NUL \<and> sp_type sp \<noteq> CHR ''s'' then Inl (format_error ''invalid type for string arg'')
      else
        (let size = (if sp_precision sp < length str \<and> sp_precision sp \<noteq> kDefaultPrecision then sp_precision sp else length str)
         in put (take size str) out))"

text \<open>The cases for a string: the argument, if \<^verbatim>\<open>va_arg\<close> is used with its type.\<close>

fun va_arg_string :: "ArgType \<Rightarrow> 'd va list \<Rightarrow> (string \<times> 'd va list) fmt" where
  "va_arg_string AT_CString (VaCString s # as) = Inr (case s of None \<Rightarrow> '''' | Some t \<Rightarrow> t, as)"
| "va_arg_string AT_String (VaString s # as) = Inr (s, as)"
| "va_arg_string AT_StringView (VaStringView s # as) = Inr (s, as)"
| "va_arg_string _ _ = Inl FUndefined"

fun INT_for :: "ArgType \<Rightarrow> c_integer" where
  "INT_for AT_UInt = C_uint"
| "INT_for AT_Long = C_long"
| "INT_for AT_ULong = C_ulong"
| "INT_for AT_LongLong = C_longlong"
| "INT_for AT_ULongLong = C_ulonglong"
| "INT_for _ = C_int"

definition vformat_arg_nowidth ::
  "'d fp \<Rightarrow> 's ostream_write \<Rightarrow> 's \<Rightarrow> Spec \<Rightarrow> ArgType \<Rightarrow> 'd va list \<Rightarrow> ('s \<times> 'd va list) fmt" where
  "vformat_arg_nowidth fp put out sp itype args =
     (if itype = AT_None then Inl (format_error ''too few format arguments'')
      else if itype = AT_Bool \<and> (sp_type sp = NUL \<or> sp_type sp = CHR ''s'') then
        fbind (va_arg_INT C_int args) (\<lambda>(b, args1).
        fbind (put (if b \<noteq> 0 then ''true'' else ''false'') out) (\<lambda>out1. Inr (out1, args1)))
      else if itype = AT_Char \<and> (sp_type sp = NUL \<or> sp_type sp = CHR ''c'') then
        fbind (va_arg_INT C_int args) (\<lambda>(c, args1).
        fbind (put [char_of (nat (c mod 256))] out) (\<lambda>out1. Inr (out1, args1)))
      else if itype = AT_Double then
        (case args of
           VaDouble d # args1 \<Rightarrow> fbind (vformat_double fp put out sp d) (\<lambda>out1. Inr (out1, args1))
         | _ \<Rightarrow> Inl FUndefined)
      else if itype = AT_CString \<or> itype = AT_String \<or> itype = AT_StringView then
        fbind (va_arg_string itype args) (\<lambda>(s, args1).
        fbind (vformat_string put out sp s) (\<lambda>out1. Inr (out1, args1)))
      else if itype = AT_Pointer then
        (if sp_type sp \<noteq> NUL \<and> sp_type sp \<noteq> CHR ''p'' \<and> sp_type sp \<noteq> CHR ''P''
         then Inl (format_error ''invalid type for pointer arg'')
         else case args of
                VaPointer p # args1 \<Rightarrow> fbind (write_pointer put p out) (\<lambda>out1. Inr (out1, args1))
              | _ \<Rightarrow> Inl FUndefined)
      else if itype = AT_Arg then
        (case args of
           VaArg s # args1 \<Rightarrow> fbind (put s out) (\<lambda>out1. Inr (out1, args1))
         | _ \<Rightarrow> Inl FUndefined)
      else vformat_integer (INT_for itype) put out sp args)"

text \<open>The padding before and after a text of length \<open>s\<close>, which is shorter than the width.\<close>

definition padding :: "Spec \<Rightarrow> nat \<Rightarrow> string \<times> string" where
  "padding sp s =
     (let pad = sp_width sp - s;
          pad1 = (if sp_align sp = Align_center then pad div 2 else pad);
          (left, pad2) = (if sp_align sp \<noteq> Align_left then (replicate pad1 (sp_fill sp), sp_width sp - s - pad1) else ([], pad1))
      in (left, if sp_align sp \<noteq> Align_right then replicate pad2 (sp_fill sp) else []))"

definition vformat_arg ::
  "'d fp \<Rightarrow> 's ostream_write \<Rightarrow> 's \<Rightarrow> Spec \<Rightarrow> ArgType \<Rightarrow> 'd va list \<Rightarrow> ('s \<times> 'd va list) fmt" where
  "vformat_arg fp put out sp itype args =
     (if sp_width sp = 0 then vformat_arg_nowidth fp put out sp itype args
      else
        fbind (vformat_arg_nowidth fp stringstream_write [] sp itype args) (\<lambda>(str, args1).
        if length str \<ge> sp_width sp then fbind (put str out) (\<lambda>out1. Inr (out1, args1))
        else
          (let (left, right) = padding sp (length str)
           in fbind (if sp_align sp \<noteq> Align_left then put left out else Inr out) (\<lambda>out1.
              fbind (put str out1) (\<lambda>out2.
              fbind (if sp_align sp \<noteq> Align_right then put right out2 else Inr out2) (\<lambda>out3. Inr (out3, args1)))))))"

subsection \<open>Formatting\<close>

text \<open>The segments of the format string. The list of types ends with \<open>AT_None\<close>, which is left implicit.\<close>

fun vformat_segments ::
  "'d fp \<Rightarrow> 's ostream_write \<Rightarrow> nat list \<Rightarrow> fmt_iterator \<Rightarrow> ArgType list \<Rightarrow> 'd va list \<Rightarrow> 's
     \<Rightarrow> ('s \<times> ArgType list \<times> 'd va list) fmt" where
  "vformat_segments fp put [] it types args out = Inr (out, types, args)"
| "vformat_segments fp put (len # lens) it types args out =
     (if isLiteral it then fbind (put (it_literal it) out) (vformat_segments fp put lens (it_next it) types args)
      else fbind (vformat_arg fp put out (hd (it_specs it)) (case types of [] \<Rightarrow> AT_None | t # _ \<Rightarrow> t) args) (\<lambda>(out1, args1).
             vformat_segments fp put lens (it_next it) (tl types) args1 out1))"

text \<open>The arguments that the format string has no specifier for.\<close>

fun vformat_extra ::
  "'d fp \<Rightarrow> 's ostream_write \<Rightarrow> string \<Rightarrow> ArgType list \<Rightarrow> 'd va list \<Rightarrow> 's \<Rightarrow> 's fmt" where
  "vformat_extra fp put delim [] args out = Inr out"
| "vformat_extra fp put delim (t # ts) args out =
     (if t = AT_None then Inr out
      else
        fbind (put delim out) (\<lambda>out1.
        fbind (vformat_arg fp put out1 Spec_default t args) (\<lambda>(out2, args1).
        vformat_extra fp put '', '' ts args1 out2)))"

definition vformat_types_to ::
  "'d fp \<Rightarrow> 's ostream_write \<Rightarrow> 's \<Rightarrow> Impl \<Rightarrow> ArgType list \<Rightarrow> 'd va list \<Rightarrow> 's fmt" where
  "vformat_types_to fp put out im types args =
     fbind (vformat_segments fp put (im_lengths im) (it_begin im) types args out) (\<lambda>(out1, types1, args1).
     vformat_extra fp put '' : '' types1 args1 out1)"

definition vformat_types :: "'d fp \<Rightarrow> Impl \<Rightarrow> ArgType list \<Rightarrow> 'd va list \<Rightarrow> string fmt" where
  "vformat_types fp im types args = vformat_types_to fp stringstream_write [] im types args"

text \<open>
  The arguments of \<^verbatim>\<open>format\<close> and \<^verbatim>\<open>format_to\<close> with their C++ types, how they are passed on, and the \<^verbatim>\<open>ArgType\<close> of each.
  A \<^verbatim>\<open>float\<close> is given as the \<^verbatim>\<open>double\<close> it is promoted to.
\<close>

datatype 'd cxx_value =
    V_bool bool | V_char "8 word" | V_schar "8 word" | V_uchar "8 word" | V_short "16 word" | V_ushort "16 word"
  | V_int "32 word" | V_uint "32 word" | V_long "64 word" | V_ulong "64 word" | V_longlong "64 word" | V_ulonglong "64 word"
  | V_float 'd | V_double 'd | V_cstring "string option" | V_pointer u64 | V_string string | V_string_view string
  | V_ostreamable string

fun Formatting_id :: "'d cxx_value \<Rightarrow> ArgType" where
  "Formatting_id (V_bool _) = AT_Bool"
| "Formatting_id (V_char _) = AT_Char"
| "Formatting_id (V_schar _) = AT_Char"
| "Formatting_id (V_uchar _) = AT_UInt"
| "Formatting_id (V_short _) = AT_Int"
| "Formatting_id (V_ushort _) = AT_UInt"
| "Formatting_id (V_int _) = AT_Int"
| "Formatting_id (V_uint _) = AT_UInt"
| "Formatting_id (V_long _) = AT_Long"
| "Formatting_id (V_ulong _) = AT_ULong"
| "Formatting_id (V_longlong _) = AT_LongLong"
| "Formatting_id (V_ulonglong _) = AT_ULongLong"
| "Formatting_id (V_float _) = AT_Double"
| "Formatting_id (V_double _) = AT_Double"
| "Formatting_id (V_cstring _) = AT_CString"
| "Formatting_id (V_pointer _) = AT_Pointer"
| "Formatting_id (V_string _) = AT_String"
| "Formatting_id (V_string_view _) = AT_StringView"
| "Formatting_id (V_ostreamable _) = AT_Arg"

fun passArg :: "'d cxx_value \<Rightarrow> 'd va" where
  "passArg (V_bool b) = VaInt (if b then 1 else 0)"
| "passArg (V_char c) = VaInt (scast c)"
| "passArg (V_schar c) = VaInt (scast c)"
| "passArg (V_uchar c) = VaInt (ucast c)"
| "passArg (V_short i) = VaInt (scast i)"
| "passArg (V_ushort i) = VaInt (ucast i)"
| "passArg (V_int i) = VaInt i"
| "passArg (V_uint i) = VaUInt i"
| "passArg (V_long i) = VaLong i"
| "passArg (V_ulong i) = VaULong i"
| "passArg (V_longlong i) = VaLongLong i"
| "passArg (V_ulonglong i) = VaULongLong i"
| "passArg (V_float d) = VaDouble d"
| "passArg (V_double d) = VaDouble d"
| "passArg (V_cstring s) = VaCString s"
| "passArg (V_pointer p) = VaPointer p"
| "passArg (V_string s) = VaString s"
| "passArg (V_string_view s) = VaStringView s"
| "passArg (V_ostreamable s) = VaArg s"

definition FormatString :: "string \<Rightarrow> 'd cxx_value list \<Rightarrow> Impl fmt" where
  "FormatString cstr vals = BaseFormatString_parse cstr (map Formatting_id vals)"

definition format_to :: "'d fp \<Rightarrow> 's ostream_write \<Rightarrow> 's \<Rightarrow> Impl \<Rightarrow> 'd cxx_value list \<Rightarrow> 's fmt" where
  "format_to fp put out fmt vals = vformat_types_to fp put out fmt (map Formatting_id vals) (map passArg vals)"

definition format :: "'d fp \<Rightarrow> Impl \<Rightarrow> 'd cxx_value list \<Rightarrow> string fmt" where
  "format fp fmt vals = vformat_types fp fmt (map Formatting_id vals) (map passArg vals)"

subsection \<open>Interpreting a format string from left to right\<close>

text \<open>
  The meaning of a format string, without segments: a doubled brace stands for itself, a specifier is read and its argument
  printed on the spot, and everything else is copied.
\<close>

function interpret_format ::
  "'d fp \<Rightarrow> string \<Rightarrow> ArgType list \<Rightarrow> 'd va list \<Rightarrow> string \<Rightarrow> (string \<times> ArgType list \<times> 'd va list) fmt" where
  "interpret_format fp [] ts args out = Inr (out, ts, args)"
| "interpret_format fp (c # s) ts args out =
     (if \<not> is_brace c then interpret_format fp s ts args (out @ [c])
      else if cur s = c then interpret_format fp (tl s) ts args (out @ [c])
      else
        (let t = (case ts of [] \<Rightarrow> AT_None | t # _ \<Rightarrow> t)
         in fbind (Spec_parse s t) (\<lambda>sp.
            fbind (vformat_arg fp stringstream_write out sp t args) (\<lambda>(out1, args1).
            interpret_format fp (after_spec s) (tl ts) args1 out1))))"
  by pat_completeness auto
termination
proof (relation "measure (\<lambda>(_, s, _). length s)", goal_cases)
  case (4 fp c s ts args out)
  then show ?case
    using length_dropWhile_le [of "\<lambda>c. c \<noteq> CHR ''}''" s] by (simp add: after_spec_def)
qed simp_all

lemma interpret_plain:
  "\<forall>c \<in> set pre. \<not> is_brace c \<Longrightarrow> interpret_format fp (pre @ s) ts args out = interpret_format fp s ts args (out @ pre)"
  by (induction pre arbitrary: out) simp_all

lemma drop_spec: "CHR ''}'' \<in> set s \<Longrightarrow> drop (Suc (length (spec_text s))) s = after_spec s"
  by (simp add: spec_text_def after_spec_def dropWhile_eq_drop drop_Suc tl_drop)

abbreviation run_from ::
  "'d fp \<Rightarrow> nat list \<Rightarrow> string \<Rightarrow> Spec list \<Rightarrow> ArgType list \<Rightarrow> 'd va list \<Rightarrow> string \<Rightarrow> (string \<times> ArgType list \<times> 'd va list) fmt" where
  "run_from fp ls s sps ts args out \<equiv>
     vformat_segments fp stringstream_write ls \<lparr>it_str = s, it_lengths = ls, it_specs = sps\<rparr> ts args out"

lemmas iterator_defs = isLiteral_def it_literal_def it_next_def is_brace_def

lemma run_literal:
  assumes "pre \<noteq> []" and "\<forall>c \<in> set pre. \<not> is_brace c"
  shows "run_from fp (length pre # ls) (pre @ s) sps ts args out = run_from fp ls s sps ts args (out @ pre)"
  using assms by (cases pre) (simp_all add: iterator_defs)

lemma run_escape:
  "is_brace c \<Longrightarrow> run_from fp (2 # ls) (c # c # s) sps ts args out = run_from fp ls s sps ts args (out @ [c])"
  by (auto simp: iterator_defs)

lemma run_spec:
  assumes "cur s \<noteq> CHR ''{''" and "CHR ''}'' \<in> set s"
  shows "run_from fp ((length (spec_text s) + 2) # ls) (CHR ''{'' # s) (sp # sps) (t # ts) args out =
           fbind (vformat_arg fp stringstream_write out sp t args) (\<lambda>(out1, args1). run_from fp ls (after_spec s) sps ts args1 out1)"
  using assms drop_spec [OF assms(2)] by (simp add: iterator_defs)

lemma addSegment_Ok:
  assumes "addSegment n im = Inr im'"
  shows "im' = im\<lparr>im_lengths := im_lengths im @ (if n > 0 then [n] else [])\<rparr>"
    and "n \<le> 255"
    and "length (im_lengths im) \<le> kMaxSegments \<Longrightarrow> length (im_lengths im') \<le> kMaxSegments"
  using assms by (cases im; auto simp: addSegment_def split: if_splits)+

lemma parse_spec_Ok:
  assumes "parse_spec s ts im = Inr (ts', im')"
  obtains t sp where "ts = t # ts'" "Spec_parse s t = Inr sp" "im' = im\<lparr>im_specs := im_specs im @ [sp]\<rparr>"
    "CHR ''}'' \<in> set s" "length (im_specs im) < kMaxSpecs"
  using assms by (auto simp: parse_spec_def fbind_eq_Inr split: if_splits list.splits)

text \<open>
  What compiling has added to the segments and the specifiers: running the new segments on the rest of the string is the
  same as interpreting it.
\<close>

definition compiled :: "'d fp \<Rightarrow> string \<Rightarrow> ArgType list \<Rightarrow> Impl \<Rightarrow> Impl \<Rightarrow> bool" where
  "compiled fp rest ts im im' \<longleftrightarrow>
     (\<exists>ls sps. im' = im\<lparr>im_lengths := im_lengths im @ ls, im_specs := im_specs im @ sps\<rparr> \<and> sum_list ls = length rest \<and>
        (\<forall>args out. run_from fp ls rest sps ts args out = interpret_format fp rest ts args out))"

lemma compiled_literal:
  assumes pre: "\<forall>c \<in> set pre. \<not> is_brace c"
    and seg: "addSegment (length pre) im = Inr im1" and rest: "compiled fp s ts im1 im'"
  shows "compiled fp (pre @ s) ts im im'"
proof (cases "pre = []")
  case True
  then show ?thesis using rest addSegment_Ok(1) [OF seg] by simp
next
  case False
  obtain ls sps where c: "im' = im1\<lparr>im_lengths := im_lengths im1 @ ls, im_specs := im_specs im1 @ sps\<rparr>" "sum_list ls = length s"
    "\<forall>args out. run_from fp ls s sps ts args out = interpret_format fp s ts args out"
    using rest by (auto simp: compiled_def)
  show ?thesis
    unfolding compiled_def
    by (rule exI [of _ "length pre # ls"], rule exI [of _ sps])
      (simp add: addSegment_Ok(1) [OF seg] c(1,2) False run_literal [OF False pre] interpret_plain [OF pre] c(3)
        del: vformat_segments.simps)
qed

lemma compiled_escape:
  assumes "is_brace c" and seg: "addSegment 2 im = Inr im1" and rest: "compiled fp s ts im1 im'"
  shows "compiled fp (c # c # s) ts im im'"
proof -
  obtain ls sps where c: "im' = im1\<lparr>im_lengths := im_lengths im1 @ ls, im_specs := im_specs im1 @ sps\<rparr>" "sum_list ls = length s"
    "\<forall>args out. run_from fp ls s sps ts args out = interpret_format fp s ts args out"
    using rest by (auto simp: compiled_def)
  show ?thesis
    unfolding compiled_def
    by (rule exI [of _ "2 # ls"], rule exI [of _ sps])
      (simp add: addSegment_Ok(1) [OF seg] c assms(1) run_escape del: vformat_segments.simps)
qed

lemma length_spec: "CHR ''}'' \<in> set s \<Longrightarrow> length s = Suc (length (spec_text s)) + length (after_spec s)"
  by (induction s) (auto simp: spec_text_def after_spec_def)

lemma compiled_Nil: "compiled fp [] ts im im"
  by (auto simp: compiled_def intro!: exI [of _ "[]"])

lemmas run_spec' = run_spec [unfolded add_2_eq_Suc']

lemma compiled_spec:
  assumes cur: "cur s \<noteq> CHR ''{''" and spec: "parse_spec s ts im = Inr (ts1, im1)"
    and seg: "addSegment (length (spec_text s) + 2) im1 = Inr im2" and rest: "compiled fp (after_spec s) ts1 im2 im'"
  shows "compiled fp (CHR ''{'' # s) ts im im'"
proof -
  obtain t sp where t: "ts = t # ts1" "Spec_parse s t = Inr sp" "im1 = im\<lparr>im_specs := im_specs im @ [sp]\<rparr>" "CHR ''}'' \<in> set s"
    using spec by (rule parse_spec_Ok)
  obtain ls sps where c: "im' = im2\<lparr>im_lengths := im_lengths im2 @ ls, im_specs := im_specs im2 @ sps\<rparr>"
    "sum_list ls = length (after_spec s)"
    "\<forall>args out. run_from fp ls (after_spec s) sps ts1 args out = interpret_format fp (after_spec s) ts1 args out"
    using rest by (auto simp: compiled_def)
  note len = length_spec [OF t(4)]
  show ?thesis
    unfolding compiled_def
    by (rule exI [of _ "(length (spec_text s) + 2) # ls"], rule exI [of _ "sp # sps"])
      (use cur in \<open>simp add: addSegment_Ok(1) [OF seg] c t run_spec' [OF cur t(4)] len is_brace_def del: vformat_segments.simps\<close>)
qed

declare parse_loop.simps [simp del]

lemma parse_loop_cases:
  assumes "parse_loop rest ts im = Inr im'"
  obtains (plain) "\<forall>c \<in> set rest. \<not> is_brace c" "addSegment (length rest) im = Inr im'"
  | (escape) pre c s im1 im2 where "rest = pre @ c # c # s" "\<forall>c \<in> set pre. \<not> is_brace c" "is_brace c"
      "addSegment (length pre) im = Inr im1" "addSegment 2 im1 = Inr im2" "parse_loop s ts im2 = Inr im'"
  | (spec) pre s im1 ts1 im2 im3 where "rest = pre @ CHR ''{'' # s" "\<forall>c \<in> set pre. \<not> is_brace c" "cur s \<noteq> CHR ''{''"
      "addSegment (length pre) im = Inr im1" "parse_spec s ts im1 = Inr (ts1, im2)"
      "addSegment (length (spec_text s) + 2) im2 = Inr im3" "parse_loop (after_spec s) ts1 im3 = Inr im'"
proof (cases "dropWhile (\<lambda>c. \<not> is_brace c) rest")
  case Nil
  then have "\<forall>c \<in> set rest. \<not> is_brace c" by (simp add: dropWhile_eq_Nil_conv)
  moreover have "addSegment (length rest) im = Inr im'"
    using assms by (simp add: parse_loop.simps [of rest] Nil)
  ultimately show thesis by (rule plain)
next
  case (Cons c s)
  define pre where "pre = takeWhile (\<lambda>c. \<not> is_brace c) rest"
  have pre: "\<forall>c \<in> set pre. \<not> is_brace c" by (auto simp: pre_def dest: set_takeWhileD)
  have rest: "rest = pre @ c # s" using Cons by (metis pre_def takeWhile_dropWhile_id)
  have c: "is_brace c" using Cons by (metis hd_dropWhile list.sel(1) list.discI)
  have loop: "fbind (addSegment (length pre) im) (\<lambda>im1.
      if c = CHR ''}'' then
        (if cur s \<noteq> CHR ''}'' then Inl (format_error ''Invalid '}' in format string'')
         else fbind (addSegment 2 im1) (\<lambda>im2. parse_loop (tl s) ts im2))
      else if cur s = CHR ''{'' then fbind (addSegment 2 im1) (\<lambda>im2. parse_loop (tl s) ts im2)
      else
        fbind (parse_spec s ts im1) (\<lambda>(iArg1, im2).
        fbind (addSegment (length (spec_text s) + 2) im2) (\<lambda>im3. parse_loop (after_spec s) iArg1 im3))) = Inr im'"
    using assms by (simp add: parse_loop.simps [of rest] Cons pre_def)
  then obtain im1 where im1: "addSegment (length pre) im = Inr im1" by (auto simp: fbind_eq_Inr)
  show thesis
  proof (cases "cur s = c")
    case True
    then have s: "s = c # tl s" using c by (cases s) (auto simp: is_brace_def)
    obtain im2 where "addSegment 2 im1 = Inr im2" "parse_loop (tl s) ts im2 = Inr im'"
      using loop im1 True c by (auto simp: fbind_eq_Inr is_brace_def split: if_splits)
    then show thesis using escape [of pre c "tl s"] rest s pre c im1 by metis
  next
    case False
    then have "c = CHR ''{''" using loop im1 c by (auto simp: is_brace_def split: if_splits)
    moreover from this obtain ts1 im2 im3 where "parse_spec s ts im1 = Inr (ts1, im2)"
      "addSegment (length (spec_text s) + 2) im2 = Inr im3" "parse_loop (after_spec s) ts1 im3 = Inr im'"
      using loop im1 False by (auto simp: fbind_eq_Inr)
    ultimately show thesis using spec rest pre False im1 by blast
  qed
qed

lemma length_after_spec: "length (after_spec s) \<le> length s"
  using length_dropWhile_le [of "\<lambda>c. c \<noteq> CHR ''}''" s] by (simp add: after_spec_def)

lemma parse_loop_compiled: "parse_loop rest ts im = Inr im' \<Longrightarrow> compiled fp rest ts im im'"
proof (induction "length rest" arbitrary: rest ts im rule: less_induct)
  case less
  from less.prems show ?case
  proof (cases rule: parse_loop_cases)
    case plain
    then show ?thesis using compiled_literal [OF plain compiled_Nil] by simp
  next
    case (escape pre c s im1 im2)
    then have "compiled fp s ts im2 im'" using less.hyps by simp
    then show ?thesis using compiled_literal [OF escape(2,4) compiled_escape [OF escape(3,5)]] escape(1) by simp
  next
    case (spec pre s im1 ts1 im2 im3)
    then have "compiled fp (after_spec s) ts1 im3 im'"
      using less.hyps length_after_spec [of s] by simp
    then show ?thesis using compiled_literal [OF spec(2,4) compiled_spec [OF spec(3,5,6)]] spec(1) by simp
  qed
qed

lemma compiled_run:
  assumes "BaseFormatString_parse cstr types = Inr im"
  shows "vformat_segments fp stringstream_write (im_lengths im) (it_begin im) types args [] = interpret_format fp cstr types args []"
proof -
  obtain ls sps where "im = \<lparr>im_str = cstr, im_lengths = ls, im_specs = sps\<rparr>"
    "run_from fp ls cstr sps types args [] = interpret_format fp cstr types args []"
    using parse_loop_compiled [OF assms [unfolded BaseFormatString_parse_def], of fp] by (auto simp: compiled_def)
  then show ?thesis by (simp add: it_begin_def)
qed

text \<open>
  C23. A format string that was compiled into segments and specifiers prints the same as its direct interpretation from left to
  right, followed by the arguments that have no specifier; it also fails with the same error.
\<close>

theorem compiled_format_interprets:
  assumes "BaseFormatString_parse cstr types = Inr im"
  shows "vformat_types fp im types args =
           fbind (interpret_format fp cstr types args []) (\<lambda>(out, types1, args1).
           vformat_extra fp stringstream_write '' : '' types1 args1 out)"
  by (simp add: vformat_types_def vformat_types_to_def compiled_run [OF assms])

text \<open>Numbers whose texts are those of integers: the functions that print floating-point numbers, on integral values.\<close>

definition integral_fp :: "int fp" where
  "integral_fp = \<lparr>fp_nonneg = (\<lambda>d. d \<ge> 0), fp_shortest = (\<lambda>d. take 24 (int_text 10 d)), fp_to_chars = (\<lambda>d f p. int_text 10 d)\<rparr>"

lemmas format_eval =
  parse_loop.simps addSegment_def is_brace_def parse_spec_def Spec_parse_def Spec_for_arg_def Spec_default_def
  kDefaultTypeCharForArgType_def kValidTypeCharsForArgType_def Spec_parse_rest_def parse_sign_def parse_alternate_def
  parse_zero_def parse_width_def parse_precision_def parse_localize_def parse_type_def is_align_def set_align_def isdigit_def
  isalpha_def digittoint_def spec_text_def after_spec_def kMaxSpecs_def kMaxSegments_def kMaxWidth_def kMaxPrecision_def
  kDefaultPrecision_def

lemma parse_example:
  "BaseFormatString_parse ''{{{:*>5}}}'' [AT_Int, AT_Bool] =
     Inr \<lparr>im_str = ''{{{:*>5}}}'', im_lengths = [2, 6, 2],
          im_specs = [\<lparr>sp_type = CHR ''d'', sp_fill = CHR ''*'', sp_width = 5, sp_precision = 255, sp_align = Align_right,
                       sp_sign = minusOnly, sp_alternate = False, sp_localize = False\<rparr>]\<rparr>"
  by (simp add: BaseFormatString_parse_def format_eval)

theorem compiled_format_interprets_witness:
  "vformat_types integral_fp
     \<lparr>im_str = ''{{{:*>5}}}'', im_lengths = [2, 6, 2],
      im_specs = [\<lparr>sp_type = CHR ''d'', sp_fill = CHR ''*'', sp_width = 5, sp_precision = 255, sp_align = Align_right,
                   sp_sign = minusOnly, sp_alternate = False, sp_localize = False\<rparr>]\<rparr>
     [AT_Int, AT_Bool] [VaInt 42, VaInt 1] = Inr ''{***42} : true''"
  using compiled_format_interprets [OF parse_example, of integral_fp "[VaInt 42, VaInt 1]"]
  by (simp add: format_eval vformat_arg_def vformat_arg_nowidth_def vformat_integer_def writeNonNegativeSign_def
      baseForInt_def to_chars_def int_text_def digits.simps digit_char_def sizeof_INT_def padding_def numeral_3_eq_3)

end
