(* ===== verification/MiniFormatTypes.thy ===== *)
theory MiniFormatTypes
  imports MiniFormat
begin

text \<open>
  Type soundness of the formatter: what the check of a format string against the types of its arguments, done when it is
  compiled, guarantees when it is run. The check leaves four ways to fail, which \<open>arg_safe\<close> describes; for all other
  arguments formatting returns a text. The lemmas also give the text of an integer under any specifier.
\<close>

subsection \<open>Which arguments can be formatted\<close>

text \<open>The value of an integer argument.\<close>

fun arg_int :: "'d cxx_value \<Rightarrow> int" where
  "arg_int (V_bool b) = (if b then 1 else 0)"
| "arg_int (V_char c) = sint c"
| "arg_int (V_schar c) = sint c"
| "arg_int (V_uchar c) = uint c"
| "arg_int (V_short i) = sint i"
| "arg_int (V_ushort i) = uint i"
| "arg_int (V_int i) = sint i"
| "arg_int (V_uint i) = uint i"
| "arg_int (V_long i) = sint i"
| "arg_int (V_ulong i) = uint i"
| "arg_int (V_longlong i) = sint i"
| "arg_int (V_ulonglong i) = uint i"
| "arg_int _ = 0"

text \<open>The text of a floating-point number before the point of the alternate form.\<close>

definition double_text :: "'d fp \<Rightarrow> Spec \<Rightarrow> 'd \<Rightarrow> string" where
  "double_text fp sp d =
     (if sp_type sp = NUL \<and> sp_precision sp = kDefaultPrecision then fp_shortest fp d
      else
        (let format = (case chars_format_for (sp_type sp) of Inr f \<Rightarrow> f | Inl _ \<Rightarrow> general);
             buf = fp_to_chars fp d format (if sp_precision sp \<noteq> kDefaultPrecision then sp_precision sp else 6)
         in if isupper (sp_type sp) then upperize buf else buf))"

text \<open>
  The arguments that the formatter can print under a specifier of the right type: an integer printed as a character is in the
  range of ASCII, a string view is not printed as a pointer nor a pointer as a string, and the alternate form of a
  floating-point number leaves room for the point.
\<close>

fun arg_safe :: "'d fp \<Rightarrow> Spec \<Rightarrow> 'd cxx_value \<Rightarrow> bool" where
  "arg_safe fp sp (V_string_view _) \<longleftrightarrow> sp_type sp \<noteq> CHR ''p'' \<and> sp_type sp \<noteq> CHR ''P''"
| "arg_safe fp sp (V_pointer _) \<longleftrightarrow> sp_type sp \<noteq> CHR ''s''"
| "arg_safe fp sp (V_double d) \<longleftrightarrow>
     \<not> (sp_alternate sp \<and> length (double_text fp sp d) = double_buf \<and> CHR ''.'' \<notin> set (double_text fp sp d))"
| "arg_safe fp sp (V_float d) \<longleftrightarrow>
     \<not> (sp_alternate sp \<and> length (double_text fp sp d) = double_buf \<and> CHR ''.'' \<notin> set (double_text fp sp d))"
| "arg_safe fp sp (V_char c) \<longleftrightarrow> True"
| "arg_safe fp sp (V_schar c) \<longleftrightarrow> True"
| "arg_safe fp sp v \<longleftrightarrow> (sp_type sp = CHR ''c'' \<longrightarrow> 0 \<le> arg_int v \<and> arg_int v \<le> 127)"

text \<open>The shortest text of a \<^verbatim>\<open>double\<close> that reads back as the same number has at most 24 characters.\<close>

definition fp_ok :: "'d fp \<Rightarrow> bool" where
  "fp_ok fp \<longleftrightarrow> (\<forall>d. length (fp_shortest fp d) \<le> 24)"

text \<open>The type characters that a specifier can have after it was parsed for an argument.\<close>

definition type_allowed :: "ArgType \<Rightarrow> Spec \<Rightarrow> bool" where
  "type_allowed t sp \<longleftrightarrow>
     sp_type sp = NUL \<or> sp_type sp = sp_type (Spec_for_arg t) \<or>
     t = AT_None \<or> (\<exists>valid. kValidTypeCharsForArgType ! ArgType_index t = Some valid \<and> sp_type sp \<in> set valid)"

lemma type_allowed_default [simp]: "type_allowed t Spec_default"
  by (simp add: type_allowed_def Spec_default_def)

text \<open>The parsers before the last one leave the type as it is.\<close>

lemma sp_type_parsers:
  "parse_align s sp = Inr (a, s', sp') \<Longrightarrow> sp_type sp' = sp_type sp"
  "parse_width s sp = Inr (s', sp') \<Longrightarrow> sp_type sp' = sp_type sp"
  "parse_precision s sp = Inr (s', sp') \<Longrightarrow> sp_type sp' = sp_type sp"
  by (cases s; auto simp: set_align_def split: if_splits)
    (auto simp: parse_width_def parse_precision_def fbind_eq_Inr split: if_splits)

lemma sp_type_parsers_eq:
  "sp_type (snd (parse_sign s sp)) = sp_type sp"
  "sp_type (snd (parse_alternate s sp)) = sp_type sp"
  "sp_type (snd (parse_zero a s sp)) = sp_type sp"
  "sp_type (snd (parse_localize s sp)) = sp_type sp"
  by (simp_all add: parse_sign_def parse_alternate_def parse_zero_def parse_localize_def)

lemma parse_type_allowed:
  assumes "parse_type t s sp = Inr sp'" and "sp_type sp = sp_type (Spec_for_arg t)"
  shows "type_allowed t sp'"
  using assms
  by (auto simp: parse_type_def type_allowed_def Let_def fbind_eq_Inr split: if_splits option.splits)

lemma Spec_parse_allowed: "Spec_parse s t = Inr sp \<Longrightarrow> type_allowed t sp"
proof -
  have rest: "type_allowed t sp'" if "Spec_parse_rest t a s' sp1 = Inr sp'" "sp_type sp1 = sp_type (Spec_for_arg t)" for a s' sp1 sp'
  proof (cases "cur s' = CHR ''}''")
    case True
    then show ?thesis using that by (auto simp: Spec_parse_rest_def type_allowed_def)
  next
    case False
    then show ?thesis using that
      by (auto simp: Spec_parse_rest_def fbind_eq_Inr Let_def case_prod_beta sp_type_parsers_eq
          intro!: parse_type_allowed dest!: sp_type_parsers(2,3))
  qed
  show "Spec_parse s t = Inr sp \<Longrightarrow> type_allowed t sp"
    by (auto simp: Spec_parse_def Let_def fbind_eq_Inr type_allowed_def [of t "Spec_for_arg t"] split: if_splits
        dest!: sp_type_parsers(1) intro: rest)
qed

subsection \<open>Formatting an argument on a string stream\<close>

lemma sint_promoted [simp]:
  "sint (scast (h :: 16 word) :: 32 word) = sint h" "sint (scast (b :: 8 word) :: 32 word) = sint b"
  "sint (ucast (h :: 16 word) :: 32 word) = uint h" "sint (ucast (b :: 8 word) :: 32 word) = uint b"
proof -
  show "sint (scast h :: 32 word) = sint h" "sint (scast b :: 32 word) = sint b"
    by (simp_all add: sint_up_scast is_up)
  show "sint (ucast h :: 32 word) = uint h" "sint (ucast b :: 32 word) = uint b"
    using uint_bounded [of h] uint_bounded [of b] uint_ge_0 [of h] uint_ge_0 [of b]
    by (simp_all add: signed_ucast_eq signed_take_bit_int_eq_self_iff order_trans [OF _ uint_ge_0])
qed

definition is_integer :: "'d cxx_value \<Rightarrow> bool" where
  "is_integer v \<longleftrightarrow> ArgType_index (Formatting_id v) \<in> {1..8}"

lemma va_arg_passed:
  "is_integer v \<Longrightarrow> va_arg_INT (INT_for (Formatting_id v)) (passArg v # args) = Inr (arg_int v, args)"
  by (cases v) (auto simp: is_integer_def)

lemma va_arg_range: "va_arg_INT I args = Inr (i, args') \<Longrightarrow> \<bar>i\<bar> < 2 ^ (8 * sizeof_INT I)"
proof -
  have w: "\<bar>sint (w :: 32 word)\<bar> < 2 ^ 32" "sint w < 2 ^ 32" "\<bar>uint w\<bar> < 2 ^ 32" for w :: "32 word"
    using sint_ge [of w] sint_lt [of w] uint_bounded [of w] by auto
  have q: "\<bar>sint (w :: 64 word)\<bar> < 2 ^ 64" "\<bar>uint w\<bar> < 2 ^ 64" for w :: "64 word"
    using sint_ge [of w] sint_lt [of w] uint_bounded [of w] by auto
  show "va_arg_INT I args = Inr (i, args') \<Longrightarrow> \<bar>i\<bar> < 2 ^ (8 * sizeof_INT I)"
    by (cases "(I, args)" rule: va_arg_INT.cases) (auto simp: sizeof_INT_def simp del: power_numeral split: if_splits intro: w q)
qed

lemma to_chars_fits:
  assumes "va_arg_INT I args = Inr (i, args')" and "2 \<le> base"
  shows "to_chars (1 + 8 * sizeof_INT I) base i = Some (int_text base i)"
proof -
  let ?k = "8 * sizeof_INT I"
  have "(2 :: int) ^ ?k \<le> int base ^ ?k" using assms(2) by (intro power_mono) auto
  then have "\<bar>i\<bar> < int base ^ ?k" using va_arg_range [OF assms(1)] by simp
  moreover have "0 < ?k" by (simp add: sizeof_INT_def)
  ultimately show ?thesis using length_int_text(1) [OF assms(2)] by (simp add: to_chars_def)
qed

text \<open>The text of an integer under a specifier, and of the sign in front of a number that is not negative.\<close>

definition sign_text :: "sign_t \<Rightarrow> string" where
  "sign_text m = (case m of minusOnly \<Rightarrow> '''' | minusPlus \<Rightarrow> ''+'' | minusSpace \<Rightarrow> '' '')"

definition base_of :: "char \<Rightarrow> nat" where
  "base_of t = (if t = CHR ''b'' \<or> t = CHR ''B'' then 2 else if t = CHR ''o'' then 8 else if t = CHR ''x'' \<or> t = CHR ''X'' then 16 else 10)"

definition base_prefix :: "Spec \<Rightarrow> int \<Rightarrow> string" where
  "base_prefix sp i =
     (if sp_alternate sp \<and> sp_type sp \<in> set ''bBxX'' then [CHR ''0'', sp_type sp]
      else if sp_alternate sp \<and> sp_type sp = CHR ''o'' \<and> i \<noteq> 0 then ''0'' else '''')"

definition integer_text :: "Spec \<Rightarrow> int \<Rightarrow> string" where
  "integer_text sp i =
     (if i \<ge> 0 then sign_text (sp_sign sp) else '''') @ base_prefix sp i @
     (if sp_type sp = CHR ''X'' then upperize (int_text 16 i) else int_text (base_of (sp_type sp)) i)"

lemma writeNonNegativeSign_string: "writeNonNegativeSign stringstream_write out m = Inr (out @ sign_text m)"
  by (cases m) (simp_all add: writeNonNegativeSign_def sign_text_def)

lemma vformat_integer_string:
  assumes va: "va_arg_INT I args = Inr (i, args')" and type: "sp_type sp = NUL \<or> sp_type sp \<in> set ''dbBoxX''"
  shows "vformat_integer I stringstream_write out sp args = Inr (out @ integer_text sp i, args')"
proof -
  have fits: "to_chars (Suc (8 * sizeof_INT I)) base i = Some (int_text base i)" if "2 \<le> base" for base
    using to_chars_fits [OF va that] by simp
  have zero: "to_chars (Suc (8 * sizeof_INT I)) base 0 = Some (int_text base 0)" if "2 \<le> base" "i = 0" for base
    using fits [OF that(1)] that(2) by simp
  show ?thesis
    using type
    by (auto simp: zero vformat_integer_def va writeNonNegativeSign_string baseForInt_def Let_def fits integer_text_def
        base_of_def base_prefix_def)
qed

text \<open>The text of an argument, where it can be formatted, and the error otherwise do not depend on what was printed before.\<close>

definition printable :: "'d fp \<Rightarrow> Spec \<Rightarrow> 'd cxx_value \<Rightarrow> bool" where
  "printable fp sp v \<longleftrightarrow>
     (\<exists>t. \<forall>out args. vformat_arg_nowidth fp stringstream_write out sp (Formatting_id v) (passArg v # args) = Inr (out @ t, args))"

definition unprintable :: "'d fp \<Rightarrow> Spec \<Rightarrow> 'd cxx_value \<Rightarrow> bool" where
  "unprintable fp sp v \<longleftrightarrow>
     (\<exists>e. \<forall>out args. vformat_arg_nowidth fp stringstream_write out sp (Formatting_id v) (passArg v # args) = Inl e)"

lemma allowed_cases:
  assumes "type_allowed (Formatting_id v) sp"
  shows "is_integer v \<Longrightarrow> Formatting_id v \<noteq> AT_Bool \<Longrightarrow> sp_type sp = NUL \<or> sp_type sp \<in> set ''cdbBoxX''"
    and "Formatting_id v = AT_Bool \<Longrightarrow> sp_type sp = NUL \<or> sp_type sp \<in> set ''sdbBoxX''"
    and "Formatting_id v = AT_Double \<Longrightarrow> sp_type sp = NUL \<or> sp_type sp \<in> set ''aAeEfFgG''"
    and "Formatting_id v \<in> {AT_CString, AT_String} \<Longrightarrow> sp_type sp = NUL \<or> sp_type sp = CHR ''s''"
    and "Formatting_id v = AT_StringView \<Longrightarrow> sp_type sp = NUL \<or> sp_type sp \<in> set ''spP''"
    and "Formatting_id v = AT_Pointer \<Longrightarrow> sp_type sp = NUL \<or> sp_type sp \<in> set ''ps''"
    and "Formatting_id v = AT_Arg \<Longrightarrow> sp_type sp = NUL"
  using assms
  by (cases v;
      auto simp: type_allowed_def kValidTypeCharsForArgType_def Spec_for_arg_def kDefaultTypeCharForArgType_def
        Spec_default_def is_integer_def)+

lemma nowidth_integer:
  assumes "is_integer v" and "\<not> (Formatting_id v = AT_Bool \<and> sp_type sp \<in> {NUL, CHR ''s''})"
    and "\<not> (Formatting_id v = AT_Char \<and> sp_type sp \<in> {NUL, CHR ''c''})"
  shows "vformat_arg_nowidth fp put out sp (Formatting_id v) args = vformat_integer (INT_for (Formatting_id v)) put out sp args"
  using assms by (cases v) (auto simp: vformat_arg_nowidth_def is_integer_def)

lemma integer_prints:
  assumes allowed: "type_allowed (Formatting_id v) sp" and int: "is_integer v"
  shows "if arg_safe fp sp v then printable fp sp v else unprintable fp sp v"
proof -
  note va = va_arg_passed [OF int]
  consider (bool) "Formatting_id v = AT_Bool" "sp_type sp \<in> {NUL, CHR ''s''}"
    | (char) "Formatting_id v = AT_Char" "sp_type sp \<in> {NUL, CHR ''c''}"
    | (other) "\<not> (Formatting_id v = AT_Bool \<and> sp_type sp \<in> {NUL, CHR ''s''})" "\<not> (Formatting_id v = AT_Char \<and> sp_type sp \<in> {NUL, CHR ''c''})"
    by blast
  then show ?thesis
  proof cases
    case bool
    then show ?thesis by (cases v) (auto simp: printable_def vformat_arg_nowidth_def)
  next
    case char
    then show ?thesis by (cases v) (auto simp: printable_def vformat_arg_nowidth_def)
  next
    case other
    note eq = nowidth_integer [OF int other]
    show ?thesis
    proof (cases "sp_type sp = CHR ''c''")
      case True
      then have "Formatting_id v \<notin> {AT_Bool, AT_Char}" using other allowed_cases(2) [OF allowed] by auto
      then have "arg_safe fp sp v \<longleftrightarrow> 0 \<le> arg_int v \<and> arg_int v \<le> 127" using int True by (cases v) (auto simp: is_integer_def)
      then show ?thesis using True by (auto simp: printable_def unprintable_def eq vformat_integer_def va)
    next
      case False
      then have "sp_type sp = NUL \<or> sp_type sp \<in> set ''dbBoxX''"
        using allowed_cases(1,2) [OF allowed] int other by (cases "Formatting_id v = AT_Bool") auto
      moreover have "arg_safe fp sp v" using int False by (cases v) (auto simp: is_integer_def)
      ultimately show ?thesis by (auto simp: printable_def eq vformat_integer_string [OF va])
    qed
  qed
qed

lemma append_point_Ok:
  "length buf \<le> double_buf \<Longrightarrow>
     append_point alt buf =
       (if alt \<and> length buf = double_buf \<and> CHR ''.'' \<notin> set buf then Inl FUndefined
        else Inr (buf @ (if alt \<and> CHR ''.'' \<notin> set buf then ''.'' else '''')))"
  by (auto simp: append_point_def)

lemma length_upperize [simp]: "length (upperize s) = length s"
  by (simp add: upperize_def)

lemma vformat_double_string:
  assumes ok: "fp_ok fp" and type: "sp_type sp = NUL \<or> sp_type sp \<in> set ''aAeEfFgG''"
  shows "vformat_double fp stringstream_write out sp d =
           fbind (if length (double_text fp sp d) > double_buf then Inr ''FIELD OVERFLOW''
                  else append_point (sp_alternate sp) (double_text fp sp d))
             (\<lambda>t. Inr (out @ (if fp_nonneg fp d then sign_text (sp_sign sp) else '''') @ t))"
proof (cases "sp_type sp = NUL \<and> sp_precision sp = kDefaultPrecision")
  case True
  have "length (fp_shortest fp d) \<le> double_buf" using ok by (simp add: fp_ok_def double_buf_def order_trans [of _ 24])
  then show ?thesis using True
    by (simp add: vformat_double_def writeNonNegativeSign_string double_text_def Let_def)
next
  case False
  obtain f where f: "chars_format_for (sp_type sp) = Inr f" using type by (auto simp: chars_format_for_def)
  show ?thesis
    by (simp add: vformat_double_def writeNonNegativeSign_string double_text_def Let_def f False)
qed

lemma double_prints:
  assumes "fp_ok fp" and "sp_type sp = NUL \<or> sp_type sp \<in> set ''aAeEfFgG''"
  shows "if arg_safe fp sp (V_double d) then printable fp sp (V_double d) else unprintable fp sp (V_double d)"
proof (cases "length (double_text fp sp d) > double_buf")
  case True
  then show ?thesis
    by (auto simp: printable_def vformat_arg_nowidth_def vformat_double_string [OF assms])
next
  case False
  then show ?thesis
    by (auto simp: printable_def unprintable_def vformat_arg_nowidth_def vformat_double_string [OF assms] append_point_Ok)
qed

lemma float_as_double:
  "arg_safe fp sp (V_float d) = arg_safe fp sp (V_double d)" "printable fp sp (V_float d) = printable fp sp (V_double d)"
  "unprintable fp sp (V_float d) = unprintable fp sp (V_double d)"
  by (simp_all add: printable_def unprintable_def)

lemma arg_prints:
  assumes "fp_ok fp" and "type_allowed (Formatting_id v) sp"
  shows "if arg_safe fp sp v then printable fp sp v else unprintable fp sp v"
proof -
  consider "is_integer v" | d where "v = V_double d \<or> v = V_float d" | "\<not> is_integer v" "Formatting_id v \<noteq> AT_Double"
    by (cases v) (auto simp: is_integer_def)
  then show ?thesis
  proof cases
    case 1
    then show ?thesis by (rule integer_prints [OF assms(2)])
  next
    case (2 d)
    then have "Formatting_id v = AT_Double" by auto
    then have "if arg_safe fp sp (V_double d) then printable fp sp (V_double d) else unprintable fp sp (V_double d)"
      by (intro double_prints [OF assms(1)] allowed_cases(3) [OF assms(2)])
    then show ?thesis using 2 float_as_double [of fp sp d] by metis
  next
    case 3
    note allowed = allowed_cases(4-7) [OF assms(2)]
    note defs = printable_def unprintable_def vformat_arg_nowidth_def vformat_string_def
    show ?thesis
    proof (cases v)
      case (V_pointer p)
      then show ?thesis using allowed(3)
        by (auto simp: defs write_pointer_def writeUInt64_def to_chars_decimal)
    qed (use 3 allowed in \<open>auto simp: defs is_integer_def Let_def\<close>)
  qed
qed

subsection \<open>Width and alignment\<close>

definition pad_text :: "Spec \<Rightarrow> string \<Rightarrow> string" where
  "pad_text sp t =
     (if length t \<ge> sp_width sp then t else fst (padding sp (length t)) @ t @ snd (padding sp (length t)))"

lemma length_pad_text: "length (pad_text sp t) = max (sp_width sp) (length t)"
  by (cases "sp_align sp") (auto simp: pad_text_def padding_def Let_def)

lemma padding_fill:
  "set (fst (padding sp n)) \<subseteq> {sp_fill sp}" "set (snd (padding sp n)) \<subseteq> {sp_fill sp}"
  by (cases "sp_align sp"; auto simp: padding_def Let_def)+

lemma vformat_arg_pads:
  assumes "\<And>out args. vformat_arg_nowidth fp stringstream_write out sp ty (a # args) = Inr (out @ t, args)"
  shows "vformat_arg fp stringstream_write out sp ty (a # args) = Inr (out @ pad_text sp t, args)"
  by (cases "sp_align sp") (auto simp: vformat_arg_def assms pad_text_def padding_def Let_def)

lemma vformat_arg_fails:
  assumes "\<And>out args. vformat_arg_nowidth fp stringstream_write out sp ty (a # args) = Inl e"
  shows "vformat_arg fp stringstream_write out sp ty (a # args) = Inl e"
  by (simp add: vformat_arg_def assms)

lemma arg_prints_padded:
  assumes "fp_ok fp" and "type_allowed (Formatting_id v) sp"
  shows "if arg_safe fp sp v
         then \<exists>t. \<forall>out args. vformat_arg fp stringstream_write out sp (Formatting_id v) (passArg v # args) = Inr (out @ t, args)
         else \<exists>e. \<forall>out args. vformat_arg fp stringstream_write out sp (Formatting_id v) (passArg v # args) = Inl e"
proof (cases "arg_safe fp sp v")
  case True
  then obtain t where "\<forall>out args. vformat_arg_nowidth fp stringstream_write out sp (Formatting_id v) (passArg v # args) = Inr (out @ t, args)"
    using arg_prints [OF assms] by (simp only: printable_def if_True) blast
  then have "vformat_arg fp stringstream_write out sp (Formatting_id v) (passArg v # args) = Inr (out @ pad_text sp t, args)" for out args
    by (intro vformat_arg_pads) simp
  then show ?thesis using True by auto
next
  case False
  then obtain e where "\<forall>out args. vformat_arg_nowidth fp stringstream_write out sp (Formatting_id v) (passArg v # args) = Inl e"
    using arg_prints [OF assms] by (simp only: unprintable_def if_False) blast
  then have "vformat_arg fp stringstream_write out sp (Formatting_id v) (passArg v # args) = Inl e" for out args
    by (intro vformat_arg_fails) simp
  then show ?thesis using False by auto
qed

subsection \<open>Type soundness\<close>

lemma default_safe: "arg_safe fp Spec_default v"
  by (cases v) (auto simp: Spec_default_def)

lemma extra_prints:
  assumes "fp_ok fp"
  shows "\<exists>s. vformat_extra fp stringstream_write delim (map Formatting_id vs) (map passArg vs) out = Inr s"
proof (induction vs arbitrary: delim out)
  case (Cons v vs)
  obtain t where "\<forall>out args. vformat_arg fp stringstream_write out Spec_default (Formatting_id v) (passArg v # args) = Inr (out @ t, args)"
    using arg_prints_padded [OF assms type_allowed_default, of v] default_safe [of fp v] by (simp only: if_True) blast
  moreover have "Formatting_id v \<noteq> AT_None" by (cases v) auto
  ultimately show ?case using Cons stringstream_write_eq [of delim out] by (simp del: stringstream_write_eq)
qed simp

abbreviation all_safe :: "'d fp \<Rightarrow> Spec list \<Rightarrow> 'd cxx_value list \<Rightarrow> bool" where
  "all_safe fp sps vs \<equiv> \<forall>(sp, v) \<in> set (zip sps vs). arg_safe fp sp v"

text \<open>Interpreting what was compiled succeeds exactly if the arguments of its specifiers are safe.\<close>

definition sound_for :: "'d fp \<Rightarrow> string \<Rightarrow> 'd cxx_value list \<Rightarrow> Spec list \<Rightarrow> bool" where
  "sound_for fp rest vs sps \<longleftrightarrow>
     length sps \<le> length vs \<and>
     (\<forall>out. if all_safe fp sps vs
            then \<exists>s. interpret_format fp rest (map Formatting_id vs) (map passArg vs) out =
                   Inr (s, map Formatting_id (drop (length sps) vs), map passArg (drop (length sps) vs))
            else \<exists>e. interpret_format fp rest (map Formatting_id vs) (map passArg vs) out = Inl e)"

lemma sound_literal: "\<forall>c \<in> set pre. \<not> is_brace c \<Longrightarrow> sound_for fp s vs sps \<Longrightarrow> sound_for fp (pre @ s) vs sps"
  by (simp add: sound_for_def interpret_plain)

lemma sound_escape: "is_brace c \<Longrightarrow> sound_for fp s vs sps \<Longrightarrow> sound_for fp (c # c # s) vs sps"
  by (simp add: sound_for_def)

lemma sound_spec:
  assumes ok: "fp_ok fp" and cur: "cur s \<noteq> CHR ''{''" and parse: "Spec_parse s (Formatting_id v) = Inr sp"
    and rest: "sound_for fp (after_spec s) vs sps"
  shows "sound_for fp (CHR ''{'' # s) (v # vs) (sp # sps)"
proof (cases "arg_safe fp sp v")
  case True
  then obtain t where "\<forall>out args. vformat_arg fp stringstream_write out sp (Formatting_id v) (passArg v # args) = Inr (out @ t, args)"
    using arg_prints_padded [OF ok Spec_parse_allowed [OF parse]] by (simp only: if_True) blast
  then show ?thesis using rest True parse cur by (simp add: sound_for_def is_brace_def)
next
  case False
  then obtain e where "\<forall>out args. vformat_arg fp stringstream_write out sp (Formatting_id v) (passArg v # args) = Inl e"
    using arg_prints_padded [OF ok Spec_parse_allowed [OF parse]] by (simp only: if_False) blast
  then show ?thesis using rest False parse cur by (simp add: sound_for_def is_brace_def)
qed

lemma parse_loop_sound:
  assumes "fp_ok fp"
  shows "parse_loop rest (map Formatting_id vs) im = Inr im' \<Longrightarrow>
           \<exists>sps. im_specs im' = im_specs im @ sps \<and> sound_for fp rest vs sps"
proof (induction "length rest" arbitrary: rest vs im rule: less_induct)
  case less
  from less.prems show ?case
  proof (cases rule: parse_loop_cases)
    case plain
    have "sound_for fp [] vs []" by (simp add: sound_for_def)
    then show ?thesis using sound_literal [OF plain(1), of fp "[]"] addSegment_Ok(1) [OF plain(2)] by auto
  next
    case (escape pre c s im1 im2)
    then obtain sps where "im_specs im' = im_specs im2 @ sps" "sound_for fp s vs sps" using less.hyps [of s vs im2] by auto
    then show ?thesis
      using sound_literal [OF escape(2) sound_escape [OF escape(3)]] escape(1) addSegment_Ok(1) [OF escape(4)] addSegment_Ok(1) [OF escape(5)]
      by auto
  next
    case (spec pre s im1 ts1 im2 im3)
    obtain t sp where t: "map Formatting_id vs = t # ts1" "Spec_parse s t = Inr sp" "im2 = im1\<lparr>im_specs := im_specs im1 @ [sp]\<rparr>"
      using spec(5) by (rule parse_spec_Ok)
    then obtain v vs1 where v: "vs = v # vs1" "t = Formatting_id v" "ts1 = map Formatting_id vs1" by (cases vs) auto
    obtain sps where sps: "im_specs im' = im_specs im3 @ sps" "sound_for fp (after_spec s) vs1 sps"
      using less.hyps [of "after_spec s" vs1 im3] spec(1,7) v(3) length_after_spec [of s] by auto
    have "sound_for fp (pre @ CHR ''{'' # s) vs (sp # sps)"
      using sound_literal [OF spec(2) sound_spec [OF assms spec(3) _ sps(2)]] t(2) v by simp
    then show ?thesis
      using sps(1) spec(1) t(3) addSegment_Ok(1) [OF spec(4)] addSegment_Ok(1) [OF spec(6)] by auto
  qed
qed

lemma sound_forD:
  "sound_for fp rest vs sps \<Longrightarrow>
     if all_safe fp sps vs
     then \<exists>s. interpret_format fp rest (map Formatting_id vs) (map passArg vs) out =
            Inr (s, map Formatting_id (drop (length sps) vs), map passArg (drop (length sps) vs))
     else \<exists>e. interpret_format fp rest (map Formatting_id vs) (map passArg vs) out = Inl e"
  unfolding sound_for_def by blast

text \<open>
  C22. A format string that compiled against the types of its arguments prints them if and only if each argument that has a
  specifier is safe under it: the compile-time check leaves the formatter no other way to fail.
\<close>

theorem format_type_sound:
  assumes "fp_ok fp" and "FormatString cstr vals = Inr im"
  shows "(\<exists>s. format fp im vals = Inr s) \<longleftrightarrow> (\<forall>(sp, v) \<in> set (zip (im_specs im) vals). arg_safe fp sp v)"
proof -
  have parse: "BaseFormatString_parse cstr (map Formatting_id vals) = Inr im" using assms(2) by (simp add: FormatString_def)
  then obtain sps where sps: "im_specs im = sps" "sound_for fp cstr vals sps"
    using parse_loop_sound [OF assms(1)] by (fastforce simp: BaseFormatString_parse_def)
  note run = compiled_run [OF parse, of fp "map passArg vals"]
  show ?thesis
  proof (cases "all_safe fp sps vals")
    case True
    then obtain s where "interpret_format fp cstr (map Formatting_id vals) (map passArg vals) [] =
        Inr (s, map Formatting_id (drop (length sps) vals), map passArg (drop (length sps) vals))"
      using sound_forD [OF sps(2), of "[]"] by (simp only: if_P [OF True]) blast
    then show ?thesis using True sps(1) extra_prints [OF assms(1), of "'' : ''" "drop (length sps) vals" s]
      by (simp add: format_def vformat_types_def vformat_types_to_def run)
  next
    case False
    then obtain e where "interpret_format fp cstr (map Formatting_id vals) (map passArg vals) [] = Inl e"
      using sound_forD [OF sps(2), of "[]"] by (simp only: if_not_P [OF False] if_False) blast
    then show ?thesis using False sps(1) by (simp add: format_def vformat_types_def vformat_types_to_def run)
  qed
qed

lemma fp_ok_integral: "fp_ok integral_fp"
  by (simp add: fp_ok_def integral_fp_def)

lemma char_example:
  "FormatString ''{:c}'' [V_int 200 :: int cxx_value] =
     Inr \<lparr>im_str = ''{:c}'', im_lengths = [4],
          im_specs = [\<lparr>sp_type = CHR ''c'', sp_fill = CHR '' '', sp_width = 0, sp_precision = 255, sp_align = Align_right,
                       sp_sign = minusOnly, sp_alternate = False, sp_localize = False\<rparr>]\<rparr>"
  by (simp add: FormatString_def BaseFormatString_parse_def format_eval)

theorem format_type_sound_witness:
  "\<not> (\<exists>s. format integral_fp \<lparr>im_str = ''{:c}'', im_lengths = [4],
          im_specs = [\<lparr>sp_type = CHR ''c'', sp_fill = CHR '' '', sp_width = 0, sp_precision = 255, sp_align = Align_right,
                       sp_sign = minusOnly, sp_alternate = False, sp_localize = False\<rparr>]\<rparr> [V_int 200] = Inr s)"
  using format_type_sound [OF fp_ok_integral char_example] by simp

text \<open>
  C25. Because two entries of the table of valid type characters are joined, the specifier for pointers is refused for a pointer
  and accepted for a string view, the one for strings is accepted for a pointer, and the formatter then throws at run time. The
  specifier for strings reads a null table entry for an argument that is printed by its own operator.
\<close>

theorem type_table_shifted:
  "FormatString ''{:p}'' [V_pointer p] = Inl (format_error ''invalid format spec: invalid spec for argument'') \<and>
   (\<exists>im. FormatString ''{:s}'' [V_pointer p] = Inr im \<and>
         format fp im [V_pointer p] = Inl (format_error ''invalid type for pointer arg'')) \<and>
   (\<exists>im. FormatString ''{:p}'' [V_string_view s] = Inr im \<and>
         format fp im [V_string_view s] = Inl (format_error ''invalid type for string arg'')) \<and>
   FormatString ''{:s}'' [V_ostreamable s] = Inl FUndefined"
proof (intro conjI)
  note parse = FormatString_def BaseFormatString_parse_def format_eval Let_def
  note run = format_def vformat_types_def vformat_types_to_def it_begin_def iterator_defs vformat_arg_def vformat_arg_nowidth_def
    vformat_string_def
  show "FormatString ''{:p}'' [V_pointer p] = Inl (format_error ''invalid format spec: invalid spec for argument'')"
    by (simp add: parse)
  show "\<exists>im. FormatString ''{:s}'' [V_pointer p] = Inr im \<and>
      format fp im [V_pointer p] = Inl (format_error ''invalid type for pointer arg'')"
    by (simp add: parse run)
  show "\<exists>im. FormatString ''{:p}'' [V_string_view s] = Inr im \<and>
      format fp im [V_string_view s] = Inl (format_error ''invalid type for string arg'')"
    by (simp add: parse run)
  show "FormatString ''{:s}'' [V_ostreamable s] = Inl FUndefined"
    by (simp add: parse)
qed

text \<open>
  C26. The alternate form of a floating-point number whose text fills the buffer and has no point writes the point outside of
  the buffer.
\<close>

theorem alternate_double_overflows:
  assumes "length (fp_to_chars fp d fixed 0) = double_buf" and "CHR ''.'' \<notin> set (fp_to_chars fp d fixed 0)"
  shows "\<exists>im. FormatString ''{:#.0f}'' [V_double d] = Inr im \<and> format fp im [V_double d] = Inl FUndefined"
  using assms
  by (simp add: FormatString_def BaseFormatString_parse_def format_eval format_def vformat_types_def vformat_types_to_def
      it_begin_def iterator_defs vformat_arg_def vformat_arg_nowidth_def vformat_double_def writeNonNegativeSign_def
      chars_format_for_def append_point_def isupper_def)

lemma digits_round: "digits 10 (2 * 10 ^ k) = CHR ''2'' # replicate k (CHR ''0'')"
proof (induction k)
  case 0
  show ?case by (simp add: digits.simps digit_char_def)
next
  case (Suc k)
  have "digits 10 (2 * 10 ^ Suc k) = digits 10 (2 * 10 ^ k) @ [digit_char 0]"
    by (subst digits.simps) simp
  then show ?case by (simp add: Suc digit_char_def replicate_append_same)
qed

theorem alternate_double_overflows_witness:
  "\<exists>im. FormatString ''{:#.0f}'' [V_double (2 * 10 ^ 59 :: int)] = Inr im \<and> format integral_fp im [V_double (2 * 10 ^ 59)] = Inl FUndefined"
proof (rule alternate_double_overflows)
  have digits: "fp_to_chars integral_fp (2 * 10 ^ 59) fixed 0 = CHR ''2'' # replicate 59 (CHR ''0'')"
    using digits_round [of 59] by (simp add: integral_fp_def int_text_def)
  show "length (fp_to_chars integral_fp (2 * 10 ^ 59) fixed 0) = double_buf"
    unfolding digits by (simp add: double_buf_def)
  show "CHR ''.'' \<notin> set (fp_to_chars integral_fp (2 * 10 ^ 59) fixed 0)"
    unfolding digits by simp
qed

subsection \<open>Integers read back\<close>

lemma Spec_parse_type_char:
  assumes "t \<in> set ''dbBox''" and "ArgType_index ty \<in> {1..8}"
  shows "Spec_parse (CHR '':'' # t # ''}'') ty = Inr (Spec_for_arg ty\<lparr>sp_type := t\<rparr>)"
  using assms
  by (cases ty)
    (auto simp: Spec_parse_def Spec_parse_rest_def parse_sign_def parse_alternate_def parse_zero_def parse_width_def
      parse_precision_def parse_localize_def parse_type_def is_align_def isdigit_def isalpha_def
      kValidTypeCharsForArgType_def Let_def)

lemma FormatString_type_char:
  assumes t: "t \<in> set ''dbBox''" and int: "is_integer v"
  shows "FormatString (CHR ''{'' # CHR '':'' # t # ''}'') [v] =
           Inr \<lparr>im_str = CHR ''{'' # CHR '':'' # t # ''}'', im_lengths = [4], im_specs = [Spec_for_arg (Formatting_id v)\<lparr>sp_type := t\<rparr>]\<rparr>"
proof -
  have "t \<noteq> CHR ''}''" using t by auto
  then show ?thesis
    using Spec_parse_type_char [OF t, of "Formatting_id v"] int
    by (simp add: FormatString_def BaseFormatString_parse_def parse_loop.simps is_brace_def addSegment_def parse_spec_def
        kMaxSpecs_def kMaxSegments_def spec_text_def after_spec_def is_integer_def)
qed

lemma Spec_for_arg_plain [simp]:
  "sp_width (Spec_for_arg ty) = 0" "sp_sign (Spec_for_arg ty) = minusOnly" "sp_alternate (Spec_for_arg ty) = False"
  by (simp_all add: Spec_for_arg_def Spec_default_def Let_def)

text \<open>
  C24. An integer of any of the C++ integer types, printed in decimal, binary, octal or hexadecimal, reads back in that base as the
  same number.
\<close>

theorem integer_format_reads_back:
  assumes "t \<in> set ''dbBox''" and "is_integer v"
  shows "\<exists>im s. FormatString (''{:'' @ [t] @ ''}'') [v] = Inr im \<and> format fp im [v] = Inr s \<and> read_int (base_of t) s = arg_int v"
proof -
  define sp where "sp = Spec_for_arg (Formatting_id v)\<lparr>sp_type := t\<rparr>"
  have t: "sp_type sp = t" "sp_type sp \<in> set ''dbBoxX''" "sp_type sp \<notin> {NUL, CHR ''s'', CHR ''c'', CHR ''X''}"
    using assms(1) by (auto simp: sp_def)
  have "vformat_arg fp stringstream_write [] sp (Formatting_id v) [passArg v] = Inr (integer_text sp (arg_int v), [])"
    using nowidth_integer [OF assms(2), of sp fp stringstream_write "[]"] t
      vformat_integer_string [OF va_arg_passed [OF assms(2)], of sp "[]" "[]"]
    by (simp add: vformat_arg_def sp_def)
  moreover have "integer_text sp (arg_int v) = int_text (base_of t) (arg_int v)"
    using t by (simp add: integer_text_def base_prefix_def sign_text_def sp_def)
  moreover have "read_int (base_of t) (int_text (base_of t) (arg_int v)) = arg_int v"
    by (rule read_int_text) (auto simp: base_of_def)
  ultimately show ?thesis
    using FormatString_type_char [OF assms]
    by (simp add: format_def vformat_types_def vformat_types_to_def it_begin_def iterator_defs sp_def)
qed

theorem integer_format_reads_back_witness:
  "\<exists>im s. FormatString (''{:'' @ [CHR ''x''] @ ''}'') [V_short 0xFFFE :: int cxx_value] = Inr im \<and> format integral_fp im [V_short 0xFFFE] = Inr s \<and>
     read_int (base_of (CHR ''x'')) s = - 2"
  using integer_format_reads_back [of "CHR ''x''" "V_short 0xFFFE" integral_fp] by (simp add: is_integer_def)

end
