(* ===== verification/Spec2Isabelle.thy ===== *)
theory Spec2Isabelle
  imports Varint WakeRace Future Queue WebSocket URL BlipConnection MiniFormatTypes
begin

text \<open>
  Verification of Crouton, a C++20 runtime for coroutines with networking on top of it. File names are relative to the root of
  the repository's sources; headers are in \<^verbatim>\<open>include/crouton/\<close>.

  \<^bold>\<open>The program and its parts\<close>. Coroutines run on a per-thread scheduler. A coroutine that waits is suspended in the scheduler's table
  and is woken by whoever has what it waits for, possibly on another thread. Conditions, blockers, mutexes, \<^verbatim>\<open>Select\<close>, futures and
  queues are built on suspensions. The WebSocket layer cuts messages into frames and puts them together again, and BLIP runs
  requests and responses over a WebSocket: messages are built, compressed, cut into frames, interleaved, received and dispatched to handlers.
  Below all of this are errors, byte buffers, varints, an intrusive list, string helpers and a formatter.

  \<^bold>\<open>Conventions\<close> (theory \<open>Crouton_Prelude\<close>). An operation that can fail returns an \<open>outcome\<close>: a value, a thrown error with its domain and
  code, termination by a failed assertion, undefined behaviour, or a loop that does not end. Machine integers are words
  wherever their width matters. Classes are records, and objects that are reached through several pointers are entries of a table or a
  store. A coroutine is the function that runs it from one suspension to the next. Code of other projects is an argument.

  \<^bold>\<open>Foundations\<close>.
  \<^item> \<open>Errors\<close>: \<^verbatim>\<open>Error.hh\<close>, \<^verbatim>\<open>src/Error.cc\<close>, \<^verbatim>\<open>Result.hh\<close>. The stored 18-bit code and the table of domains; an error converts back to the
    enum it was made from.
  \<^item> \<open>Bytes\<close>: \<^verbatim>\<open>util/Bytes.hh\<close>, \<^verbatim>\<open>src/support/Endian.hh\<close>. Byte ranges, the buffer and byte order.
  \<^item> \<open>Varint\<close>: \<^verbatim>\<open>util/Varint.hh\<close>, \<^verbatim>\<open>src/support/Varint.cc\<close>. Encoder and decoder are inverse on all 64-bit numbers.
  \<^item> \<open>Fifo\<close> and \<open>LinkedList\<close>: the contract of a first-in first-out container as a locale, and \<^verbatim>\<open>util/LinkedList.hh\<close> over an explicit store of
    pointers. The locale is interpreted on the intrusive list, on \<^verbatim>\<open>std::deque\<close>, and in \<open>Scheduler\<close> on the ready queue.
  \<^item> \<open>StringUtils\<close>, \<open>URL\<close>: \<^verbatim>\<open>src/support/StringUtils.cc\<close>, \<^verbatim>\<open>src/io/URL.cc\<close>. A URL put together from its parts parses into them again.
  \<^item> \<open>MiniOStream\<close>, \<open>MiniFormat\<close>, \<open>MiniFormatTypes\<close>: \<^verbatim>\<open>util/MiniOStream.hh\<close>, \<^verbatim>\<open>util/MiniFormat.hh\<close> and their \<^verbatim>\<open>src/support/\<close> files. The locale \<open>ostream\<close> is the contract of
    a stream, interpreted on \<^verbatim>\<open>stringstream\<close> and \<^verbatim>\<open>bufstream\<close>. Compiled format strings print what a direct interpretation prints, the compile-time
    check of the argument types leaves exactly four ways to fail at run time, and integers read back.

  \<^bold>\<open>Coroutines\<close>.
  \<^item> \<open>Lifecycle\<close>: \<^verbatim>\<open>src/CoroLifecycle.cc\<close>. The hooks that track coroutines refine abstract stacks, one for each thread.
  \<^item> \<open>Scheduler\<close>: \<^verbatim>\<open>src/Scheduler.cc\<close>, \<^verbatim>\<open>Scheduler.hh\<close>. The invariant of ready queue and suspension table is kept by every operation, and
    a suspended coroutine that is woken is resumed.
  \<^item> \<open>WakeRace\<close>: the hand-over of \<^verbatim>\<open>Suspension::wakeUp\<close> and \<^verbatim>\<open>Scheduler::scheduleWakers\<close> as an inductive step relation on their atomic operations; no
    interleaving loses a wake-up.
  \<^item> \<open>CoCondition\<close>, \<open>Select\<close>, \<open>Future\<close>, \<open>Queue\<close>: \<^verbatim>\<open>src/CoCondition.cc\<close>, \<^verbatim>\<open>CoMutex\<close> of \<^verbatim>\<open>src/Coroutine.cc\<close>, \<^verbatim>\<open>src/Select.cc\<close>, \<^verbatim>\<open>src/Future.cc\<close>, \<^verbatim>\<open>Queue.hh\<close>. What an awaiting coroutine
    gets, in whichever order provider and consumer come; chains of callbacks resolve; mutual exclusion, and that an unlocked mutex is passed on; items
    leave a queue in order, and a closed queue is drained.

  \<^bold>\<open>WebSockets\<close>.
  \<^item> \<open>Masking\<close>, \<open>Utf8\<close>, \<open>WebSocketProtocol\<close>: \<^verbatim>\<open>src/io/WebSocketProtocol.hh\<close>. The masking loops equal the protocol's definition, the validator accepts exactly UTF-8,
    and the parser refines a machine that is fed single bytes. The locale \<open>fragment_sink\<close> is what the parser needs of its callback.
  \<^item> \<open>WebSocket\<close>: \<^verbatim>\<open>src/io/WebSocket.cc\<close>, with the interpretation of \<open>fragment_sink\<close>. Messages that one side sends arrive at the other, however
    the stream is cut into chunks; control frames split a fragmented message.

  \<^bold>\<open>BLIP\<close> (\<^verbatim>\<open>src/io/blip/\<close>).
  \<^item> \<open>BlipMessage\<close>: \<^verbatim>\<open>MessageBuilder.cc\<close> and the accessors of \<^verbatim>\<open>Message.cc\<close>; what the builder was given is found again.
  \<^item> \<open>Codec\<close>: \<^verbatim>\<open>Codec.cc\<close>, with the functions of miniz as the record \<open>miniz\<close>. Its law \<open>crc_ok\<close> says that the checksum of a concatenation is
    computed in steps; \<open>stored_miniz\<close> is an instance.
  \<^item> \<open>BlipIO\<close>: \<^verbatim>\<open>MessageOut.cc\<close>, \<^verbatim>\<open>Message.cc\<close>, \<^verbatim>\<open>BLIPIO.cc\<close>: the boxes of outgoing messages, frames, acknowledgements, responses and closing.
  \<^item> \<open>BlipDelivery\<close>, \<open>BlipRequests\<close>: requests sent uncompressed arrive complete and unaltered, whatever the interleaving of their frames.
  \<^item> \<open>BlipFlow\<close>: acknowledgements thaw a frozen message; when an acknowledgement misses its message; what closing drops and
    that the connection is then stuck; which frames are too short.
  \<^item> \<open>BlipConnection\<close>: \<^verbatim>\<open>Dispatcher.cc\<close>, \<^verbatim>\<open>Connection.cc\<close>. A request is answered by its handler and the response resolves the future of the
    caller; what happens without a handler and when a handler throws. Handlers are arguments.

  \<^bold>\<open>Loops\<close>. Most loops are structural or have a measure. The others are partial functions to an option type, without fuel, where
  \<open>None\<close> is a loop that does not end. For the list and condition loops and the walk along the stacks of coroutines it is proved that they
  return on well-formed states, for \<open>setResult\<close> that it returns in every world of futures that their operations reach, and for \<open>frame_loop\<close> that it
  returns on uncompressed data. The loops \<open>writeAndFlush_loop\<close> and \<open>writeAll_loop\<close> end only if miniz makes progress and \<open>runUntil\<close> only if
  its condition comes true; nothing is claimed of their ending. The formatter's limits (10 specifiers, 21 segments, 255 bytes in a segment) are those
  of the code.

  \<^bold>\<open>Not modelled\<close>. The language's coroutine frames with \<^verbatim>\<open>Generator.hh\<close>, \<^verbatim>\<open>Producer.hh\<close>, \<^verbatim>\<open>Task.hh\<close>, \<^verbatim>\<open>Actor.hh\<close> and \<^verbatim>\<open>PubSub.hh\<close>, which are templates over them,
  and \<^verbatim>\<open>util/Relation.hh\<close>, which links a \<^verbatim>\<open>Producer\<close> to its consumer. Input and output: the event loops, streams, sockets, files and TLS of
  \<^verbatim>\<open>src/io/uv\<close>, \<^verbatim>\<open>src/io/esp32\<close>, \<^verbatim>\<open>src/io/apple\<close>, \<^verbatim>\<open>src/io/mbed\<close>, with \<^verbatim>\<open>IStream.cc\<close>, \<^verbatim>\<open>Framer.cc\<close>, \<^verbatim>\<open>ISocket.cc\<close> and \<^verbatim>\<open>Process.cc\<close>. HTTP, which drives
  the parser llhttp, and with it the handshake of a WebSocket. Logging, backtraces and the text of assertions, which have no effect on the rest. The
  printing of floating-point numbers by the standard library and compression by miniz are parameters. Delivery with compressed frames is not proved, as it depends on miniz being inverse to itself.
\<close>

end
